(* ===== verification/Prelude.thy ===== *)
theory Prelude
  imports Main "HOL-Library.Word" "HOL-Library.Multiset" "HOL-Library.Sublist"
begin

text \<open>
  Shared vocabulary of the development: how a Go run-time panic, a slice access, a slice copy
  and the standard library's sort are represented, and the generic list lemmas the component
  theories use. Nothing here models a file of the repository; it fixes the reading of the
  language that all component theories share.
\<close>

subsection \<open>Proof collections\<close>

named_theorems go_simps \<open>unfolding rules of the error type and of slice accesses\<close>

subsection \<open>Panics and fatal exits as values\<close>

text \<open>
  A Go function that can panic, that can end the process through
  \<open>log.Fatal\<close> or \<open>os.Exit\<close>, or a test through \<open>t.Fatal\<close>, returns a
  value of type \<open>'a go\<close>: \<open>Inl p\<close> when it panics with \<open>p\<close>, \<open>Inr x\<close> when it returns \<open>x\<close>.
\<close>

datatype go_panic =
    IndexOutOfRange
  | NilDereference
  | DivideByZero
  | MakeSliceLen
  | TypeAssertion
  | NilMapWrite
  | ExplicitPanic string
  | LogFatal string
  | OsExit int
  | TestFatal string

type_synonym 'a go = "go_panic + 'a"

definition go_bind :: "'a go \<Rightarrow> ('a \<Rightarrow> 'b go) \<Rightarrow> 'b go" where
  "go_bind m f = (case m of Inl p \<Rightarrow> Inl p | Inr x \<Rightarrow> f x)"

lemma go_bind_Inl [simp, go_simps]: "go_bind (Inl p) f = Inl p"
  by (simp add: go_bind_def)

lemma go_bind_Inr [simp, go_simps]: "go_bind (Inr x) f = f x"
  by (simp add: go_bind_def)

lemma go_bind_eq_Inr: "go_bind m f = Inr y \<longleftrightarrow> (\<exists>x. m = Inr x \<and> f x = Inr y)"
  by (cases m) auto

lemma go_bind_cong [fundef_cong]:
  "m = m' \<Longrightarrow> (\<And>x. m' = Inr x \<Longrightarrow> f x = f' x) \<Longrightarrow> go_bind m f = go_bind m' f'"
  by (cases m') auto

text \<open>Running a fallible action over a list, left to right, stopping at the first panic.\<close>

fun go_fold :: "('a \<Rightarrow> 's \<Rightarrow> 's go) \<Rightarrow> 'a list \<Rightarrow> 's \<Rightarrow> 's go" where
  "go_fold f [] s = Inr s"
| "go_fold f (x # xs) s = go_bind (f x s) (go_fold f xs)"

lemma go_fold_append [simp]:
  "go_fold f (xs @ ys) s = go_bind (go_fold f xs s) (go_fold f ys)"
proof (induction xs arbitrary: s)
  case (Cons x xs)
  then show ?case by (cases "f x s") auto
qed simp

lemma go_bind_return [simp]: "go_bind m Inr = m"
  by (cases m) auto

lemma go_fold_Nil [simp]: "go_fold f [] = Inr"
  by (rule ext) simp

lemma go_fold_cong [fundef_cong]:
  "xs = ys \<Longrightarrow> s = t \<Longrightarrow> (\<And>x s. x \<in> set ys \<Longrightarrow> f x s = g x s) \<Longrightarrow> go_fold f xs s = go_fold g ys t"
proof (induction xs arbitrary: ys s t)
  case (Cons x xs)
  then show ?case by (cases "g x t") auto
qed simp

lemma go_fold_total:
  "(\<And>x s. x \<in> set xs \<Longrightarrow> f x s = Inr (g x s)) \<Longrightarrow> go_fold f xs s = Inr (fold g xs s)"
  by (induction xs arbitrary: s) auto

lemma go_fold_invariant:
  assumes "go_fold f xs s = Inr t" and "P s"
    and "\<And>x s s'. x \<in> set xs \<Longrightarrow> P s \<Longrightarrow> f x s = Inr s' \<Longrightarrow> P s'"
  shows "P t"
  using assms(1,2,3)
proof (induction xs arbitrary: s)
  case (Cons x xs)
  then obtain s' where "f x s = Inr s'" and "go_fold f xs s' = Inr t" by (auto simp: go_bind_eq_Inr)
  with Cons show ?case by (meson list.set_intros)
qed simp

text \<open>
  A computation that may also not return is an option of such a value: \<open>None\<close> when it runs, or
  waits, forever.
\<close>

type_synonym 'a go_run = "'a go option"

definition run_bind :: "'a go_run \<Rightarrow> ('a \<Rightarrow> 'b go_run) \<Rightarrow> 'b go_run" where
  "run_bind m f = (case m of None \<Rightarrow> None | Some (Inl p) \<Rightarrow> Some (Inl p) | Some (Inr x) \<Rightarrow> f x)"

lemma run_bind_simps [simp, go_simps]:
  "run_bind None f = None" "run_bind (Some (Inl p)) f = Some (Inl p)" "run_bind (Some (Inr x)) f = f x"
  by (simp_all add: run_bind_def)

subsection \<open>Slices\<close>

text \<open>Indexing a slice with an \<open>int\<close>: a negative index or one past the end panics.\<close>

definition slice_get :: "'a list \<Rightarrow> int \<Rightarrow> 'a go" where
  "slice_get xs i = (if 0 \<le> i \<and> nat i < length xs then Inr (xs ! nat i) else Inl IndexOutOfRange)"

definition slice_set :: "'a list \<Rightarrow> int \<Rightarrow> 'a \<Rightarrow> 'a list go" where
  "slice_set xs i v =
     (if 0 \<le> i \<and> nat i < length xs then Inr (xs[nat i := v]) else Inl IndexOutOfRange)"

text \<open>\<open>make([]T, n)\<close>: a negative length panics, otherwise the slice is filled with the zero value.\<close>

definition make_slice :: "'a \<Rightarrow> int \<Rightarrow> 'a list go" where
  "make_slice zero n = (if n < 0 then Inl MakeSliceLen else Inr (replicate (nat n) zero))"

text \<open>\<open>copy(dst, src)\<close> overwrites the common prefix of the two slices.\<close>

definition copy_slice :: "'a list \<Rightarrow> 'a list \<Rightarrow> 'a list" where
  "copy_slice dst src = take (length dst) src @ drop (length src) dst"

lemma slice_get_nat [simp, go_simps]:
  "slice_get xs (int i) = (if i < length xs then Inr (xs ! i) else Inl IndexOutOfRange)"
  by (simp add: slice_get_def)

lemma slice_set_nat [simp, go_simps]:
  "slice_set xs (int i) v = (if i < length xs then Inr (xs[i := v]) else Inl IndexOutOfRange)"
  by (simp add: slice_set_def)

lemma slice_get_Inr: "slice_get xs i = Inr v \<longleftrightarrow> 0 \<le> i \<and> nat i < length xs \<and> v = xs ! nat i"
  by (auto simp: slice_get_def)

lemma slice_set_Inr:
  "slice_set xs i v = Inr ys \<longleftrightarrow> 0 \<le> i \<and> nat i < length xs \<and> ys = xs[nat i := v]"
  by (auto simp: slice_set_def)

lemma copy_slice_fresh [simp]: "length dst = length src \<Longrightarrow> copy_slice dst src = src"
  by (simp add: copy_slice_def)

subsection \<open>The contract of the standard library's sort\<close>

text \<open>
  \<open>sort.Sort\<close> and \<open>sort.Strings\<close> are not stable: all that is documented is that the result is a
  permutation of the input in which no later element is less than an earlier one. A model that
  sorts takes the sorting function as an argument and its theorems assume only this contract.
\<close>

definition sort_result :: "('a \<Rightarrow> 'a \<Rightarrow> bool) \<Rightarrow> 'a list \<Rightarrow> 'a list \<Rightarrow> bool" where
  "sort_result lt xs ys \<longleftrightarrow> mset ys = mset xs \<and> sorted_wrt (\<lambda>a b. \<not> lt b a) ys"

definition is_go_sort :: "('a \<Rightarrow> 'a \<Rightarrow> bool) \<Rightarrow> ('a list \<Rightarrow> 'a list) \<Rightarrow> bool" where
  "is_go_sort lt srt \<longleftrightarrow> (\<forall>xs. sort_result lt xs (srt xs))"

lemma sort_result_mset: "sort_result lt xs ys \<Longrightarrow> mset ys = mset xs"
  by (simp add: sort_result_def)

lemma sort_result_set: "sort_result lt xs ys \<Longrightarrow> set ys = set xs"
  by (metis mset_eq_setD sort_result_def)

lemma sort_result_length: "sort_result lt xs ys \<Longrightarrow> length ys = length xs"
  by (metis mset_eq_length sort_result_def)

text \<open>An insertion sort, a concrete instance of the contract.\<close>

fun insert_by :: "('a \<Rightarrow> 'a \<Rightarrow> bool) \<Rightarrow> 'a \<Rightarrow> 'a list \<Rightarrow> 'a list" where
  "insert_by lt x [] = [x]"
| "insert_by lt x (y # ys) = (if lt y x then y # insert_by lt x ys else x # y # ys)"

definition sort_by :: "('a \<Rightarrow> 'a \<Rightarrow> bool) \<Rightarrow> 'a list \<Rightarrow> 'a list" where
  "sort_by lt xs = foldr (insert_by lt) xs []"

lemma mset_insert_by [simp]: "mset (insert_by lt x ys) = add_mset x (mset ys)"
  by (induction ys) auto

lemma set_insert_by [simp]: "set (insert_by lt x ys) = insert x (set ys)"
  by (induction ys) auto

lemma sorted_insert_by:
  assumes asym: "\<And>a b. lt a b \<Longrightarrow> \<not> lt b a"
    and trans: "\<And>a b c. \<not> lt b a \<Longrightarrow> \<not> lt c b \<Longrightarrow> \<not> lt c a"
  shows "sorted_wrt (\<lambda>a b. \<not> lt b a) ys \<Longrightarrow> sorted_wrt (\<lambda>a b. \<not> lt b a) (insert_by lt x ys)"
proof (induction ys)
  case (Cons y ys)
  show ?case
  proof (cases "lt y x")
    case True
    with Cons show ?thesis by (auto dest: asym)
  next
    case False
    with Cons.prems have "\<forall>z\<in>set ys. \<not> lt z x"
      using trans by auto
    with False Cons.prems show ?thesis by auto
  qed
qed simp

lemma sort_by_is_go_sort:
  assumes "\<And>a b. lt a b \<Longrightarrow> \<not> lt b a"
    and "\<And>a b c. \<not> lt b a \<Longrightarrow> \<not> lt c b \<Longrightarrow> \<not> lt c a"
  shows "is_go_sort lt (sort_by lt)"
proof -
  have "sort_result lt xs (sort_by lt xs)" for xs
  proof (induction xs)
    case Nil
    then show ?case by (simp add: sort_by_def sort_result_def)
  next
    case (Cons x xs)
    then show ?case
      using sorted_insert_by [of lt, OF assms] by (simp add: sort_by_def sort_result_def)
  qed
  then show ?thesis by (simp add: is_go_sort_def)
qed

subsection \<open>Lists\<close>

lemma filter_last_split:
  "x \<in> set xs \<Longrightarrow> P x \<Longrightarrow> \<exists>ys z zs. xs = ys @ z # zs \<and> P z \<and> (\<forall>y\<in>set ys. \<not> P y)"
  by (rule split_list_first_propE [of xs P]) auto

lemma nth_update_if: "xs[i := v] ! j = (if i = j \<and> j < length xs then v else xs ! j)"
  by (cases "i = j") (auto simp: list_update_beyond)

lemma list_all_update: "list_all P xs \<Longrightarrow> P v \<Longrightarrow> list_all P (xs[i := v])"
  using set_update_subset_insert [of xs i v] by (auto simp: list_all_iff)

text \<open>A permutation of an image is the image of a permutation.\<close>

lemma mset_map_ex: "mset xs = mset (map f ys) \<Longrightarrow> \<exists>zs. mset zs = mset ys \<and> xs = map f zs"
proof (induction xs arbitrary: ys)
  case (Cons x xs)
  then have "x \<in> set (map f ys)" by (metis list.set_intros(1) mset_eq_setD)
  then obtain y where "y \<in> set ys" and y: "x = f y" by auto
  then obtain us vs where ys: "ys = us @ y # vs" by (meson split_list)
  with Cons.prems y have "mset xs = mset (map f (us @ vs))" by simp
  from Cons.IH [OF this] obtain zs where zs: "mset zs = mset (us @ vs)" "xs = map f zs" by blast
  have "mset (y # zs) = mset ys" unfolding ys using zs(1) by simp
  moreover have "x # xs = map f (y # zs)" unfolding y zs(2) by simp
  ultimately show ?case by (intro exI [of _ "y # zs"] conjI)
qed simp

lemma mset_upt_iff: "mset js = mset [0..<n] \<longleftrightarrow> distinct js \<and> set js = {..<n}"
proof -
  have "set [0..<n] = {..<n}" by auto
  then show ?thesis
    using set_eq_iff_mset_eq_distinct [of js "[0..<n]"] mset_eq_imp_distinct_iff [of js "[0..<n]"]
      mset_eq_setD [of js "[0..<n]"] by auto
qed

end
