(* ===== verification/Porc_Model.thy ===== *)
theory Porc_Model
  imports Prelude
begin

text \<open>
  The vocabulary of the linearizability checker (\<open>porcupine/model.go\<close>): operations, events,
  sequential models and their defaults. An \<open>interface{}\<close> value is an element of a type variable:
  \<open>'v\<close> for the inputs and outputs of operations, \<open>'s\<close> for the states of a model. The functions of
  a model that may be absent (\<open>nil\<close>) are options; those that inspect the dynamic type of a value
  may panic, so they return a value of the error type.
\<close>

record 'v Operation =
  op_ClientId :: int
  op_Input :: 'v
  op_Call :: int
  op_Output :: 'v
  op_Return :: int

datatype EventKind = CallEvent | ReturnEvent

record 'v Event =
  ev_ClientId :: int
  ev_Kind :: EventKind
  ev_Value :: 'v
  ev_Id :: int

record ('v, 's) Model =
  Partition :: "('v Operation list \<Rightarrow> 'v Operation list list go) option"
  PartitionEvent :: "('v Event list \<Rightarrow> 'v Event list list go) option"
  Init :: 's
  Step :: "'s \<Rightarrow> 'v \<Rightarrow> 'v \<Rightarrow> (bool \<times> 's) go"
  Equal :: "('s \<Rightarrow> 's \<Rightarrow> bool) option"
  DescribeOperation :: "('v \<Rightarrow> 'v \<Rightarrow> string go) option"
  DescribeState :: "('s \<Rightarrow> string) option"

definition NoPartition :: "'v Operation list \<Rightarrow> 'v Operation list list go" where
  "NoPartition history = Inr [history]"

definition NoPartitionEvent :: "'v Event list \<Rightarrow> 'v Event list list go" where
  "NoPartitionEvent history = Inr [history]"

definition ShallowEqual :: "'s \<Rightarrow> 's \<Rightarrow> bool" where
  "ShallowEqual state1 state2 = (state1 = state2)"

text \<open>
  The two default descriptions print values with the \<open>%v\<close> verb of \<open>fmt\<close>; how a value is printed
  is an argument.
\<close>

definition DefaultDescribeOperation :: "('v \<Rightarrow> string) \<Rightarrow> 'v \<Rightarrow> 'v \<Rightarrow> string go" where
  "DefaultDescribeOperation fmtv input output = Inr (fmtv input @ '' -> '' @ fmtv output)"

definition DefaultDescribeState :: "('s \<Rightarrow> string) \<Rightarrow> 's \<Rightarrow> string" where
  "DefaultDescribeState fmts state = fmts state"

datatype CheckResult = Unknown | Ok | Illegal

end
