(* ===== verification/Bitset.thy ===== *)
theory Bitset
  imports Prelude
begin

text \<open>
  The bit sets of the linearizability checker (\<open>porcupine/bitset.go\<close>): a slice of 64-bit words,
  operated on by position. Every operation of the file is modelled; an index outside the slice
  panics. The second half gives the contract the checker relies on, as an interface of finite
  sets of operation ids, and shows that the bit sets provide it.
\<close>

unbundle bit_operations_syntax

subsection \<open>The operations of bitset.go\<close>

type_synonym bitset = "64 word list"

definition newBitset :: "nat \<Rightarrow> bitset" where
  "newBitset bits =
     (let extra = (if bits mod 64 \<noteq> 0 then 1 else 0);
          chunks = bits div 64 + extra
      in replicate chunks 0)"

definition clone_bitset :: "bitset \<Rightarrow> bitset" where
  "clone_bitset b = (let dataCopy = replicate (length b) 0 in copy_slice dataCopy b)"

definition bitsetIndex :: "nat \<Rightarrow> nat \<times> nat" where
  "bitsetIndex pos = (pos div 64, pos mod 64)"

definition set_bitset :: "bitset \<Rightarrow> nat \<Rightarrow> bitset go" where
  "set_bitset b pos =
     (let (major, minor) = bitsetIndex pos
      in if major < length b then Inr (b[major := b ! major OR push_bit minor 1])
         else Inl IndexOutOfRange)"

definition clear_bitset :: "bitset \<Rightarrow> nat \<Rightarrow> bitset go" where
  "clear_bitset b pos =
     (let (major, minor) = bitsetIndex pos
      in if major < length b then Inr (b[major := b ! major AND NOT (push_bit minor 1)])
         else Inl IndexOutOfRange)"

definition get_bitset :: "bitset \<Rightarrow> nat \<Rightarrow> bool go" where
  "get_bitset b pos =
     (let (major, minor) = bitsetIndex pos
      in if major < length b then Inr (b ! major AND push_bit minor 1 \<noteq> 0)
         else Inl IndexOutOfRange)"

text \<open>\<open>bits.OnesCount64\<close> of the standard library.\<close>

definition onesCount64 :: "64 word \<Rightarrow> nat" where
  "onesCount64 v = length (filter (bit v) [0..<64])"

definition popcnt :: "bitset \<Rightarrow> nat" where
  "popcnt b = foldl (\<lambda>total v. total + onesCount64 v) 0 b"

definition hash_bitset :: "bitset \<Rightarrow> 64 word" where
  "hash_bitset b = foldl (\<lambda>hash v. hash XOR v) (of_nat (popcnt b)) b"

definition equals_bitset :: "bitset \<Rightarrow> bitset \<Rightarrow> bool" where
  "equals_bitset b b2 =
     (if length b \<noteq> length b2 then False else list_all (\<lambda>i. b ! i = b2 ! i) [0..<length b])"

subsection \<open>Bit sets as sets of positions\<close>

definition members :: "bitset \<Rightarrow> nat set" where
  "members b = {pos. pos div 64 < length b \<and> bit (b ! (pos div 64)) (pos mod 64)}"

definition capacity :: "bitset \<Rightarrow> nat" where
  "capacity b = 64 * length b"

lemma major_less_iff: "pos div 64 < length b \<longleftrightarrow> pos < capacity b"
  by (auto simp: capacity_def)

lemma clone_bitset_id [simp]: "clone_bitset b = b"
  by (simp add: clone_bitset_def Let_def)

lemma capacity_newBitset: "n \<le> capacity (newBitset n)"
  by (auto simp: capacity_def newBitset_def Let_def)

lemma members_newBitset [simp]: "members (newBitset n) = {}"
  by (auto simp: members_def newBitset_def Let_def)

lemma single_bit: "bit (2 ^ m :: 64 word) n \<longleftrightarrow> n = m \<and> n < 64"
  by (auto simp: bit_exp_iff)

lemma and_single_bit:
  fixes w :: "64 word"
  assumes "m < 64"
  shows "w AND 2 ^ m \<noteq> 0 \<longleftrightarrow> bit w m"
proof -
  have "w AND 2 ^ m = 0 \<longleftrightarrow> \<not> bit w m"
    using assms by (auto intro!: bit_word_eqI simp: bit_and_iff single_bit dest: arg_cong [where f = "\<lambda>x. bit x m"])
  then show ?thesis by blast
qed

lemma get_bitset_eq:
  "get_bitset b pos = (if pos < capacity b then Inr (pos \<in> members b) else Inl IndexOutOfRange)"
  by (auto simp: get_bitset_def bitsetIndex_def Let_def members_def and_single_bit
      simp flip: major_less_iff)

lemma set_bitset_Inr:
  assumes "pos < capacity b"
  shows "\<exists>b'. set_bitset b pos = Inr b' \<and> capacity b' = capacity b \<and> members b' = insert pos (members b)"
proof -
  let ?b' = "b[pos div 64 := b ! (pos div 64) OR push_bit (pos mod 64) 1]"
  have major: "pos div 64 < length b" using assms by (simp add: major_less_iff)
  have "q \<in> members ?b' \<longleftrightarrow> q \<in> insert pos (members b)" for q
  proof (cases "q div 64 = pos div 64")
    case True
    then have "q mod 64 = pos mod 64 \<longleftrightarrow> q = pos"
      by (metis div_mult_mod_eq)
    with True major show ?thesis
      by (auto simp: members_def bit_or_iff single_bit)
  next
    case False
    then have "q \<noteq> pos" by auto
    with False show ?thesis by (auto simp: members_def)
  qed
  then have "members ?b' = insert pos (members b)" by blast
  moreover have "set_bitset b pos = Inr ?b'"
    using major by (simp add: set_bitset_def bitsetIndex_def)
  ultimately show ?thesis by (simp add: capacity_def)
qed

lemma clear_bitset_Inr:
  assumes "pos < capacity b"
  shows "\<exists>b'. clear_bitset b pos = Inr b' \<and> capacity b' = capacity b \<and> members b' = members b - {pos}"
proof -
  let ?b' = "b[pos div 64 := b ! (pos div 64) AND NOT (push_bit (pos mod 64) 1)]"
  have major: "pos div 64 < length b" using assms by (simp add: major_less_iff)
  have "q \<in> members ?b' \<longleftrightarrow> q \<in> members b - {pos}" for q
  proof (cases "q div 64 = pos div 64")
    case True
    then have "q mod 64 = pos mod 64 \<longleftrightarrow> q = pos"
      by (metis div_mult_mod_eq)
    with True major show ?thesis
      by (auto simp: members_def bit_and_iff bit_not_iff single_bit)
  next
    case False
    then have "q \<noteq> pos" by auto
    with False show ?thesis by (auto simp: members_def)
  qed
  then have "members ?b' = members b - {pos}" by blast
  moreover have "clear_bitset b pos = Inr ?b'"
    using major by (simp add: clear_bitset_def bitsetIndex_def)
  ultimately show ?thesis by (simp add: capacity_def)
qed

lemma equals_bitset_eq [simp]: "equals_bitset b b2 \<longleftrightarrow> b = b2"
  by (auto simp: equals_bitset_def list_all_iff intro: nth_equalityI)

lemma members_inject:
  assumes "length b = length b2" and "members b = members b2"
  shows "b = b2"
proof (rule nth_equalityI [OF assms(1)])
  fix i assume i: "i < length b"
  show "b ! i = b2 ! i"
  proof (rule bit_word_eqI)
    fix n assume n: "n < LENGTH(64)"
    have "64 * i + n \<in> members b \<longleftrightarrow> 64 * i + n \<in> members b2" by (simp add: assms(2))
    then show "bit (b ! i) n = bit (b2 ! i) n"
      using i n assms(1) by (simp add: members_def)
  qed
qed

subsection \<open>Counting and hashing\<close>

lemma foldl_sum_list: "foldl (\<lambda>total v. total + f v) (a :: nat) xs = a + sum_list (map f xs)"
  by (induction xs arbitrary: a) auto

lemma onesCount64_card: "onesCount64 v = card {n. n < 64 \<and> bit v n}"
proof -
  have "{n. n < 64 \<and> bit v n} = set (filter (bit v) [0..<64])" by auto
  then show ?thesis
    unfolding onesCount64_def by (simp only: distinct_card distinct_filter distinct_upt)
qed

lemma onesCount64_le: "onesCount64 v \<le> 64"
  unfolding onesCount64_def by (metis diff_zero length_filter_le length_upt)

lemma next_chunk: "(p + 64) div 64 = Suc (p div 64)" for p :: nat
  by simp

lemma members_Cons:
  "members (w # b) = {n. n < 64 \<and> bit w n} \<union> (\<lambda>p. p + 64) ` members b"
proof (intro set_eqI iffI)
  fix p assume p: "p \<in> members (w # b)"
  show "p \<in> {n. n < 64 \<and> bit w n} \<union> (\<lambda>p. p + 64) ` members b"
  proof (cases "p < 64")
    case True
    with p show ?thesis by (simp add: members_def)
  next
    case False
    then obtain q where q: "p = q + 64" by (metis add.commute le_Suc_ex not_less)
    with p have "q \<in> members b" by (simp add: members_def next_chunk)
    with q show ?thesis by blast
  qed
next
  fix p assume "p \<in> {n. n < 64 \<and> bit w n} \<union> (\<lambda>p. p + 64) ` members b"
  then show "p \<in> members (w # b)" by (auto simp: members_def next_chunk)
qed

lemma members_Nil [simp]: "members [] = {}"
  by (simp add: members_def)

lemma finite_members [simp]: "finite (members b)"
  by (induction b) (auto simp: members_Cons)

lemma popcnt_sum: "popcnt b = sum_list (map onesCount64 b)"
  by (simp add: popcnt_def foldl_sum_list)

lemma popcnt_card: "popcnt b = card (members b)"
proof (induction b)
  case (Cons w b)
  have "card (members (w # b)) = card {n. n < 64 \<and> bit w n} + card ((\<lambda>p. p + 64) ` members b)"
    unfolding members_Cons by (rule card_Un_disjoint) auto
  also have "card ((\<lambda>p. p + 64) ` members b) = card (members b)"
    by (rule card_image) (simp add: inj_on_def)
  finally show ?case using Cons by (simp add: popcnt_sum onesCount64_card)
qed (simp add: popcnt_sum)

lemma popcnt_le_capacity: "popcnt b \<le> capacity b"
  by (induction b) (auto simp: popcnt_sum capacity_def intro: add_mono onesCount64_le)

subsection \<open>The interface the checker uses\<close>

text \<open>
  A container of operation ids below a bound: insertion and deletion do not panic below the
  bound and have the effect of the set operations, equality of containers is equality of the
  sets, and equal containers hash alike. Hash collisions are allowed.
\<close>

locale id_container =
  fixes fresh :: "nat \<Rightarrow> 'b"
    and copy :: "'b \<Rightarrow> 'b"
    and ins :: "'b \<Rightarrow> nat \<Rightarrow> 'b go"
    and del :: "'b \<Rightarrow> nat \<Rightarrow> 'b go"
    and eq :: "'b \<Rightarrow> 'b \<Rightarrow> bool"
    and hash :: "'b \<Rightarrow> 'h"
    and ids :: "'b \<Rightarrow> nat set"
    and holds :: "nat \<Rightarrow> 'b \<Rightarrow> bool"
  assumes fresh: "holds n (fresh n) \<and> ids (fresh n) = {}"
    and copy: "copy b = b"
    and ins: "holds n b \<Longrightarrow> i < n \<Longrightarrow> \<exists>b'. ins b i = Inr b' \<and> holds n b' \<and> ids b' = insert i (ids b)"
    and del: "holds n b \<Longrightarrow> i < n \<Longrightarrow> \<exists>b'. del b i = Inr b' \<and> holds n b' \<and> ids b' = ids b - {i}"
    and eq: "holds n b \<Longrightarrow> holds n c \<Longrightarrow> eq b c \<longleftrightarrow> ids b = ids c"
    and hash: "holds n b \<Longrightarrow> holds n c \<Longrightarrow> ids b = ids c \<Longrightarrow> hash b = hash c"
begin

lemma ins_del_same:
  assumes "holds n b" and "i < n" and "i \<notin> ids b" and "ins b i = Inr c"
  shows "\<exists>d. del c i = Inr d \<and> holds n d \<and> ids d = ids b"
proof -
  from ins [OF assms(1,2)] assms(4) have c: "holds n c" "ids c = insert i (ids b)" by auto
  from del [OF c(1) assms(2)] obtain d where "del c i = Inr d" "holds n d" "ids d = ids c - {i}"
    by blast
  with c(2) assms(3) show ?thesis by auto
qed

end

definition holds_bitset :: "nat \<Rightarrow> bitset \<Rightarrow> bool" where
  "holds_bitset n b \<longleftrightarrow> length b = length (newBitset n)"

lemma holds_bitset_capacity: "holds_bitset n b \<Longrightarrow> i < n \<Longrightarrow> i < capacity b"
  using capacity_newBitset [of n] by (simp add: holds_bitset_def capacity_def)

interpretation idbits: id_container newBitset clone_bitset set_bitset clear_bitset equals_bitset
  hash_bitset members holds_bitset
proof unfold_locales
  fix n i :: nat and b :: bitset
  assume b: "holds_bitset n b" and i: "i < n"
  note cap = holds_bitset_capacity [OF b i]
  show "\<exists>b'. set_bitset b i = Inr b' \<and> holds_bitset n b' \<and> members b' = insert i (members b)"
    using set_bitset_Inr [OF cap] b by (auto simp: holds_bitset_def capacity_def)
  show "\<exists>b'. clear_bitset b i = Inr b' \<and> holds_bitset n b' \<and> members b' = members b - {i}"
    using clear_bitset_Inr [OF cap] b by (auto simp: holds_bitset_def capacity_def)
next
  fix n :: nat and b c :: bitset
  assume "holds_bitset n b" and "holds_bitset n c"
  then have len: "length b = length c" by (simp add: holds_bitset_def)
  show "equals_bitset b c = (members b = members c)"
    using members_inject [OF len] by auto
  show "members b = members c \<Longrightarrow> hash_bitset b = hash_bitset c"
    using members_inject [OF len] by auto
qed (auto simp: holds_bitset_def)

subsection \<open>Properties\<close>

text \<open>
  The bit set is a set of ids: below the size it was created for, no operation panics; \<open>set\<close>
  makes exactly its position true, \<open>clear\<close> makes exactly its position false, every other position
  keeps its value, and \<open>popcnt\<close> grows by one exactly when \<open>set\<close> adds a new position.
\<close>

lemma bitset_set_clear_get:
  assumes "holds_bitset n b" and "i < n" and "j < n"
  shows "\<exists>s c. set_bitset b i = Inr s \<and> clear_bitset b i = Inr c \<and> holds_bitset n s \<and> holds_bitset n c \<and>
    get_bitset s j = (if j = i then Inr True else get_bitset b j) \<and>
    get_bitset c j = (if j = i then Inr False else get_bitset b j) \<and>
    popcnt s = popcnt b + (if get_bitset b i = Inr True then 0 else 1)"
proof -
  from idbits.ins [OF assms(1,2)] obtain s
    where s: "set_bitset b i = Inr s" "holds_bitset n s" "members s = insert i (members b)" by blast
  from idbits.del [OF assms(1,2)] obtain c
    where c: "clear_bitset b i = Inr c" "holds_bitset n c" "members c = members b - {i}" by blast
  have get: "get_bitset x i = Inr (i \<in> members x)" if "holds_bitset n x" "i < n" for x i
    using get_bitset_eq holds_bitset_capacity [OF that] by simp
  show ?thesis
    using s c get [OF assms(1,2)] get [OF assms(1,3)] get [OF s(2) assms(3)] get [OF c(2) assms(3)]
    by (auto simp: popcnt_card insert_absorb)
qed

text \<open>
  The cache key is sound: two bit sets of the same size are \<open>equals\<close> exactly when they hold the
  same ids, equal ones have the same \<open>hash\<close>, and \<open>popcnt\<close> counts the ids.
\<close>

lemma bitset_equals_hash:
  assumes "holds_bitset n a" and "holds_bitset n b"
  shows "(equals_bitset a b \<longleftrightarrow> members a = members b) \<and>
    (members a = members b \<longrightarrow> hash_bitset a = hash_bitset b) \<and> popcnt a = card (members a)"
  using idbits.eq [OF assms] idbits.hash [OF assms] popcnt_card by blast

end
