(* ===== verification/Checker.thy ===== *)
theory Checker
  imports Porc_Model Bitset
begin

text \<open>
  The definitions of \<open>porcupine/checker.go\<close> that work on one partition of a history: entries and
  their order, renumbering, the doubly linked list of nodes with its lift and unlift operations,
  the cache, and the backtracking search \<open>checkSingle\<close>. Nodes live in an explicit heap, a list
  indexed by address, because lift and unlift depend on the links a removed node keeps.
\<close>

subsection \<open>Entries\<close>

datatype entryKind = callEntry | returnEntry

record 'v entry =
  e_kind :: entryKind
  e_value :: 'v
  e_id :: int
  e_time :: int
  e_clientId :: int

definition mk_entry :: "entryKind \<Rightarrow> 'v \<Rightarrow> int \<Rightarrow> int \<Rightarrow> int \<Rightarrow> 'v entry" where
  "mk_entry k v i t c = \<lparr>e_kind = k, e_value = v, e_id = i, e_time = t, e_clientId = c\<rparr>"

definition byTime_Less :: "'v entry \<Rightarrow> 'v entry \<Rightarrow> bool" where
  "byTime_Less a b =
     (if e_time a \<noteq> e_time b then e_time a < e_time b
      else e_kind a = callEntry \<and> e_kind b = returnEntry)"

text \<open>The loop of \<open>makeEntries\<close>, from the id of the next operation on.\<close>

fun makeEntries_from :: "int \<Rightarrow> 'v Operation list \<Rightarrow> 'v entry list" where
  "makeEntries_from i [] = []"
| "makeEntries_from i (elem # history) =
     mk_entry callEntry (op_Input elem) i (op_Call elem) (op_ClientId elem)
     # mk_entry returnEntry (op_Output elem) i (op_Return elem) (op_ClientId elem)
     # makeEntries_from (i + 1) history"

definition makeEntries ::
    "('v entry list \<Rightarrow> 'v entry list) \<Rightarrow> 'v Operation list \<Rightarrow> 'v entry list" where
  "makeEntries sortByTime history = sortByTime (makeEntries_from 0 history)"

text \<open>The loop of \<open>renumber\<close>: the map of ids already seen and the next fresh id.\<close>

fun renumber_from :: "(int \<rightharpoonup> int) \<Rightarrow> int \<Rightarrow> 'v Event list \<Rightarrow> 'v Event list" where
  "renumber_from m i [] = []"
| "renumber_from m i (v # events) =
     (case m (ev_Id v) of
        Some r \<Rightarrow> v\<lparr>ev_Id := r\<rparr> # renumber_from m i events
      | None \<Rightarrow> v\<lparr>ev_Id := i\<rparr> # renumber_from (m(ev_Id v \<mapsto> i)) (i + 1) events)"

definition renumber :: "'v Event list \<Rightarrow> 'v Event list" where
  "renumber events = renumber_from Map.empty 0 events"

fun convertEntries_from :: "int \<Rightarrow> 'v Event list \<Rightarrow> 'v entry list" where
  "convertEntries_from i [] = []"
| "convertEntries_from i (elem # events) =
     (let kind = (if ev_Kind elem = ReturnEvent then returnEntry else callEntry)
      in mk_entry kind (ev_Value elem) (ev_Id elem) i (ev_ClientId elem)
         # convertEntries_from (i + 1) events)"

definition convertEntries :: "'v Event list \<Rightarrow> 'v entry list" where
  "convertEntries events = convertEntries_from 0 events"

subsection \<open>Nodes on a heap\<close>

record 'v node =
  n_value :: "'v option"
  n_match :: "nat option"
  n_id :: int
  n_next :: "nat option"
  n_prev :: "nat option"

type_synonym 'v heap = "'v node list"

definition deref :: "'v heap \<Rightarrow> nat option \<Rightarrow> 'v node go" where
  "deref h p =
     (case p of None \<Rightarrow> Inl NilDereference
      | Some a \<Rightarrow> if a < length h then Inr (h ! a) else Inl NilDereference)"

definition set_next :: "'v heap \<Rightarrow> nat option \<Rightarrow> nat option \<Rightarrow> 'v heap go" where
  "set_next h p q =
     (case p of None \<Rightarrow> Inl NilDereference
      | Some a \<Rightarrow> if a < length h then Inr (h[a := (h ! a)\<lparr>n_next := q\<rparr>]) else Inl NilDereference)"

definition set_prev :: "'v heap \<Rightarrow> nat option \<Rightarrow> nat option \<Rightarrow> 'v heap go" where
  "set_prev h p q =
     (case p of None \<Rightarrow> Inl NilDereference
      | Some a \<Rightarrow> if a < length h then Inr (h[a := (h ! a)\<lparr>n_prev := q\<rparr>]) else Inl NilDereference)"

definition insertBefore :: "'v heap \<Rightarrow> nat option \<Rightarrow> nat option \<Rightarrow> 'v heap go" where
  "insertBefore h n mark =
     (if mark \<noteq> None then
        go_bind (deref h mark) (\<lambda>mk.
          let beforeMark = n_prev mk in
          go_bind (set_prev h mark n) (\<lambda>h1.
          go_bind (set_next h1 n mark) (\<lambda>h2.
            if beforeMark \<noteq> None then
              go_bind (set_prev h2 n beforeMark) (\<lambda>h3. set_next h3 beforeMark n)
            else Inr h2)))
      else Inr h)"

text \<open>\<open>length\<close> of checker.go follows the next links; it returns only if the list ends.\<close>

partial_function (option) node_length :: "'v heap \<Rightarrow> nat option \<Rightarrow> nat \<Rightarrow> (nat go) option" where
  "node_length h n l =
     (if n = None then Some (Inr l)
      else case deref h n of
             Inl p \<Rightarrow> Some (Inl p)
           | Inr nd \<Rightarrow> node_length h (n_next nd) (l + 1))"

text \<open>
  One iteration of the loop of \<open>makeLinkedEntries\<close> (which runs from the last entry to the first):
  the heap, the root and the map from ids to return nodes.
\<close>

definition linkEntry ::
    "'v entry \<Rightarrow> 'v heap \<times> nat option \<times> (int \<rightharpoonup> nat) \<Rightarrow> ('v heap \<times> nat option \<times> (int \<rightharpoonup> nat)) go" where
  "linkEntry elem s =
     (case s of (h, root, match) \<Rightarrow>
        if e_kind elem = returnEntry then
          let a = length h;
              h' = h @ [\<lparr>n_value = Some (e_value elem), n_match = None, n_id = e_id elem,
                         n_next = None, n_prev = None\<rparr>];
              match' = match(e_id elem \<mapsto> a)
          in go_bind (insertBefore h' (Some a) root) (\<lambda>h''. Inr (h'', Some a, match'))
        else
          let a = length h;
              h' = h @ [\<lparr>n_value = Some (e_value elem), n_match = match (e_id elem), n_id = e_id elem,
                         n_next = None, n_prev = None\<rparr>]
          in go_bind (insertBefore h' (Some a) root) (\<lambda>h''. Inr (h'', Some a, match)))"

definition makeLinkedEntries :: "'v entry list \<Rightarrow> ('v heap \<times> nat option) go" where
  "makeLinkedEntries entries =
     go_bind (go_fold linkEntry (rev entries) ([], None, Map.empty))
       (\<lambda>(h, root, match). Inr (h, root))"

definition lift :: "'v heap \<Rightarrow> nat option \<Rightarrow> 'v heap go" where
  "lift h entry =
     go_bind (deref h entry) (\<lambda>e.
     go_bind (set_next h (n_prev e) (n_next e)) (\<lambda>h1.
     go_bind (deref h1 entry) (\<lambda>e1.
     go_bind (set_prev h1 (n_next e1) (n_prev e1)) (\<lambda>h2.
     go_bind (deref h2 entry) (\<lambda>e2.
     let match = n_match e2 in
     go_bind (deref h2 match) (\<lambda>m.
     go_bind (set_next h2 (n_prev m) (n_next m)) (\<lambda>h3.
     go_bind (deref h3 match) (\<lambda>m1.
     if n_next m1 \<noteq> None then set_prev h3 (n_next m1) (n_prev m1) else Inr h3))))))))"

definition unlift :: "'v heap \<Rightarrow> nat option \<Rightarrow> 'v heap go" where
  "unlift h entry =
     go_bind (deref h entry) (\<lambda>e.
     let match = n_match e in
     go_bind (deref h match) (\<lambda>m.
     go_bind (set_next h (n_prev m) match) (\<lambda>h1.
     go_bind (deref h1 match) (\<lambda>m1.
     go_bind (if n_next m1 \<noteq> None then set_prev h1 (n_next m1) match else Inr h1) (\<lambda>h2.
     go_bind (deref h2 entry) (\<lambda>e2.
     go_bind (set_next h2 (n_prev e2) entry) (\<lambda>h3.
     go_bind (deref h3 entry) (\<lambda>e3.
     set_prev h3 (n_next e3) entry))))))))"

subsection \<open>The cache\<close>

record 's cacheEntry =
  ce_linearized :: bitset
  ce_state :: 's

type_synonym 's cache = "64 word \<Rightarrow> 's cacheEntry list"

definition model_Equal :: "('v, 's) Model \<Rightarrow> 's \<Rightarrow> 's \<Rightarrow> bool go" where
  "model_Equal model s t = (case Equal model of None \<Rightarrow> Inl NilDereference | Some eq \<Rightarrow> Inr (eq s t))"

fun cacheContains_loop :: "('v, 's) Model \<Rightarrow> 's cacheEntry \<Rightarrow> 's cacheEntry list \<Rightarrow> bool go" where
  "cacheContains_loop model entry [] = Inr False"
| "cacheContains_loop model entry (elem # elems) =
     (if equals_bitset (ce_linearized entry) (ce_linearized elem) then
        go_bind (model_Equal model (ce_state entry) (ce_state elem)) (\<lambda>b.
          if b then Inr True else cacheContains_loop model entry elems)
      else cacheContains_loop model entry elems)"

definition cacheContains :: "('v, 's) Model \<Rightarrow> 's cache \<Rightarrow> 's cacheEntry \<Rightarrow> bool go" where
  "cacheContains model cache entry =
     cacheContains_loop model entry (cache (hash_bitset (ce_linearized entry)))"

subsection \<open>The search\<close>

text \<open>
  The variables of \<open>checkSingle\<close>. The slices that \<open>longest\<close> points to are kept in \<open>cs_seqs\<close> in
  the order in which they are allocated; a pointer is an index into it.
\<close>

record ('v, 's) search =
  cs_heap :: "'v heap"
  cs_entry :: "nat option"
  cs_linearized :: bitset
  cs_cache :: "'s cache"
  cs_calls :: "(nat option \<times> 's) list"
  cs_longest :: "nat option list"
  cs_seqs :: "int list list"
  cs_state :: 's

type_synonym longest = "nat option list \<times> int list list"

text \<open>The ids of the calls made so far: the inner loop that fills \<open>seq\<close>.\<close>

fun call_ids :: "'v heap \<Rightarrow> (nat option \<times> 's) list \<Rightarrow> int list go" where
  "call_ids h [] = Inr []"
| "call_ids h (v # calls) =
     go_bind (deref h (fst v)) (\<lambda>e. go_bind (call_ids h calls) (\<lambda>ids. Inr (n_id e # ids)))"

text \<open>
  The loop that records the longest prefixes: \<open>longest\<close>, the allocated slices, and whether \<open>seq\<close>
  has been created in this round (its pointer).
\<close>

definition longest_step ::
    "'v heap \<Rightarrow> (nat option \<times> 's) list \<Rightarrow> nat option \<times> 's
     \<Rightarrow> nat option list \<times> int list list \<times> nat option
     \<Rightarrow> (nat option list \<times> int list list \<times> nat option) go" where
  "longest_step h calls v acc =
     (case acc of (longest, seqs, seq) \<Rightarrow>
        go_bind (deref h (fst v)) (\<lambda>e.
        go_bind (slice_get longest (n_id e)) (\<lambda>old.
        if (case old of None \<Rightarrow> True | Some q \<Rightarrow> length calls > length (seqs ! q)) then
          (case seq of
             Some q \<Rightarrow> go_bind (slice_set longest (n_id e) (Some q)) (\<lambda>l. Inr (l, seqs, seq))
           | None \<Rightarrow>
               go_bind (call_ids h calls) (\<lambda>ids.
               go_bind (slice_set longest (n_id e) (Some (length seqs))) (\<lambda>l.
                 Inr (l, seqs @ [ids], Some (length seqs)))))
        else Inr acc)))"

definition record_longest :: "bool \<Rightarrow> ('v, 's) search \<Rightarrow> ('v, 's) search go" where
  "record_longest computePartial st =
     (if computePartial then
        go_bind (go_fold (longest_step (cs_heap st) (cs_calls st)) (cs_calls st)
                   (cs_longest st, cs_seqs st, None))
          (\<lambda>(longest, seqs, seq). Inr (st\<lparr>cs_longest := longest, cs_seqs := seqs\<rparr>))
      else Inr st)"

text \<open>The branch for a call entry: try to linearize it now.\<close>

definition try_call :: "('v, 's) Model \<Rightarrow> nat \<Rightarrow> 'v node \<Rightarrow> ('v, 's) search \<Rightarrow> ('v, 's) search go" where
  "try_call model headEntry e st =
     go_bind (deref (cs_heap st) (n_match e)) (\<lambda>matching.
     go_bind (case (n_value e, n_value matching) of
                (Some i, Some out) \<Rightarrow> Step model (cs_state st) i out
              | _ \<Rightarrow> Inl TypeAssertion) (\<lambda>(ok, newState).
     if ok then
       go_bind (set_bitset (clone_bitset (cs_linearized st)) (nat (n_id e))) (\<lambda>newLinearized.
       let newCacheEntry = \<lparr>ce_linearized = newLinearized, ce_state = newState\<rparr> in
       go_bind (cacheContains model (cs_cache st) newCacheEntry) (\<lambda>hit.
       if \<not> hit then
         let hash = hash_bitset newLinearized in
         go_bind (set_bitset (cs_linearized st) (nat (n_id e))) (\<lambda>linearized'.
         go_bind (lift (cs_heap st) (cs_entry st)) (\<lambda>h'.
         go_bind (deref h' (Some headEntry)) (\<lambda>hde.
         Inr (st\<lparr>cs_cache := (cs_cache st)(hash := cs_cache st hash @ [newCacheEntry]),
                 cs_calls := cs_calls st @ [(cs_entry st, cs_state st)],
                 cs_state := newState,
                 cs_linearized := linearized',
                 cs_heap := h',
                 cs_entry := n_next hde\<rparr>))))
       else Inr (st\<lparr>cs_entry := n_next e\<rparr>)))
     else Inr (st\<lparr>cs_entry := n_next e\<rparr>)))"

text \<open>The branch for a return entry: undo the last call, if there is one.\<close>

definition backtrack :: "('v, 's) search \<Rightarrow> ('v, 's) search go" where
  "backtrack st =
     (let callsTop = last (cs_calls st) in
      go_bind (deref (cs_heap st) (fst callsTop)) (\<lambda>e.
      go_bind (clear_bitset (cs_linearized st) (nat (n_id e))) (\<lambda>linearized'.
      go_bind (unlift (cs_heap st) (fst callsTop)) (\<lambda>h'.
      go_bind (deref h' (fst callsTop)) (\<lambda>e'.
      Inr (st\<lparr>cs_state := snd callsTop,
              cs_linearized := linearized',
              cs_calls := butlast (cs_calls st),
              cs_heap := h',
              cs_entry := n_next e'\<rparr>))))))"

text \<open>
  The body of the loop. \<open>Inl r\<close> leaves the function with result \<open>r\<close>, \<open>Inr st\<close> goes round again;
  \<open>killed\<close> is what this iteration reads from the kill flag.
\<close>

definition checkSingle_body ::
    "('v, 's) Model \<Rightarrow> bool \<Rightarrow> nat \<Rightarrow> bool \<Rightarrow> ('v, 's) search
     \<Rightarrow> ((bool \<times> longest) + ('v, 's) search) go" where
  "checkSingle_body model computePartial headEntry killed st =
     (if killed then Inr (Inl (False, cs_longest st, cs_seqs st))
      else
        go_bind (deref (cs_heap st) (cs_entry st)) (\<lambda>e.
        if n_match e \<noteq> None then go_bind (try_call model headEntry e st) (\<lambda>st'. Inr (Inr st'))
        else if cs_calls st = [] then Inr (Inl (False, cs_longest st, cs_seqs st))
        else go_bind (record_longest computePartial st) (\<lambda>st1.
             go_bind (backtrack st1) (\<lambda>st2. Inr (Inr st2)))))"

text \<open>What follows the loop: every operation is in the complete linearization.\<close>

definition checkSingle_end :: "nat \<Rightarrow> ('v, 's) search \<Rightarrow> (bool \<times> longest) go" where
  "checkSingle_end n st =
     go_bind (call_ids (cs_heap st) (cs_calls st)) (\<lambda>seq.
       Inr (True, replicate n (Some (length (cs_seqs st))), cs_seqs st @ [seq]))"

partial_function (option) checkSingle_loop ::
    "('v, 's) Model \<Rightarrow> bool \<Rightarrow> (nat \<Rightarrow> bool) \<Rightarrow> nat \<Rightarrow> nat \<Rightarrow> nat \<Rightarrow> ('v, 's) search
     \<Rightarrow> ((bool \<times> longest) go) option" where
  "checkSingle_loop model computePartial kill n headEntry iter st =
     (case deref (cs_heap st) (Some headEntry) of
        Inl p \<Rightarrow> Some (Inl p)
      | Inr hde \<Rightarrow>
          if n_next hde \<noteq> None then
            (case checkSingle_body model computePartial headEntry (kill iter) st of
               Inl p \<Rightarrow> Some (Inl p)
             | Inr (Inl r) \<Rightarrow> Some (Inr r)
             | Inr (Inr st') \<Rightarrow> checkSingle_loop model computePartial kill n headEntry (Suc iter) st')
          else Some (checkSingle_end n st))"

text \<open>
  \<open>checkSingle\<close>: \<open>kill i\<close> is the value of the kill flag that the \<open>i\<close>-th iteration reads. The result
  is \<open>None\<close> when the search does not return.
\<close>

definition checkSingle ::
    "('v, 's) Model \<Rightarrow> 'v entry list \<Rightarrow> bool \<Rightarrow> (nat \<Rightarrow> bool) \<Rightarrow> ((bool \<times> longest) go) option" where
  "checkSingle model history computePartial kill =
     (case makeLinkedEntries history of
        Inl p \<Rightarrow> Some (Inl p)
      | Inr (h, entry) \<Rightarrow>
          (case node_length h entry 0 of
             None \<Rightarrow> None
           | Some (Inl p) \<Rightarrow> Some (Inl p)
           | Some (Inr len) \<Rightarrow>
               let n = len div 2;
                   headEntry = length h;
                   h1 = h @ [\<lparr>n_value = None, n_match = None, n_id = -1, n_next = None, n_prev = None\<rparr>]
               in case insertBefore h1 (Some headEntry) entry of
                    Inl p \<Rightarrow> Some (Inl p)
                  | Inr h2 \<Rightarrow>
                      checkSingle_loop model computePartial kill n headEntry 0
                        \<lparr>cs_heap = h2, cs_entry = entry, cs_linearized = newBitset n,
                         cs_cache = (\<lambda>_. []), cs_calls = [], cs_longest = replicate n None,
                         cs_seqs = [], cs_state = Init model\<rparr>))"

end
