(* ===== verification/Linearizability.thy ===== *)
theory Linearizability
  imports Checker
begin

text \<open>
  The specification the checker is measured against. A history is a list of call and return
  entries; it is linearizable when its operations can be put in a sequence that the sequential
  model accepts and that never puts an operation before one that returned before it was called.
  The second half states the facts about partial linearizations on which the backtracking search
  rests: what can be linearized next, and when a partial linearization can be completed.
\<close>

subsection \<open>Histories\<close>

definition is_call :: "nat \<Rightarrow> 'v entry \<Rightarrow> bool" where
  "is_call i e \<longleftrightarrow> e_kind e = callEntry \<and> e_id e = int i"

definition is_return :: "nat \<Rightarrow> 'v entry \<Rightarrow> bool" where
  "is_return i e \<longleftrightarrow> e_kind e = returnEntry \<and> e_id e = int i"

text \<open>A complete history of \<open>n\<close> operations: one call and one later return for each id below \<open>n\<close>.\<close>

definition complete_history :: "nat \<Rightarrow> 'v entry list \<Rightarrow> bool" where
  "complete_history n es \<longleftrightarrow>
     distinct (map (\<lambda>e. (e_kind e, e_id e)) es) \<and>
     (\<forall>e\<in>set es. 0 \<le> e_id e \<and> e_id e < int n) \<and>
     (\<forall>i<n. \<exists>us c vs r ws. es = us @ c # vs @ r # ws \<and> is_call i c \<and> is_return i r)"

text \<open>Operation \<open>i\<close> returned before operation \<open>j\<close> was called.\<close>

definition precedes :: "'v entry list \<Rightarrow> nat \<Rightarrow> nat \<Rightarrow> bool" where
  "precedes es i j \<longleftrightarrow> (\<exists>us r vs c ws. es = us @ r # vs @ c # ws \<and> is_return i r \<and> is_call j c)"

definition call_value :: "'v entry list \<Rightarrow> nat \<Rightarrow> 'v" where
  "call_value es i = e_value (hd (filter (is_call i) es))"

definition return_value :: "'v entry list \<Rightarrow> nat \<Rightarrow> 'v" where
  "return_value es i = e_value (hd (filter (is_return i) es))"

subsection \<open>Sequential executions\<close>

text \<open>One operation of the history on the sequential model, \<open>None\<close> when the model refuses it.\<close>

definition op_step :: "('v, 's) Model \<Rightarrow> 'v entry list \<Rightarrow> 's \<Rightarrow> nat \<Rightarrow> 's option" where
  "op_step model es s i =
     (case Step model s (call_value es i) (return_value es i) of
        Inr (True, s') \<Rightarrow> Some s' | _ \<Rightarrow> None)"

fun run :: "('v, 's) Model \<Rightarrow> 'v entry list \<Rightarrow> 's \<Rightarrow> nat list \<Rightarrow> 's option" where
  "run model es s [] = Some s"
| "run model es s (i # is) =
     (case op_step model es s i of None \<Rightarrow> None | Some s' \<Rightarrow> run model es s' is)"

lemma run_append:
  "run model es s (is @ js) =
     (case run model es s is of None \<Rightarrow> None | Some s' \<Rightarrow> run model es s' js)"
  by (induction "is" arbitrary: s) (auto split: option.splits)

definition linearization ::
    "('v, 's) Model \<Rightarrow> nat \<Rightarrow> 'v entry list \<Rightarrow> nat set \<Rightarrow> 's \<Rightarrow> nat list \<Rightarrow> bool" where
  "linearization model n es A s is \<longleftrightarrow>
     distinct is \<and> set is = {..<n} - A \<and> sorted_wrt (\<lambda>i j. \<not> precedes es j i) is \<and>
     run model es s is \<noteq> None"

definition completable :: "('v, 's) Model \<Rightarrow> nat \<Rightarrow> 'v entry list \<Rightarrow> nat set \<Rightarrow> 's \<Rightarrow> bool" where
  "completable model n es A s \<longleftrightarrow> (\<exists>is. linearization model n es A s is)"

definition linearizable :: "('v, 's) Model \<Rightarrow> nat \<Rightarrow> 'v entry list \<Rightarrow> bool" where
  "linearizable model n es \<longleftrightarrow> completable model n es {} (Init model)"

subsection \<open>The entries that remain\<close>

definition remaining :: "'v entry list \<Rightarrow> nat set \<Rightarrow> 'v entry list" where
  "remaining es A = filter (\<lambda>e. nat (e_id e) \<notin> A) es"

definition frontier :: "'v entry list \<Rightarrow> nat set \<Rightarrow> nat set" where
  "frontier es A = nat ` e_id ` set (takeWhile (\<lambda>e. e_kind e = callEntry) (remaining es A))"

lemma is_call_is_return: "is_call i e \<Longrightarrow> \<not> is_return j e"
  by (simp add: is_call_def is_return_def)

lemma complete_distinct: "complete_history n es \<Longrightarrow> distinct es"
  by (auto simp: complete_history_def distinct_map)

lemma entry_cases: "e_kind e = callEntry \<or> e_kind e = returnEntry"
  by (cases "e_kind e") auto

lemma complete_unique:
  assumes "complete_history n es" and "e \<in> set es" "f \<in> set es"
    and "e_kind e = e_kind f" and "e_id e = e_id f"
  shows "e = f"
  using assms by (auto simp: complete_history_def distinct_map inj_on_def)

lemma complete_call:
  assumes "complete_history n es" and "i < n"
  obtains us c vs r ws where "es = us @ c # vs @ r # ws" "is_call i c" "is_return i r"
  using assms by (auto simp: complete_history_def)

lemma complete_id_bound:
  assumes "complete_history n es" and "e \<in> set es"
  shows "nat (e_id e) < n" and "0 \<le> e_id e"
  using assms by (auto simp: complete_history_def)

lemma hd_filter_unique:
  assumes "e \<in> set es" and "P e" and "\<And>f. f \<in> set es \<Longrightarrow> P f \<Longrightarrow> f = e"
  shows "hd (filter P es) = e"
proof -
  have "e \<in> set (filter P es)" using assms(1,2) by simp
  then have "hd (filter P es) \<in> set (filter P es)" by (metis hd_in_set length_pos_if_in_set length_greater_0_conv)
  with assms(3) show ?thesis by auto
qed

lemma call_value_eq:
  assumes "complete_history n es" and "e \<in> set es" and "is_call i e"
  shows "call_value es i = e_value e"
proof -
  have "f = e" if "f \<in> set es" "is_call i f" for f
    using complete_unique [OF assms(1) that(1) assms(2)] that assms(3) by (simp add: is_call_def)
  with hd_filter_unique [OF assms(2), of "is_call i"] assms(3) show ?thesis by (simp add: call_value_def)
qed

lemma return_value_eq:
  assumes "complete_history n es" and "e \<in> set es" and "is_return i e"
  shows "return_value es i = e_value e"
proof -
  have "f = e" if "f \<in> set es" "is_return i f" for f
    using complete_unique [OF assms(1) that(1) assms(2)] that assms(3) by (simp add: is_return_def)
  with hd_filter_unique [OF assms(2), of "is_return i"] assms(3) show ?thesis by (simp add: return_value_def)
qed

lemma precedes_iff:
  assumes h: "complete_history n es" and es: "es = us @ c # ws" and c: "is_call i c"
  shows "precedes es j i \<longleftrightarrow> (\<exists>r\<in>set us. is_return j r)"
proof
  assume "precedes es j i"
  then obtain us' r vs' c' ws' where es': "es = us' @ r # vs' @ c' # ws'"
    and r: "is_return j r" and c': "is_call i c'" by (auto simp: precedes_def)
  have "c' \<in> set es" using es' by simp
  moreover have "c \<in> set es" using es by simp
  ultimately have "c' = c"
    using complete_unique [OF h, of c' c] c c' by (simp add: is_call_def)
  with es es' have eq: "us @ c # ws = (us' @ r # vs') @ c # ws'" by simp
  moreover have "distinct (us @ c # ws)" using complete_distinct [OF h] es by simp
  ultimately have "us = us' @ r # vs'"
    by (metis append_Cons_eq_iff distinct.simps(2) distinct_append not_distinct_conv_prefix)
  with r show "\<exists>r\<in>set us. is_return j r" by auto
next
  assume "\<exists>r\<in>set us. is_return j r"
  then obtain r where "r \<in> set us" and r: "is_return j r" by blast
  then obtain us1 us2 where "us = us1 @ r # us2" by (meson split_list)
  with es have "es = us1 @ r # us2 @ c # ws" by simp
  with r c show "precedes es j i" unfolding precedes_def by blast
qed

lemma not_precedes_self:
  assumes h: "complete_history n es" and i: "i < n"
  shows "\<not> precedes es i i"
proof -
  from complete_call [OF h i] obtain us c vs r ws
    where es: "es = us @ c # vs @ r # ws" and c: "is_call i c" and r: "is_return i r" .
  have "r \<notin> set us" using complete_distinct [OF h] es by auto
  moreover have "r' = r" if "r' \<in> set us" "is_return i r'" for r'
    using complete_unique [OF h, of r' r] that es r by (auto simp: is_return_def)
  ultimately show ?thesis using precedes_iff [OF h es c] by blast
qed

subsection \<open>What can be linearized next\<close>

lemma takeWhile_mem_split:
  "x \<in> set (takeWhile P (us @ x # ws)) \<longleftrightarrow> x \<in> set (takeWhile P us) \<or> (P x \<and> (\<forall>u\<in>set us. P u))"
proof (induction us)
  case Nil
  show ?case by (cases "P x") auto
next
  case (Cons u us)
  then show ?case by (cases "P u") auto
qed

lemma frontier_iff:
  assumes h: "complete_history n es"
  shows "i \<in> frontier es A \<longleftrightarrow> i < n \<and> i \<notin> A \<and> (\<forall>j<n. j \<notin> A \<longrightarrow> \<not> precedes es j i)"
    (is "?l \<longleftrightarrow> ?r")
proof (cases "i < n \<and> i \<notin> A")
  case False
  have "i < n \<and> i \<notin> A" if ?l
  proof -
    from that obtain e where e: "e \<in> set (takeWhile (\<lambda>e. e_kind e = callEntry) (remaining es A))"
      and i: "i = nat (e_id e)" by (auto simp: frontier_def)
    from e have "e \<in> set es" "nat (e_id e) \<notin> A" by (auto simp: remaining_def dest: set_takeWhileD)
    with i complete_id_bound(1) [OF h] show ?thesis by simp
  qed
  with False show ?thesis by blast
next
  case True
  then have "i < n" by simp
  from complete_call [OF h this] obtain us c vs0 r ws
    where "es = us @ c # vs0 @ r # ws" and c: "is_call i c" and "is_return i r" .
  then have es: "es = us @ c # (vs0 @ r # ws)" by simp
  have rem: "remaining es A = remaining us A @ c # remaining (vs0 @ r # ws) A"
    using True c by (simp add: es remaining_def is_call_def)
  have cu: "c \<notin> set us" using complete_distinct [OF h] es by auto
  have "?l \<longleftrightarrow> c \<in> set (takeWhile (\<lambda>e. e_kind e = callEntry) (remaining es A))"
  proof
    assume ?l
    then obtain e where e: "e \<in> set (takeWhile (\<lambda>e. e_kind e = callEntry) (remaining es A))"
      and i: "i = nat (e_id e)" by (auto simp: frontier_def)
    from e have k: "e_kind e = callEntry" and m: "e \<in> set es"
      by (auto simp: remaining_def dest: set_takeWhileD)
    have "c \<in> set es" by (simp add: es)
    moreover have "e_id e = e_id c" using complete_id_bound(2) [OF h m] i c by (simp add: is_call_def)
    ultimately have "e = c"
      using complete_unique [OF h m] k c by (simp add: is_call_def)
    with e show "c \<in> set (takeWhile (\<lambda>e. e_kind e = callEntry) (remaining es A))" by simp
  next
    assume "c \<in> set (takeWhile (\<lambda>e. e_kind e = callEntry) (remaining es A))"
    then have "nat (e_id c) \<in> frontier es A" unfolding frontier_def by blast
    with c show ?l by (simp add: is_call_def)
  qed
  also have "\<dots> \<longleftrightarrow> (\<forall>u\<in>set (remaining us A). e_kind u = callEntry)"
  proof -
    have "c \<notin> set (takeWhile (\<lambda>e. e_kind e = callEntry) (remaining us A))"
      using cu by (auto simp: remaining_def dest: set_takeWhileD)
    then show ?thesis using c unfolding rem takeWhile_mem_split by (simp add: is_call_def)
  qed
  also have "\<dots> \<longleftrightarrow> (\<forall>j<n. j \<notin> A \<longrightarrow> \<not> precedes es j i)"
  proof (intro iffI allI impI)
    fix j assume calls: "\<forall>u\<in>set (remaining us A). e_kind u = callEntry" and j: "j < n" "j \<notin> A"
    show "\<not> precedes es j i"
      unfolding precedes_iff [OF h es c] using calls j(2) by (auto simp: remaining_def is_return_def)
  next
    assume pre: "\<forall>j<n. j \<notin> A \<longrightarrow> \<not> precedes es j i"
    show "\<forall>u\<in>set (remaining us A). e_kind u = callEntry"
    proof
      fix u assume u: "u \<in> set (remaining us A)"
      then have mem: "u \<in> set us" "nat (e_id u) \<notin> A" and "u \<in> set es"
        by (auto simp: remaining_def es)
      note b = complete_id_bound [OF h \<open>u \<in> set es\<close>]
      have "\<not> precedes es (nat (e_id u)) i" using pre b(1) mem(2) by blast
      then have "\<not> is_return (nat (e_id u)) u"
        unfolding precedes_iff [OF h es c] using mem(1) by blast
      then show "e_kind u = callEntry"
        using b(2) entry_cases [of u] by (simp add: is_return_def)
    qed
  qed
  finally show ?thesis using True by blast
qed

subsection \<open>Completing a partial linearization\<close>

lemma completable_all: "{..<n} \<subseteq> A \<Longrightarrow> completable model n es A s"
  unfolding completable_def linearization_def by (intro exI [of _ "[]"]) auto

lemma completable_step:
  assumes h: "complete_history n es" and i: "i \<in> frontier es A"
    and "op_step model es s i = Some s'" and "completable model n es (insert i A) s'"
  shows "completable model n es A s"
proof -
  from assms(4) obtain js where js: "linearization model n es (insert i A) s' js"
    by (auto simp: completable_def)
  have "linearization model n es A s (i # js)"
    using js i assms(3) unfolding frontier_iff [OF h] linearization_def by auto
  then show ?thesis by (auto simp: completable_def)
qed

lemma completable_cases:
  assumes h: "complete_history n es" and "completable model n es A s"
  obtains "{..<n} \<subseteq> A"
  | i s' where "i \<in> frontier es A" "op_step model es s i = Some s'"
      "completable model n es (insert i A) s'"
proof -
  from assms(2) obtain js where js: "linearization model n es A s js" by (auto simp: completable_def)
  show thesis
  proof (cases js)
    case Nil
    with js have "{..<n} \<subseteq> A" by (auto simp: linearization_def)
    then show thesis by (rule that(1))
  next
    case (Cons i ks)
    with js have i: "i < n" "i \<notin> A" and ks: "set ks = {..<n} - insert i A" "distinct ks"
      and pre: "\<forall>j\<in>set ks. \<not> precedes es j i" "sorted_wrt (\<lambda>i j. \<not> precedes es j i) ks"
      by (auto simp: linearization_def)
    from js Cons obtain s' where s': "op_step model es s i = Some s'" "run model es s' ks \<noteq> None"
      by (auto simp: linearization_def split: option.splits)
    have "i \<in> frontier es A"
      unfolding frontier_iff [OF h] using i ks(1) pre(1) not_precedes_self [OF h i(1)] by auto
    moreover have "completable model n es (insert i A) s'"
      using ks pre(2) s'(2) by (auto simp: completable_def linearization_def)
    ultimately show thesis using s'(1) that(2) by blast
  qed
qed

end
