(* ===== verification/Node_List.thy ===== *)
theory Node_List
  imports Checker
begin

text \<open>
  The doubly linked list of \<open>porcupine/checker.go\<close>: what the heap looks like after
  \<open>makeLinkedEntries\<close>, that \<open>length\<close> of a well-formed list returns, and that \<open>lift\<close> removes a call
  and its return from the list while \<open>unlift\<close> restores the heap exactly.
\<close>

subsection \<open>Doubly linked lists on the heap\<close>

definition adjacent :: "'v heap \<Rightarrow> nat \<Rightarrow> nat \<Rightarrow> bool" where
  "adjacent h a b \<longleftrightarrow> n_next (h ! a) = Some b \<and> n_prev (h ! b) = Some a"

definition dlist :: "'v heap \<Rightarrow> nat list \<Rightarrow> bool" where
  "dlist h L \<longleftrightarrow> successively (adjacent h) L \<and> (L \<noteq> [] \<longrightarrow> n_next (h ! last L) = None) \<and>
     distinct L \<and> set L \<subseteq> {..<length h}"

lemma successively_frame:
  "successively (adjacent h) L \<Longrightarrow>
   (\<And>x. x \<in> set (butlast L) \<Longrightarrow> n_next (h' ! x) = n_next (h ! x)) \<Longrightarrow>
   (\<And>x. x \<in> set (tl L) \<Longrightarrow> n_prev (h' ! x) = n_prev (h ! x)) \<Longrightarrow>
   successively (adjacent h') L"
proof (induction L rule: induct_list012)
  case (3 x y zs)
  have "successively (adjacent h') (y # zs)"
  proof (rule "3.IH"(2))
    show "successively (adjacent h) (y # zs)" using "3.prems"(1) by simp
    show "n_next (h' ! z) = n_next (h ! z)" if "z \<in> set (butlast (y # zs))" for z
      using "3.prems"(2) [of z] that by auto
    show "n_prev (h' ! z) = n_prev (h ! z)" if "z \<in> set (tl (y # zs))" for z
      using "3.prems"(3) [of z] that by auto
  qed
  moreover have "adjacent h' x y"
    using "3.prems"(1) "3.prems"(2) [of x] "3.prems"(3) [of y] by (auto simp: adjacent_def)
  ultimately show ?case by simp
qed auto

lemma dlist_next:
  assumes "dlist h (us @ a # vs)"
  shows "n_next (h ! a) = (case vs of [] \<Rightarrow> None | b # _ \<Rightarrow> Some b)"
  using assms by (cases vs) (auto simp: dlist_def successively_append_iff adjacent_def)

lemma dlist_prev:
  assumes "dlist h (us @ a # vs)" and "us \<noteq> []"
  shows "n_prev (h ! a) = Some (last us)" and "n_next (h ! last us) = Some a"
  using assms by (auto simp: dlist_def successively_append_iff adjacent_def)

lemma dlist_bounds:
  assumes "dlist h (us @ a # vs)" and "us \<noteq> []"
  shows "last us < length h" "a < length h" "a \<noteq> last us"
proof -
  have "set us \<subseteq> {..<length h}" and "a < length h" and "a \<notin> set us"
    using assms(1) by (auto simp: dlist_def)
  then show "last us < length h" "a < length h" "a \<noteq> last us"
    using last_in_set [OF assms(2)] by auto
qed

subsection \<open>Removing one node and putting it back\<close>

definition unlink :: "'v heap \<Rightarrow> nat \<Rightarrow> 'v heap" where
  "unlink h a =
     (let p = the (n_prev (h ! a)); h1 = h[p := (h ! p)\<lparr>n_next := n_next (h ! a)\<rparr>]
      in case n_next (h ! a) of None \<Rightarrow> h1 | Some q \<Rightarrow> h1[q := (h1 ! q)\<lparr>n_prev := Some p\<rparr>])"

definition relink :: "'v heap \<Rightarrow> nat \<Rightarrow> 'v heap" where
  "relink h a =
     (let p = the (n_prev (h ! a)); h1 = h[p := (h ! p)\<lparr>n_next := Some a\<rparr>]
      in case n_next (h ! a) of None \<Rightarrow> h1 | Some q \<Rightarrow> h1[q := (h1 ! q)\<lparr>n_prev := Some a\<rparr>])"

lemma length_unlink [simp]: "length (unlink h a) = length h"
  by (simp add: unlink_def Let_def split: option.splits)

lemma unlink_frame [simp]:
  "n_id (unlink h a ! x) = n_id (h ! x)"
  "n_value (unlink h a ! x) = n_value (h ! x)"
  "n_match (unlink h a ! x) = n_match (h ! x)"
  by (auto simp: unlink_def Let_def nth_update_if split: option.splits)

lemma unlink_next:
  assumes "dlist h (us @ a # vs)" and "us \<noteq> []" and "x \<noteq> last us"
  shows "n_next (unlink h a ! x) = n_next (h ! x)"
  using assms dlist_prev [OF assms(1,2)]
  by (auto simp: unlink_def Let_def nth_update_if split: option.splits)

lemma unlink_prev:
  assumes "dlist h (us @ a # vs)" and "vs \<noteq> [] \<Longrightarrow> x \<noteq> hd vs"
  shows "n_prev (unlink h a ! x) = n_prev (h ! x)"
  using assms dlist_next [OF assms(1)]
  by (auto simp: unlink_def Let_def nth_update_if split: option.splits list.splits)

lemma unlink_next_last:
  assumes "dlist h (us @ a # vs)" and "us \<noteq> []"
  shows "n_next (unlink h a ! last us) = n_next (h ! a)"
proof -
  have "last us \<in> set us" using assms(2) by simp
  with assms(1) have "last us < length h" by (auto simp: dlist_def)
  then show ?thesis
    using dlist_prev [OF assms] by (auto simp: unlink_def Let_def nth_update_if split: option.splits)
qed

lemma unlink_prev_hd:
  assumes "dlist h (us @ a # b # vs)" and "us \<noteq> []"
  shows "n_prev (unlink h a ! b) = Some (last us)"
proof -
  have "b < length h" using assms(1) by (auto simp: dlist_def)
  then show ?thesis
    using dlist_prev [OF assms] dlist_next [OF assms(1)] by (auto simp: unlink_def Let_def nth_update_if)
qed

lemma dlist_unlink:
  assumes d: "dlist h (us @ a # vs)" and us: "us \<noteq> []"
  shows "dlist (unlink h a) (us @ vs)"
proof -
  have dist: "distinct (us @ a # vs)" and sub: "set (us @ a # vs) \<subseteq> {..<length h}"
    and suc: "successively (adjacent h) us" "successively (adjacent h) vs"
    using d by (auto simp: dlist_def successively_append_iff successively_Cons)
  have "successively (adjacent (unlink h a)) us"
  proof (rule successively_frame [OF suc(1)])
    fix x assume "x \<in> set (butlast us)"
    moreover have "last us \<notin> set (butlast us)"
      using dist us by (metis append_butlast_last_id distinct_append disjoint_iff list.set_intros(1))
    ultimately show "n_next (unlink h a ! x) = n_next (h ! x)"
      using unlink_next [OF d us] by metis
  next
    fix x assume "x \<in> set (tl us)"
    then have "x \<in> set us" using us by (meson list.set_sel(2))
    then have "vs \<noteq> [] \<Longrightarrow> x \<noteq> hd vs" using dist by (metis distinct_append disjoint_iff hd_in_set list.set_intros(2))
    then show "n_prev (unlink h a ! x) = n_prev (h ! x)" by (rule unlink_prev [OF d])
  qed
  moreover have "successively (adjacent (unlink h a)) vs"
  proof (rule successively_frame [OF suc(2)])
    fix x assume "x \<in> set (butlast vs)"
    then have "x \<in> set vs" by (rule in_set_butlastD)
    then have "x \<noteq> last us" using dist us by (metis distinct_append disjoint_iff last_in_set list.set_intros(2))
    then show "n_next (unlink h a ! x) = n_next (h ! x)" by (rule unlink_next [OF d us])
  next
    fix x assume x: "x \<in> set (tl vs)"
    have "x \<noteq> hd vs" using dist x by (cases vs) auto
    then show "n_prev (unlink h a ! x) = n_prev (h ! x)" by (rule unlink_prev [OF d])
  qed
  moreover have "adjacent (unlink h a) (last us) (hd vs)" if vs: "vs \<noteq> []"
  proof -
    from vs obtain b bs where b: "vs = b # bs" by (cases vs) auto
    show ?thesis
      using unlink_next_last [OF d us] unlink_prev_hd [OF d [unfolded b] us] dlist_next [OF d] b
      by (simp add: adjacent_def)
  qed
  moreover have "n_next (unlink h a ! last (us @ vs)) = None"
  proof (cases "vs = []")
    case True
    then show ?thesis using unlink_next_last [OF d us] dlist_next [OF d] by simp
  next
    case False
    then have "last vs \<noteq> last us" using dist us by (metis distinct_append disjoint_iff last_in_set list.set_intros(2))
    then show ?thesis using False d unlink_next [OF d us] by (auto simp: dlist_def)
  qed
  ultimately show ?thesis using dist sub by (auto simp: dlist_def successively_append_iff)
qed

lemma relink_unlink:
  assumes d: "dlist h (us @ a # vs)" and us: "us \<noteq> []"
  shows "relink (unlink h a) a = h"
proof -
  have dist: "distinct (us @ a # vs)" using d by (simp add: dlist_def)
  have "a \<noteq> last us" using dist us by auto
  then have n: "n_next (unlink h a ! a) = n_next (h ! a)" by (rule unlink_next [OF d us])
  have "vs \<noteq> [] \<Longrightarrow> a \<noteq> hd vs" using dist by auto
  then have p: "n_prev (unlink h a ! a) = Some (last us)"
    using unlink_prev [OF d] dlist_prev [OF d us] by metis
  note pr = dlist_prev [OF d us]
  show ?thesis
  proof (cases vs)
    case Nil
    with d have nx: "n_next (h ! a) = None" using dlist_next [OF d] by simp
    have "unlink h a = h[last us := (h ! last us)\<lparr>n_next := None\<rparr>]"
      using pr nx by (simp add: unlink_def Let_def)
    then show ?thesis
      using n p nx pr by (auto simp: relink_def Let_def intro!: nth_equalityI simp: nth_update_if)
  next
    case (Cons b bs)
    have nx: "n_next (h ! a) = Some b" using dlist_next [OF d] Cons by simp
    have pb: "n_prev (h ! b) = Some a" using d Cons by (auto simp: dlist_def successively_append_iff adjacent_def)
    have ne: "b \<noteq> last us" using dist us Cons by auto
    have "unlink h a = h[last us := (h ! last us)\<lparr>n_next := Some b\<rparr>, b := (h ! b)\<lparr>n_prev := Some (last us)\<rparr>]"
      using pr nx ne by (simp add: unlink_def Let_def)
    then show ?thesis
      using n p nx ne pr pb by (auto simp: relink_def Let_def intro!: nth_equalityI simp: nth_update_if)
  qed
qed

subsection \<open>Lift and unlift\<close>

lemma deref_Some [simp]: "a < length h \<Longrightarrow> deref h (Some a) = Inr (h ! a)"
  by (simp add: deref_def)

lemma set_next_Some [simp]: "a < length h \<Longrightarrow> set_next h (Some a) q = Inr (h[a := (h ! a)\<lparr>n_next := q\<rparr>])"
  by (simp add: set_next_def)

lemma set_prev_Some [simp]: "a < length h \<Longrightarrow> set_prev h (Some a) q = Inr (h[a := (h ! a)\<lparr>n_prev := q\<rparr>])"
  by (simp add: set_prev_def)

text \<open>
  The two assignments by which \<open>lift\<close> removes a node of the list, and those by which \<open>unlift\<close> puts
  it back, are \<open>unlink\<close> and \<open>relink\<close>.
\<close>

lemma unlink_code:
  assumes d: "dlist h (us @ a # vs)" and us: "us \<noteq> []"
  shows "\<exists>h1. set_next h (n_prev (h ! a)) (n_next (h ! a)) = Inr h1 \<and>
     deref h1 (Some a) = Inr (h ! a) \<and>
     (if n_next (h ! a) \<noteq> None then set_prev h1 (n_next (h ! a)) (n_prev (h ! a)) else Inr h1)
       = Inr (unlink h a)"
proof -
  note b = dlist_bounds [OF d us]
  note p = dlist_prev [OF d us]
  have "n_next (h ! a) = Some q \<Longrightarrow> q < length h" for q
    using dlist_next [OF d] d by (auto simp: dlist_def split: list.splits)
  with b p show ?thesis by (auto simp: unlink_def Let_def nth_update_if)
qed

lemma relink_code:
  assumes "n_prev (h ! a) = Some p" and "p < length h" and "a < length h" and "a \<noteq> p"
    and "\<And>q. n_next (h ! a) = Some q \<Longrightarrow> q < length h"
  shows "\<exists>h1. set_next h (n_prev (h ! a)) (Some a) = Inr h1 \<and>
     (\<exists>e. deref h1 (Some a) = Inr e \<and> n_next e = n_next (h ! a)) \<and>
     (if n_next (h ! a) \<noteq> None then set_prev h1 (n_next (h ! a)) (Some a) else Inr h1)
       = Inr (relink h a)"
  using assms by (auto simp: relink_def Let_def nth_update_if)

lemma relink_unlink_code:
  assumes d: "dlist h (us @ a # vs)" and us: "us \<noteq> []"
  shows "\<exists>h1. set_next (unlink h a) (n_prev (unlink h a ! a)) (Some a) = Inr h1 \<and>
     (\<exists>e. deref h1 (Some a) = Inr e \<and> n_next e = n_next (h ! a)) \<and>
     (if n_next (h ! a) \<noteq> None then set_prev h1 (n_next (h ! a)) (Some a) else Inr h1) = Inr h"
proof -
  note b = dlist_bounds [OF d us]
  have n: "n_next (unlink h a ! a) = n_next (h ! a)" by (rule unlink_next [OF d us b(3)])
  have "vs \<noteq> [] \<Longrightarrow> a \<noteq> hd vs" using d by (auto simp: dlist_def)
  then have p: "n_prev (unlink h a ! a) = Some (last us)"
    using unlink_prev [OF d] dlist_prev [OF d us] by metis
  have q: "n_next (h ! a) = Some q \<Longrightarrow> q < length h" for q
    using dlist_next [OF d] d by (auto simp: dlist_def split: list.splits)
  show ?thesis
    using relink_code [of "unlink h a" a "last us"] b n p q relink_unlink [OF d us]
    by (auto split: if_splits)
qed

lemma lift_correct:
  assumes d: "dlist h (us @ c # vs @ r # ws)" and us: "us \<noteq> []" and m: "n_match (h ! c) = Some r"
  shows "lift h (Some c) = Inr (unlink (unlink h c) r)"
    and "dlist (unlink (unlink h c) r) (us @ vs @ ws)"
    and "unlift (unlink (unlink h c) r) (Some c) = Inr h"
proof -
  let ?h1 = "unlink h c"
  have d1: "dlist ?h1 ((us @ vs) @ r # ws)" using dlist_unlink [OF d us] by simp
  have us1: "us @ vs \<noteq> []" using us by simp
  show "dlist (unlink ?h1 r) (us @ vs @ ws)" using dlist_unlink [OF d1 us1] by simp
  have c: "c < length h" and r: "r < length h" and cr: "c \<noteq> r" using d by (auto simp: dlist_def)
  have nx: "n_next (h ! c) \<noteq> None" using dlist_next [OF d] by (simp split: list.splits)
  from unlink_code [OF d us] nx obtain g where g: "set_next h (n_prev (h ! c)) (n_next (h ! c)) = Inr g"
    "deref g (Some c) = Inr (h ! c)" "set_prev g (n_next (h ! c)) (n_prev (h ! c)) = Inr ?h1" by auto
  from unlink_code [OF d1 us1] obtain g' where g': "set_next ?h1 (n_prev (?h1 ! r)) (n_next (?h1 ! r)) = Inr g'"
    "deref g' (Some r) = Inr (?h1 ! r)"
    "(if n_next (?h1 ! r) \<noteq> None then set_prev g' (n_next (?h1 ! r)) (n_prev (?h1 ! r)) else Inr g')
       = Inr (unlink ?h1 r)" by auto
  show "lift h (Some c) = Inr (unlink ?h1 r)"
    using c r m g g' by (simp add: lift_def Let_def)
  let ?h2 = "unlink ?h1 r"
  from relink_unlink_code [OF d1 us1] obtain k e where k: "set_next ?h2 (n_prev (?h2 ! r)) (Some r) = Inr k"
    "deref k (Some r) = Inr e" "n_next e = n_next (?h1 ! r)"
    "(if n_next (?h1 ! r) \<noteq> None then set_prev k (n_next (?h1 ! r)) (Some r) else Inr k) = Inr ?h1" by auto
  from relink_unlink_code [OF d us] nx obtain k' e' where k': "set_next ?h1 (n_prev (?h1 ! c)) (Some c) = Inr k'"
    "deref k' (Some c) = Inr e'" "n_next e' = n_next (h ! c)"
    "set_prev k' (n_next (h ! c)) (Some c) = Inr h" by auto
  show "unlift ?h2 (Some c) = Inr h"
    using c r m k k' by (auto simp: unlift_def Let_def split: if_splits)
qed

subsection \<open>The list built from a history\<close>

text \<open>
  The heap \<open>makeLinkedEntries\<close> builds, by recursion on the history: the node of an entry is
  allocated after those of all later entries. The map gives the return node of an id.
\<close>

fun built :: "'v entry list \<Rightarrow> 'v heap \<times> (int \<rightharpoonup> nat)" where
  "built [] = ([], Map.empty)"
| "built (e # es) =
     (let (h, match) = built es; a = length h;
          h' = (if es = [] then h else h[a - 1 := (h ! (a - 1))\<lparr>n_prev := Some a\<rparr>]);
          nx = (if es = [] then None else Some (a - 1))
      in if e_kind e = returnEntry
         then (h' @ [\<lparr>n_value = Some (e_value e), n_match = None, n_id = e_id e, n_next = nx, n_prev = None\<rparr>],
               match(e_id e \<mapsto> a))
         else (h' @ [\<lparr>n_value = Some (e_value e), n_match = match (e_id e), n_id = e_id e, n_next = nx, n_prev = None\<rparr>],
               match))"

lemma length_built [simp]: "length (fst (built es)) = length es"
  by (induction es) (auto simp: Let_def split: prod.splits)

lemma built_prev_last: "es \<noteq> [] \<Longrightarrow> n_prev (fst (built es) ! (length es - 1)) = None"
proof (cases es)
  case (Cons e es')
  obtain h match where b: "built es' = (h, match)" by (cases "built es'")
  then have "length h = length es'" using length_built [of es'] by simp
  then show ?thesis by (simp add: Cons b Let_def nth_append)
qed simp

definition root_of :: "'v entry list \<Rightarrow> nat option" where
  "root_of es = (if es = [] then None else Some (length es - 1))"

lemma makeLinkedEntries_built:
  "go_fold linkEntry (rev es) ([], None, Map.empty) = Inr (fst (built es), root_of es, snd (built es))"
proof (induction es)
  case Nil
  then show ?case by (simp add: root_of_def)
next
  case (Cons e es)
  obtain h match where b: "built es = (h, match)" by (cases "built es")
  have len: "length h = length es" using length_built [of es] b by simp
  have pl: "es \<noteq> [] \<Longrightarrow> n_prev (h ! (length es - 1)) = None" using built_prev_last [of es] b by simp
  show ?case
    using Cons len pl b
    by (cases "es = []")
      (auto simp: linkEntry_def Let_def insertBefore_def root_of_def nth_append list_update_append)
qed

lemma makeLinkedEntries_eq: "makeLinkedEntries es = Inr (fst (built es), root_of es)"
  by (simp add: makeLinkedEntries_def makeLinkedEntries_built)

text \<open>The node at address \<open>a\<close> belongs to the entry at position \<open>length es - 1 - a\<close>.\<close>

definition entry_at :: "'v entry list \<Rightarrow> nat \<Rightarrow> 'v entry" where
  "entry_at es a = rev es ! a"

lemma entry_at_Cons_less: "a < length es \<Longrightarrow> entry_at (e # es) a = entry_at es a"
  by (simp add: entry_at_def nth_append)

lemma entry_at_Cons_length [simp]: "entry_at (e # es) (length es) = e"
  by (simp add: entry_at_def nth_append)

lemma map_entry_at: "map (entry_at es) (rev [0..<length es]) = es"
  by (rule nth_equalityI) (auto simp: entry_at_def rev_nth)

lemma built_node:
  "a < length es \<Longrightarrow>
     n_id (fst (built es) ! a) = e_id (entry_at es a) \<and>
     n_value (fst (built es) ! a) = Some (e_value (entry_at es a)) \<and>
     n_next (fst (built es) ! a) = (if a = 0 then None else Some (a - 1)) \<and>
     n_prev (fst (built es) ! a) = (if Suc a = length es then None else Some (Suc a))"
proof (induction es)
  case (Cons e es)
  obtain h match where b: "built es = (h, match)" by (cases "built es")
  have len: "length h = length es" using length_built [of es] b by simp
  show ?case
  proof (cases "a = length es")
    case True
    then show ?thesis by (auto simp: b len Let_def nth_append)
  next
    case False
    with Cons.prems have a: "a < length es" by simp
    then have "es \<noteq> []" and "h \<noteq> []" using len by auto
    then show ?thesis
      using Cons.IH [OF a] a len
      by (auto simp: b Let_def nth_append nth_update_if entry_at_Cons_less simp del: length_0_conv)
  qed
qed simp

lemma built_match_map:
  "snd (built es) i = Some r \<longleftrightarrow>
     r < length es \<and> e_kind (entry_at es r) = returnEntry \<and> e_id (entry_at es r) = i \<and>
     (\<forall>r'. r < r' \<and> r' < length es \<longrightarrow> \<not> (e_kind (entry_at es r') = returnEntry \<and> e_id (entry_at es r') = i))"
proof (induction es)
  case (Cons e es)
  obtain h match where b: "built es = (h, match)" by (cases "built es")
  have len: "length h = length es" using length_built [of es] b by simp
  have less: "(\<forall>r'. r < r' \<and> r' < length (e # es) \<longrightarrow> P (entry_at (e # es) r')) \<longleftrightarrow>
      (\<forall>r'. r < r' \<and> r' < length es \<longrightarrow> P (entry_at es r')) \<and> (r < length es \<longrightarrow> P e)" for P
    by (auto simp: entry_at_Cons_less less_Suc_eq)
  show ?case
  proof (cases "e_kind e = returnEntry \<and> e_id e = i")
    case True
    then have "snd (built (e # es)) i = Some (length es)" by (simp add: b len Let_def)
    then show ?thesis
      using True unfolding less by (auto simp: less_Suc_eq entry_at_Cons_less)
  next
    case False
    then have "snd (built (e # es)) i = snd (built es) i" by (auto simp: b len Let_def)
    then show ?thesis
      using False Cons.IH unfolding less by (auto simp: less_Suc_eq entry_at_Cons_less)
  qed
qed simp

lemma built_match:
  "a < length es \<Longrightarrow>
     n_match (fst (built es) ! a) =
       (if e_kind (entry_at es a) = returnEntry then None
        else snd (built (drop (length es - a) es)) (e_id (entry_at es a)))"
proof (induction es)
  case (Cons e es)
  obtain h match where b: "built es = (h, match)" by (cases "built es")
  have len: "length h = length es" using length_built [of es] b by simp
  show ?case
  proof (cases "a = length es")
    case True
    then show ?thesis by (auto simp: b len Let_def nth_append)
  next
    case False
    with Cons.prems have a: "a < length es" by simp
    then have "drop (length (e # es) - a) (e # es) = drop (length es - a) es"
      by (simp add: Suc_diff_le)
    then show ?thesis
      using Cons.IH [OF a] a len by (auto simp: b Let_def nth_append nth_update_if entry_at_Cons_less)
  qed
qed simp

text \<open>
  In a history where the return of an operation comes after its call, the call's node points to
  the return's node.
\<close>

lemma built_match_return:
  assumes r: "r < a" and a: "a < length es" and call: "e_kind (entry_at es a) = callEntry"
    and ret: "e_kind (entry_at es r) = returnEntry" and id: "e_id (entry_at es r) = e_id (entry_at es a)"
    and uniq: "\<And>r'. r' < length es \<Longrightarrow> e_kind (entry_at es r') = returnEntry \<Longrightarrow>
                 e_id (entry_at es r') = e_id (entry_at es a) \<Longrightarrow> r' = r"
  shows "n_match (fst (built es) ! a) = Some r"
proof -
  let ?ds = "drop (length es - a) es"
  have at: "entry_at ?ds x = entry_at es x" if "x < a" for x
    using that a by (simp add: entry_at_def rev_drop)
  have "snd (built ?ds) (e_id (entry_at es a)) = Some r"
    unfolding built_match_map
  proof (intro conjI allI impI)
    show "r < length ?ds" using r a by simp
    show "e_kind (entry_at ?ds r) = returnEntry" using at [OF r] ret by simp
    show "e_id (entry_at ?ds r) = e_id (entry_at es a)" using at [OF r] id by simp
    fix r' assume "r < r' \<and> r' < length ?ds"
    then have "r' < a" "r' < length es" "r' \<noteq> r" using a by auto
    then show "\<not> (e_kind (entry_at ?ds r') = returnEntry \<and> e_id (entry_at ?ds r') = e_id (entry_at es a))"
      using uniq [of r'] at [of r'] by auto
  qed
  then show ?thesis using built_match [OF a] call by simp
qed

subsection \<open>Lists reachable from a root\<close>

lemma dlist_tail: "dlist h (x # L) \<Longrightarrow> dlist h L"
  by (cases L) (auto simp: dlist_def)

definition first_of :: "nat list \<Rightarrow> nat option" where
  "first_of L = (case L of [] \<Rightarrow> None | a # _ \<Rightarrow> Some a)"

lemma dlist_head_next: "dlist h (a # L) \<Longrightarrow> n_next (h ! a) = first_of L"
  using dlist_next [of h "[]" a L] by (simp add: first_of_def)

lemma dlist_mid_next: "dlist h (us @ a # L) \<Longrightarrow> n_next (h ! a) = first_of L"
  using dlist_next [of h us a L] by (simp add: first_of_def)

lemma node_length_dlist: "dlist h L \<Longrightarrow> node_length h (first_of L) l = Some (Inr (l + length L))"
proof (induction L arbitrary: l)
  case Nil
  then show ?case by (simp add: node_length.simps first_of_def)
next
  case (Cons a L)
  then have "a < length h" by (simp add: dlist_def)
  with Cons.IH [OF dlist_tail [OF Cons.prems]] dlist_head_next [OF Cons.prems] show ?case
    by (subst node_length.simps) (simp add: first_of_def)
qed

lemma dlist_downto:
  assumes "n \<le> length h"
    and "\<And>a. a < n \<Longrightarrow> n_next (h ! a) = (if a = 0 then None else Some (a - 1))"
    and "\<And>a. Suc a < n \<Longrightarrow> n_prev (h ! a) = Some (Suc a)"
  shows "dlist h (rev [0..<n])"
  using assms
proof (induction n)
  case (Suc n)
  then have d: "dlist h (rev [0..<n])" by simp
  show ?case
  proof (cases n)
    case 0
    with Suc.prems(1) have "0 < length h" by linarith
    with 0 Suc.prems(2) [of 0] show ?thesis by (simp add: dlist_def)
  next
    case (Suc k)
    then have "adjacent h n k" using Suc.prems(2) [of n] Suc.prems(3) [of k] by (simp add: adjacent_def)
    then show ?thesis using d Suc Suc.prems(1) by (auto simp: dlist_def)
  qed
qed (simp add: dlist_def)

lemma root_of_first: "root_of es = first_of (rev [0..<length es])"
proof (cases es rule: rev_cases)
  case (snoc ys y)
  then show ?thesis by (simp add: root_of_def first_of_def)
qed (simp add: root_of_def first_of_def)

lemma dlist_built: "dlist (fst (built es)) (rev [0..<length es])"
  using built_node [of _ es] by (intro dlist_downto) auto

text \<open>The heap on which the search starts: the nodes of the history and the head node.\<close>

definition search_heap :: "'v entry list \<Rightarrow> 'v heap" where
  "search_heap es =
     (let m = length es; h = fst (built es)
      in (if es = [] then h else h[m - 1 := (h ! (m - 1))\<lparr>n_prev := Some m\<rparr>])
         @ [\<lparr>n_value = None, n_match = None, n_id = -1, n_next = root_of es, n_prev = None\<rparr>])"

lemma length_search_heap [simp]: "length (search_heap es) = Suc (length es)"
  by (simp add: search_heap_def Let_def)

lemma insertBefore_head:
  "insertBefore (fst (built es) @ [\<lparr>n_value = None, n_match = None, n_id = -1, n_next = None, n_prev = None\<rparr>])
     (Some (length es)) (root_of es) = Inr (search_heap es)"
  using built_prev_last [of es]
  by (auto simp: insertBefore_def root_of_def search_heap_def Let_def nth_append list_update_append)

lemma search_heap_node:
  assumes "a < length es"
  shows "n_id (search_heap es ! a) = e_id (entry_at es a)"
    and "n_value (search_heap es ! a) = Some (e_value (entry_at es a))"
    and "n_match (search_heap es ! a) = n_match (fst (built es) ! a)"
    and "n_next (search_heap es ! a) = (if a = 0 then None else Some (a - 1))"
    and "n_prev (search_heap es ! a) = Some (Suc a)"
proof -
  have ne: "es \<noteq> []" using assms by auto
  note b = built_node [OF assms]
  show "n_id (search_heap es ! a) = e_id (entry_at es a)"
    and "n_value (search_heap es ! a) = Some (e_value (entry_at es a))"
    and "n_match (search_heap es ! a) = n_match (fst (built es) ! a)"
    using b ne assms by (auto simp: search_heap_def Let_def nth_append nth_update_if)
  have "n_next (search_heap es ! a) = n_next (fst (built es) ! a)"
    using ne assms by (auto simp: search_heap_def Let_def nth_append nth_update_if)
  then show "n_next (search_heap es ! a) = (if a = 0 then None else Some (a - 1))" using b by simp
  show "n_prev (search_heap es ! a) = Some (Suc a)"
    using b ne assms by (auto simp: search_heap_def Let_def nth_append nth_update_if)
qed

lemma search_heap_head:
  "n_next (search_heap es ! length es) = root_of es" "n_match (search_heap es ! length es) = None"
  by (auto simp: search_heap_def Let_def nth_append)

lemma dlist_search_heap: "dlist (search_heap es) (length es # rev [0..<length es])"
proof -
  have "dlist (search_heap es) (rev [0..<Suc (length es)])"
    using search_heap_node [of _ es] search_heap_head [of es]
    by (intro dlist_downto) (auto simp: less_Suc_eq root_of_def)
  then show ?thesis by simp
qed

lemma checkSingle_start:
  "checkSingle model es computePartial kill =
     checkSingle_loop model computePartial kill (length es div 2) (length es) 0
       \<lparr>cs_heap = search_heap es, cs_entry = root_of es, cs_linearized = newBitset (length es div 2),
        cs_cache = (\<lambda>_. []), cs_calls = [], cs_longest = replicate (length es div 2) None,
        cs_seqs = [], cs_state = Init model\<rparr>"
  using node_length_dlist [OF dlist_built, of es 0] insertBefore_head [of es]
  by (simp add: checkSingle_def makeLinkedEntries_eq root_of_first Let_def)

subsection \<open>Properties\<close>

text \<open>
  C28. Lifting an operation out of the list and unlifting it again: when the list holds a call
  entry \<open>c\<close> behind the head and its return entry \<open>r\<close> later, \<open>lift\<close> does not panic, leaves the list
  without \<open>c\<close> and \<open>r\<close> and with the order of the others, and \<open>unlift\<close> then restores every link of
  the heap exactly.
\<close>

theorem lift_unlift_restore:
  assumes "dlist h (us @ c # vs @ r # ws)" and "us \<noteq> []" and "n_match (h ! c) = Some r"
  shows "\<exists>h'. lift h (Some c) = Inr h' \<and> dlist h' (us @ vs @ ws) \<and> unlift h' (Some c) = Inr h"
  using lift_correct [OF assms] by blast

text \<open>The history of one operation: a call entry and a return entry.\<close>

definition one_operation :: "int entry list" where
  "one_operation = [mk_entry callEntry 7 0 1 0, mk_entry returnEntry 8 0 2 0]"

theorem lift_unlift_restore_witness:
  "\<exists>h'. lift (search_heap one_operation) (Some 1) = Inr h' \<and> dlist h' [2] \<and>
     unlift h' (Some 1) = Inr (search_heap one_operation)"
proof -
  have "rev [0..<length one_operation] = [1, 0]" by (simp add: one_operation_def upt_rec)
  then have "dlist (search_heap one_operation) ([2] @ 1 # [] @ 0 # [])"
    using dlist_search_heap [of one_operation] by (simp add: one_operation_def numeral_2_eq_2)
  moreover have "n_match (search_heap one_operation ! 1) = Some 0"
    by (simp add: search_heap_def one_operation_def mk_entry_def Let_def)
  ultimately show ?thesis using lift_unlift_restore [of _ "[2]" 1 "[]" 0 "[]"] by simp
qed

text \<open>
  Building the linked list never panics, for any list of entries, and the list has one node
  per entry: \<open>length\<close> of its root returns the number of entries.
\<close>

lemma makeLinkedEntries_length:
  "\<exists>h root. makeLinkedEntries es = Inr (h, root) \<and> node_length h root 0 = Some (Inr (length es))"
  using node_length_dlist [OF dlist_built, of es 0] by (simp add: makeLinkedEntries_eq root_of_first)

end
