(* ===== verification/Search_Space.thy ===== *)
theory Search_Space
  imports Linearizability Node_List
begin

text \<open>
  The search of \<open>checkSingle\<close> seen from its specification: which nodes are in the list after some
  operations were lifted, what the stack of calls and the cache mean, and the measure by which
  every iteration brings the search closer to its end.
\<close>

subsection \<open>Nodes of a complete history\<close>

abbreviation is_call_at :: "'v entry list \<Rightarrow> nat \<Rightarrow> bool" where
  "is_call_at es a \<equiv> e_kind (entry_at es a) = callEntry"

definition opid :: "'v entry list \<Rightarrow> nat \<Rightarrow> nat" where
  "opid es a = nat (e_id (entry_at es a))"

definition addrs :: "'v entry list \<Rightarrow> nat set \<Rightarrow> nat list" where
  "addrs es A = filter (\<lambda>a. opid es a \<notin> A) (rev [0..<length es])"

lemma map_addrs: "map (entry_at es) (addrs es A) = remaining es A"
proof -
  have "remaining es A = filter (\<lambda>e. nat (e_id e) \<notin> A) (map (entry_at es) (rev [0..<length es]))"
    by (simp only: map_entry_at remaining_def)
  then show ?thesis by (simp add: addrs_def opid_def filter_map comp_def)
qed

lemma addrs_mem: "a \<in> set (addrs es A) \<longleftrightarrow> a < length es \<and> opid es a \<notin> A"
  by (auto simp: addrs_def)

lemma distinct_addrs [simp]: "distinct (addrs es A)"
  by (simp add: addrs_def)

lemma length_addrs: "length (addrs es A) \<le> length es"
  using length_filter_le [of "\<lambda>a. opid es a \<notin> A" "rev [0..<length es]"] by (simp add: addrs_def)

lemma entry_at_mem: "a < length es \<Longrightarrow> entry_at es a \<in> set es"
  unfolding entry_at_def by (metis length_rev nth_mem set_rev)

lemma entry_at_inj:
  assumes "complete_history n es" and "a < length es" "b < length es"
    and "e_kind (entry_at es a) = e_kind (entry_at es b)" and "e_id (entry_at es a) = e_id (entry_at es b)"
  shows "a = b"
proof -
  have "entry_at es a = entry_at es b"
    using complete_unique [OF assms(1) entry_at_mem [OF assms(2)] entry_at_mem [OF assms(3)]] assms(4,5) .
  moreover have "distinct (rev es)" using complete_distinct [OF assms(1)] by simp
  ultimately show ?thesis using assms(2,3) by (simp add: entry_at_def nth_eq_iff_index_eq)
qed

lemma opid_bound: "complete_history n es \<Longrightarrow> a < length es \<Longrightarrow> opid es a < n"
  using complete_id_bound(1) [OF _ entry_at_mem] by (simp add: opid_def)

lemma opid_id: "complete_history n es \<Longrightarrow> a < length es \<Longrightarrow> e_id (entry_at es a) = int (opid es a)"
  using complete_id_bound(2) [OF _ entry_at_mem] by (simp add: opid_def)

lemma opid_inj:
  assumes "complete_history n es" and "a < length es" "b < length es"
    and "e_kind (entry_at es a) = e_kind (entry_at es b)" and "opid es a = opid es b"
  shows "a = b"
  using entry_at_inj [OF assms(1-4)] opid_id [OF assms(1)] assms(2,3,5) by simp

text \<open>The return of a call is at a smaller address, and the call's node points to it.\<close>

lemma entry_at_append: "entry_at (us @ e # vs) (length vs) = e"
  by (simp add: entry_at_def nth_append)

lemma return_of_call:
  assumes h: "complete_history n es" and c: "c < length es" "is_call_at es c"
  obtains r where "r < c" "e_kind (entry_at es r) = returnEntry" "opid es r = opid es c"
    "n_match (search_heap es ! c) = Some r"
proof -
  note b = opid_bound [OF h c(1)]
  from complete_call [OF h b] obtain us ce vs re ws where es: "es = us @ ce # vs @ re # ws"
    and ce: "is_call (opid es c) ce" and re: "is_return (opid es c) re" .
  let ?r = "length ws" and ?c = "length (vs @ re # ws)"
  have atc: "entry_at es ?c = ce" unfolding es by (rule entry_at_append)
  have atr: "entry_at es ?r = re" unfolding es using entry_at_append [of "us @ ce # vs" re ws] by simp
  have "?c = c"
  proof (rule entry_at_inj [OF h])
    show "?c < length es" unfolding es by simp
    show "e_kind (entry_at es ?c) = e_kind (entry_at es c)" "e_id (entry_at es ?c) = e_id (entry_at es c)"
      unfolding atc using ce c opid_id [OF h c(1)] by (simp_all add: is_call_def)
  qed (rule c(1))
  then have rc: "?r < c" by auto
  have rid: "e_id (entry_at es ?r) = e_id (entry_at es c)"
    unfolding atr using re opid_id [OF h c(1)] by (simp add: is_return_def)
  have rk: "e_kind (entry_at es ?r) = returnEntry" unfolding atr using re by (simp add: is_return_def)
  have "n_match (fst (built es) ! c) = Some ?r"
  proof (rule built_match_return [OF rc c(1) c(2) rk rid])
    fix r' assume "r' < length es" "e_kind (entry_at es r') = returnEntry"
      "e_id (entry_at es r') = e_id (entry_at es c)"
    then show "r' = ?r" using entry_at_inj [OF h, of r' ?r] rc c(1) rk rid by simp
  qed
  then show thesis
    using that [OF rc rk] rid search_heap_node(3) [OF c(1)] by (simp add: opid_def)
qed

lemma match_return:
  assumes "complete_history n es" and "a < length es" and "e_kind (entry_at es a) = returnEntry"
  shows "n_match (search_heap es ! a) = None"
  using assms built_match [of a es] search_heap_node(3) [of a es] by simp

lemma downto_split:
  assumes "r < c" and "c < m"
  shows "rev [0..<m] = rev [Suc c..<m] @ c # rev [Suc r..<c] @ r # rev [0..<r]"
proof -
  have "[0..<m] = [0..<c] @ [c..<m]" using upt_add_eq_append [of 0 c "m - c"] assms(2) by simp
  moreover have "[0..<c] = [0..<r] @ [r..<c]" using upt_add_eq_append [of 0 r "c - r"] assms(1) by simp
  ultimately show ?thesis
    using assms upt_conv_Cons [of c m] upt_conv_Cons [of r c] by simp
qed

lemma addrs_split:
  assumes h: "complete_history n es" and c: "c \<in> set (addrs es A)" "is_call_at es c"
  obtains us vs r ws where "addrs es A = us @ c # vs @ r # ws"
    "addrs es (insert (opid es c) A) = us @ vs @ ws" "n_match (search_heap es ! c) = Some r"
    "e_kind (entry_at es r) = returnEntry"
proof -
  have m: "c < length es" "opid es c \<notin> A" using c(1) by (auto simp: addrs_mem)
  from return_of_call [OF h m(1) c(2)] obtain r where r: "r < c" "e_kind (entry_at es r) = returnEntry"
    "opid es r = opid es c" "n_match (search_heap es ! c) = Some r" .
  let ?F = "\<lambda>xs. filter (\<lambda>a. opid es a \<notin> A) xs"
  have other: "filter (\<lambda>a. opid es a \<notin> insert (opid es c) A) xs = ?F xs"
    if "c \<notin> set xs" "r \<notin> set xs" "set xs \<subseteq> {..<length es}" for xs
  proof (rule filter_cong [OF refl])
    fix a assume a: "a \<in> set xs"
    then have "a < length es" "a \<noteq> c" "a \<noteq> r" using that by auto
    then have "opid es a \<noteq> opid es c"
      using opid_inj [OF h, of a c] opid_inj [OF h, of a r] r c(2) m(1) entry_cases [of "entry_at es a"] by auto
    then show "(opid es a \<notin> insert (opid es c) A) = (opid es a \<notin> A)" by simp
  qed
  note sp = downto_split [OF r(1) m(1)]
  have "addrs es A = ?F (rev [Suc c..<length es]) @ c # ?F (rev [Suc r..<c]) @ r # ?F (rev [0..<r])"
    using m(2) r(3) by (simp add: addrs_def sp)
  moreover have "addrs es (insert (opid es c) A) =
      ?F (rev [Suc c..<length es]) @ ?F (rev [Suc r..<c]) @ ?F (rev [0..<r])"
    using r(1,3) m(1) other [of "rev [Suc c..<length es]"] other [of "rev [Suc r..<c]"] other [of "rev [0..<r]"]
    by (simp add: addrs_def sp subset_iff)
  ultimately show thesis using that r(2,4) by blast
qed

subsection \<open>The heap after some calls were lifted\<close>

fun lifted :: "'v entry list \<Rightarrow> nat list \<Rightarrow> 'v heap \<Rightarrow> bool" where
  "lifted es [] h \<longleftrightarrow> h = search_heap es"
| "lifted es (c # cs) h \<longleftrightarrow> (\<exists>h'. lifted es cs h' \<and> lift h' (Some c) = Inr h)"

definition same_nodes :: "'v heap \<Rightarrow> 'v heap \<Rightarrow> bool" where
  "same_nodes h h' \<longleftrightarrow> length h = length h' \<and>
     (\<forall>a. n_id (h ! a) = n_id (h' ! a) \<and> n_value (h ! a) = n_value (h' ! a) \<and> n_match (h ! a) = n_match (h' ! a))"

fun calls_ok :: "'v entry list \<Rightarrow> nat list \<Rightarrow> bool" where
  "calls_ok es [] \<longleftrightarrow> True"
| "calls_ok es (c # cs) \<longleftrightarrow> c \<in> set (addrs es (opid es ` set cs)) \<and> is_call_at es c \<and> calls_ok es cs"

lemma lift_call:
  assumes hist: "complete_history n es" and c: "c \<in> set (addrs es A)" "is_call_at es c"
    and d: "dlist h (length es # addrs es A)" and same: "same_nodes h (search_heap es)"
  shows "\<exists>h'. lift h (Some c) = Inr h' \<and> dlist h' (length es # addrs es (insert (opid es c) A)) \<and>
     same_nodes h' (search_heap es) \<and> unlift h' (Some c) = Inr h"
proof -
  from addrs_split [OF hist c] obtain us vs r ws where sp: "addrs es A = us @ c # vs @ r # ws"
    "addrs es (insert (opid es c) A) = us @ vs @ ws" "n_match (search_heap es ! c) = Some r" .
  have d': "dlist h ((length es # us) @ c # vs @ r # ws)" using d sp(1) by simp
  have m: "n_match (h ! c) = Some r" using same sp(3) by (simp add: same_nodes_def)
  note L = lift_correct [OF d' _ m]
  show ?thesis
    using L sp(2) same by (intro exI [of _ "unlink (unlink h c) r"]) (simp add: same_nodes_def)
qed

lemma lifted_dlist:
  assumes hist: "complete_history n es"
  shows "lifted es cs h \<Longrightarrow> calls_ok es cs \<Longrightarrow>
     dlist h (length es # addrs es (opid es ` set cs)) \<and> same_nodes h (search_heap es)"
proof (induction cs arbitrary: h)
  case Nil
  have "addrs es {} = rev [0..<length es]" by (simp add: addrs_def)
  with Nil show ?case using dlist_search_heap [of es] by (simp add: same_nodes_def)
next
  case (Cons c cs)
  then obtain h' where h': "lifted es cs h'" "lift h' (Some c) = Inr h" by auto
  from Cons.IH [OF h'(1)] Cons.prems(2)
  have d: "dlist h' (length es # addrs es (opid es ` set cs))" "same_nodes h' (search_heap es)" by auto
  from lift_call [OF hist _ _ d, of c] Cons.prems(2) h'(2) show ?case by auto
qed

end
