(* ===== verification/Checker_Correct.thy ===== *)
theory Checker_Correct
  imports Search_Space
begin

text \<open>
  Correctness of \<open>checkSingle\<close>: on a complete history the search returns, it never panics, its
  answer is whether the history is linearizable, and the prefixes it records are partial
  linearizations. The invariant ties the heap, the stack of calls, the bit set and the cache to
  the specification of the previous theories.
\<close>

subsection \<open>What the stack and the cache mean\<close>

definition lin_ids :: "'v entry list \<Rightarrow> (nat \<times> 's) list \<Rightarrow> nat set" where
  "lin_ids es cs = opid es ` set (map fst cs)"

definition dead :: "('v, 's) Model \<Rightarrow> nat \<Rightarrow> 'v entry list \<Rightarrow> nat set \<Rightarrow> 's \<Rightarrow> nat \<Rightarrow> bool" where
  "dead model n es A s a \<longleftrightarrow>
     (\<forall>s'. op_step model es s (opid es a) = Some s' \<longrightarrow>
        \<not> completable model n es (insert (opid es a) A) s')"

definition tried :: "('v, 's) Model \<Rightarrow> nat \<Rightarrow> 'v entry list \<Rightarrow> nat set \<Rightarrow> 's \<Rightarrow> nat list \<Rightarrow> bool" where
  "tried model n es A s us \<longleftrightarrow> (\<forall>a\<in>set us. is_call_at es a \<and> dead model n es A s a)"

fun stack_ok :: "('v, 's) Model \<Rightarrow> nat \<Rightarrow> 'v entry list \<Rightarrow> (nat \<times> 's) list \<Rightarrow> 's \<Rightarrow> bool" where
  "stack_ok model n es [] s \<longleftrightarrow> s = Init model"
| "stack_ok model n es ((c, s0) # cs) s \<longleftrightarrow>
     (\<exists>us ws. addrs es (lin_ids es cs) = us @ c # ws \<and> tried model n es (lin_ids es cs) s0 us) \<and>
     is_call_at es c \<and> op_step model es s0 (opid es c) = Some s \<and> stack_ok model n es cs s0"

fun configs :: "'v entry list \<Rightarrow> (nat \<times> 's) list \<Rightarrow> 's \<Rightarrow> (nat set \<times> 's) set" where
  "configs es [] s = {}"
| "configs es ((c, s0) # cs) s = insert (lin_ids es ((c, s0) # cs), s) (configs es cs s0)"

definition cache_ok ::
    "('v, 's) Model \<Rightarrow> nat \<Rightarrow> 'v entry list \<Rightarrow> (nat set \<times> 's) set \<Rightarrow> 's cache \<Rightarrow> bool" where
  "cache_ok model n es C cache \<longleftrightarrow>
     (\<forall>k. \<forall>ce\<in>set (cache k). holds_bitset n (ce_linearized ce) \<and>
        ((members (ce_linearized ce), ce_state ce) \<in> C \<or>
         \<not> completable model n es (members (ce_linearized ce)) (ce_state ce)))"

definition partial_linearization ::
    "('v, 's) Model \<Rightarrow> nat \<Rightarrow> 'v entry list \<Rightarrow> nat list \<Rightarrow> bool" where
  "partial_linearization model n es is \<longleftrightarrow>
     distinct is \<and> set is \<subseteq> {..<n} \<and> sorted_wrt (\<lambda>i j. \<not> precedes es j i) is \<and>
     (\<forall>i\<in>set is. \<forall>j<n. precedes es j i \<longrightarrow> j \<in> set is) \<and> run model es (Init model) is \<noteq> None"

definition longest_ok ::
    "('v, 's) Model \<Rightarrow> nat \<Rightarrow> 'v entry list \<Rightarrow> nat option list \<Rightarrow> int list list \<Rightarrow> bool" where
  "longest_ok model n es longest seqs \<longleftrightarrow>
     length longest = n \<and>
     (\<forall>i<n. \<forall>q. longest ! i = Some q \<longrightarrow>
        q < length seqs \<and> (\<exists>is. seqs ! q = map int is \<and> i \<in> set is \<and> partial_linearization model n es is))"

definition search_inv ::
    "('v, 's) Model \<Rightarrow> nat \<Rightarrow> 'v entry list \<Rightarrow> (nat \<times> 's) list \<Rightarrow> nat list \<Rightarrow> nat list
     \<Rightarrow> ('v, 's) search \<Rightarrow> bool" where
  "search_inv model n es cs us ws st \<longleftrightarrow>
     cs_calls st = map (\<lambda>(c, s). (Some c, s)) (rev cs) \<and>
     lifted es (map fst cs) (cs_heap st) \<and>
     stack_ok model n es cs (cs_state st) \<and>
     addrs es (lin_ids es cs) = us @ ws \<and> cs_entry st = first_of ws \<and>
     tried model n es (lin_ids es cs) (cs_state st) us \<and>
     holds_bitset n (cs_linearized st) \<and> members (cs_linearized st) = lin_ids es cs \<and>
     cache_ok model n es (configs es cs (cs_state st)) (cs_cache st) \<and>
     longest_ok model n es (cs_longest st) (cs_seqs st)"

subsection \<open>Facts about the stack\<close>

lemma lin_ids_simps [simp]:
  "lin_ids es [] = {}" "lin_ids es ((c, s) # cs) = insert (opid es c) (lin_ids es cs)"
  by (auto simp: lin_ids_def)

lemma stack_calls_ok: "stack_ok model n es cs s \<Longrightarrow> calls_ok es (map fst cs)"
proof (induction cs arbitrary: s)
  case (Cons x cs)
  obtain c s0 where x: "x = (c, s0)" by (cases x)
  from Cons.prems obtain us ws where "addrs es (lin_ids es cs) = us @ c # ws" by (auto simp: x)
  then have "c \<in> set (addrs es (lin_ids es cs))" by simp
  with Cons show ?case by (auto simp: x lin_ids_def)
qed simp

lemma configs_sub: "(B, t) \<in> configs es cs s \<Longrightarrow> B \<subseteq> lin_ids es cs"
proof (induction cs arbitrary: s)
  case (Cons x cs)
  then show ?case by (cases x) auto
qed simp

lemma frontier_addr:
  assumes "addrs es A = us @ c # ws" and "\<forall>a\<in>set us. is_call_at es a" and "is_call_at es c"
  shows "opid es c \<in> frontier es A"
proof -
  have "remaining es A = map (entry_at es) us @ entry_at es c # map (entry_at es) ws"
    using map_addrs [of es A] assms(1) by simp
  then have "entry_at es c \<in> set (takeWhile (\<lambda>e. e_kind e = callEntry) (remaining es A))"
    using assms(2,3) by (simp add: takeWhile_append)
  then show ?thesis by (auto simp: frontier_def opid_def)
qed

lemma frontier_before_return:
  assumes "addrs es A = us @ r # ws" and "e_kind (entry_at es r) = returnEntry" and "i \<in> frontier es A"
  shows "i \<in> opid es ` set us"
proof -
  have "remaining es A = map (entry_at es) us @ entry_at es r # map (entry_at es) ws"
    using map_addrs [of es A] assms(1) by simp
  then have "set (takeWhile (\<lambda>e. e_kind e = callEntry) (remaining es A)) \<subseteq> entry_at es ` set us"
    using assms(2) by (auto simp: takeWhile_append dest: set_takeWhileD split: if_splits)
  with assms(3) show ?thesis by (auto simp: frontier_def opid_def)
qed

lemma addrs_empty_iff:
  assumes h: "complete_history n es"
  shows "addrs es A = [] \<longleftrightarrow> {..<n} \<subseteq> A"
proof
  assume e: "addrs es A = []"
  show "{..<n} \<subseteq> A"
  proof
    fix i assume "i \<in> {..<n}"
    then have "i < n" by simp
    from complete_call [OF h this] obtain us c vs r ws
      where es: "es = us @ c # vs @ r # ws" and c: "is_call i c" and "is_return i r" .
    have "entry_at es (length (vs @ r # ws)) = c" unfolding es by (rule entry_at_append)
    moreover have "length (vs @ r # ws) < length es" unfolding es by simp
    ultimately show "i \<in> A"
      using e addrs_mem [of "length (vs @ r # ws)" es A] c by (simp add: opid_def is_call_def)
  qed
next
  assume "{..<n} \<subseteq> A"
  then have "a \<notin> set (addrs es A)" for a using opid_bound [OF h, of a] by (auto simp: addrs_mem)
  then show "addrs es A = []" by (cases "addrs es A") auto
qed

lemma calls_prefix_proper:
  assumes h: "complete_history n es" and "addrs es A = us @ ws" and "\<forall>a\<in>set us. is_call_at es a"
    and "addrs es A \<noteq> []"
  shows "ws \<noteq> []"
proof
  assume "ws = []"
  with assms(2,4) have us: "addrs es A = us" "us \<noteq> []" by auto
  then have "hd us \<in> set (addrs es A)" "is_call_at es (hd us)" using assms(3) by auto
  from addrs_split [OF h this] obtain us' vs r ws'
    where "addrs es A = us' @ hd us # vs @ r # ws'" "e_kind (entry_at es r) = returnEntry" .
  moreover from this have "r \<in> set (addrs es A)" by (metis in_set_conv_decomp append_Cons append_assoc)
  ultimately have "r \<in> set us" "e_kind (entry_at es r) = returnEntry" using us by auto
  with assms(3) show False by auto
qed

lemma stack_ids:
  assumes h: "complete_history n es"
  shows "stack_ok model n es cs s \<Longrightarrow> lin_ids es cs \<subseteq> {..<n} \<and> card (lin_ids es cs) = length cs"
proof (induction cs arbitrary: s)
  case (Cons x cs)
  obtain c s0 where x: "x = (c, s0)" by (cases x)
  from Cons.prems have "c \<in> set (addrs es (lin_ids es cs))" by (auto simp: x)
  then have c: "c < length es" "opid es c \<notin> lin_ids es cs" by (auto simp: addrs_mem)
  from Cons have "lin_ids es cs \<subseteq> {..<n} \<and> card (lin_ids es cs) = length cs" by (auto simp: x)
  moreover have "finite (lin_ids es cs)" by (simp add: lin_ids_def)
  ultimately show ?case using c opid_bound [OF h c(1)] by (simp add: x)
qed simp

lemma stack_partial_linearization:
  assumes h: "complete_history n es"
  shows "stack_ok model n es cs s \<Longrightarrow>
     partial_linearization model n es (map (\<lambda>x. opid es (fst x)) (rev cs)) \<and>
     run model es (Init model) (map (\<lambda>x. opid es (fst x)) (rev cs)) = Some s \<and>
     set (map (\<lambda>x. opid es (fst x)) (rev cs)) = lin_ids es cs"
proof (induction cs arbitrary: s)
  case Nil
  then show ?case by (simp add: partial_linearization_def)
next
  case (Cons x cs)
  obtain c s0 where x: "x = (c, s0)" by (cases x)
  let ?A = "lin_ids es cs" and ?is = "map (\<lambda>x. opid es (fst x)) (rev cs)"
  from Cons.prems obtain us ws where sp: "addrs es ?A = us @ c # ws" "tried model n es ?A s0 us"
    "is_call_at es c" "op_step model es s0 (opid es c) = Some s" "stack_ok model n es cs s0"
    by (auto simp: x)
  have IH: "partial_linearization model n es ?is" "run model es (Init model) ?is = Some s0" "set ?is = ?A"
    using Cons.IH [OF sp(5)] by auto
  have "opid es c \<in> frontier es ?A"
    using frontier_addr [OF sp(1)] sp(2,3) by (simp add: tried_def)
  then have c: "opid es c < n" "opid es c \<notin> ?A" "\<forall>j<n. j \<notin> ?A \<longrightarrow> \<not> precedes es j (opid es c)"
    by (auto simp: frontier_iff [OF h])
  have closed: "\<forall>i\<in>set ?is. \<forall>j<n. precedes es j i \<longrightarrow> j \<in> ?A"
    using IH(1) unfolding partial_linearization_def IH(3) by blast
  then have "\<forall>i\<in>set ?is. \<not> precedes es (opid es c) i" using c(1,2) by blast
  then have "sorted_wrt (\<lambda>i j. \<not> precedes es j i) (?is @ [opid es c])"
    using IH(1) by (simp add: partial_linearization_def sorted_wrt_append)
  moreover have "run model es (Init model) (?is @ [opid es c]) = Some s"
    using IH(2) sp(4) by (simp add: run_append)
  moreover have "\<forall>i\<in>set (?is @ [opid es c]). \<forall>j<n. precedes es j i \<longrightarrow> j \<in> set (?is @ [opid es c])"
    using closed c(3) IH(3) by (metis Un_iff set_append empty_iff insert_iff list.set)
  moreover have "distinct (?is @ [opid es c])" and "set (?is @ [opid es c]) \<subseteq> {..<n}"
    using IH(1,3) c(1,2) by (auto simp: partial_linearization_def)
  ultimately have "partial_linearization model n es (?is @ [opid es c])"
    unfolding partial_linearization_def by (intro conjI) simp_all
  moreover have "run model es (Init model) (?is @ [opid es c]) = Some s" by fact
  ultimately show ?case using IH(3) by (auto simp: x)
qed

subsection \<open>The measure of the search\<close>

definition suffix_len :: "nat list \<Rightarrow> nat \<Rightarrow> nat" where
  "suffix_len xs c = length (dropWhile (\<lambda>x. x \<noteq> c) xs)"

lemma suffix_len_split: "distinct (us @ c # ws) \<Longrightarrow> suffix_len (us @ c # ws) c = Suc (length ws)"
  by (induction us) (auto simp: suffix_len_def)

fun stack_weight :: "'v entry list \<Rightarrow> nat \<Rightarrow> (nat \<times> 's) list \<Rightarrow> nat" where
  "stack_weight es n [] = 0"
| "stack_weight es n ((c, s) # cs) =
     stack_weight es n cs +
     suffix_len (addrs es (lin_ids es cs)) c * (length es + 2) ^ (n - length cs)"

definition weight :: "'v entry list \<Rightarrow> nat \<Rightarrow> (nat \<times> 's) list \<Rightarrow> nat list \<Rightarrow> nat" where
  "weight es n cs ws =
     stack_weight es n cs + Suc (length ws) * (length es + 2) ^ (n - length cs)"

lemma weight_advance: "weight es n cs ws < weight es n cs (a # ws)"
  by (simp add: weight_def)

lemma weight_push:
  assumes c: "addrs es (lin_ids es cs) = us @ c # ws" and len: "length cs < n"
  shows "weight es n ((c, s) # cs) (addrs es (lin_ids es ((c, s) # cs))) < weight es n cs (c # ws)"
proof -
  let ?B = "length es + 2" and ?k = "n - Suc (length cs)"
  have "n - length cs = Suc ?k" using len by simp
  then have B: "?B ^ (n - length cs) = ?B * ?B ^ ?k" by simp
  have "distinct (us @ c # ws)" using c distinct_addrs [of es "lin_ids es cs"] by simp
  then have sl: "suffix_len (addrs es (lin_ids es cs)) c = Suc (length ws)"
    unfolding c by (rule suffix_len_split)
  let ?d = "length (addrs es (lin_ids es ((c, s) # cs)))"
  have "?d \<le> length es" by (rule length_addrs)
  then have "Suc ?d * ?B ^ ?k < ?B * ?B ^ ?k" by (intro mult_strict_right_mono) auto
  then show ?thesis using B sl by (simp add: weight_def)
qed

lemma weight_pop:
  assumes c: "addrs es (lin_ids es cs) = us @ c # ws"
  shows "weight es n cs ws < weight es n ((c, s) # cs) vs"
proof -
  let ?B = "length es + 2"
  have "distinct (us @ c # ws)" using c distinct_addrs [of es "lin_ids es cs"] by simp
  then have sl: "suffix_len (addrs es (lin_ids es cs)) c = Suc (length ws)"
    unfolding c by (rule suffix_len_split)
  show ?thesis using sl by (simp add: weight_def)
qed

subsection \<open>Models the checker can work with\<close>

text \<open>
  The contract of a sequential model: its equality on states is given, and equal states accept
  the same operations and move to equal states. A state found in the cache may then stand for the
  state just reached.
\<close>

locale sequential_model =
  fixes model :: "('v, 's) Model" and eq :: "'s \<Rightarrow> 's \<Rightarrow> bool"
  assumes Equal_model: "Equal model = Some eq"
    and eq_sim: "eq s t \<Longrightarrow> Step model s i out = Inr (True, s') \<Longrightarrow>
       \<exists>t'. Step model t i out = Inr (True, t') \<and> eq s' t'"
begin

lemma eq_run: "eq s t \<Longrightarrow> run model es s is \<noteq> None \<Longrightarrow> run model es t is \<noteq> None"
proof (induction "is" arbitrary: s t)
  case (Cons i "is")
  from Cons.prems(2) obtain s' where s': "op_step model es s i = Some s'" "run model es s' is \<noteq> None"
    by (auto split: option.splits)
  then have "Step model s (call_value es i) (return_value es i) = Inr (True, s')"
    by (auto simp: op_step_def split: sum.splits bool.splits)
  from eq_sim [OF Cons.prems(1) this] obtain t' where
    "Step model t (call_value es i) (return_value es i) = Inr (True, t')" "eq s' t'" by blast
  then have "op_step model es t i = Some t'" "run model es t' is \<noteq> None"
    using Cons.IH s'(2) by (auto simp: op_step_def)
  then show ?case by simp
qed simp

lemma eq_completable: "eq s t \<Longrightarrow> completable model n es A s \<Longrightarrow> completable model n es A t"
  unfolding completable_def linearization_def using eq_run by metis

lemma cacheContains_loop_eq:
  "cacheContains_loop model entry elems =
     Inr (\<exists>elem\<in>set elems. ce_linearized entry = ce_linearized elem \<and> eq (ce_state entry) (ce_state elem))"
  by (induction elems) (auto simp: model_Equal_def Equal_model)

lemma cacheContains_eq:
  "cacheContains model cache entry =
     Inr (\<exists>elem\<in>set (cache (hash_bitset (ce_linearized entry))).
            ce_linearized entry = ce_linearized elem \<and> eq (ce_state entry) (ce_state elem))"
  by (simp add: cacheContains_def cacheContains_loop_eq)

end

subsection \<open>The branches of the loop body\<close>

definition steps_defined :: "('v, 's) Model \<Rightarrow> nat \<Rightarrow> 'v entry list \<Rightarrow> bool" where
  "steps_defined model n es \<longleftrightarrow>
     (\<forall>s. \<forall>i<n. \<exists>b s'. Step model s (call_value es i) (return_value es i) = Inr (b, s'))"

lemma inv_heap:
  assumes hist: "complete_history n es" and inv: "search_inv model n es cs us ws st"
  shows "dlist (cs_heap st) (length es # us @ ws)" and "same_nodes (cs_heap st) (search_heap es)"
    and "length (cs_heap st) = Suc (length es)"
proof -
  have "lifted es (map fst cs) (cs_heap st)" and "calls_ok es (map fst cs)"
    and a: "addrs es (lin_ids es cs) = us @ ws"
    using inv stack_calls_ok by (auto simp: search_inv_def)
  from lifted_dlist [OF hist this(1,2)]
  show "dlist (cs_heap st) (length es # us @ ws)" "same_nodes (cs_heap st) (search_heap es)"
    using a by (simp_all add: lin_ids_def)
  then show "length (cs_heap st) = Suc (length es)" by (simp add: same_nodes_def)
qed

lemma inv_entry:
  assumes hist: "complete_history n es" and inv: "search_inv model n es cs us (a # ws) st"
  shows "a < length es" and "opid es a \<notin> lin_ids es cs" and "opid es a < n"
    and "deref (cs_heap st) (cs_entry st) = Inr (cs_heap st ! a)"
    and "n_id (cs_heap st ! a) = int (opid es a)"
    and "n_value (cs_heap st ! a) = Some (e_value (entry_at es a))"
    and "n_match (cs_heap st ! a) = n_match (search_heap es ! a)"
    and "n_next (cs_heap st ! a) = first_of ws"
proof -
  note d = inv_heap [OF hist inv]
  have "a \<in> set (addrs es (lin_ids es cs))" and e: "cs_entry st = Some a"
    using inv by (auto simp: search_inv_def first_of_def)
  then show a: "a < length es" and "opid es a \<notin> lin_ids es cs" by (simp_all add: addrs_mem)
  show "opid es a < n" by (rule opid_bound [OF hist a])
  show "deref (cs_heap st) (cs_entry st) = Inr (cs_heap st ! a)" using e a d(3) by simp
  show "n_id (cs_heap st ! a) = int (opid es a)" "n_value (cs_heap st ! a) = Some (e_value (entry_at es a))"
    "n_match (cs_heap st ! a) = n_match (search_heap es ! a)"
    using d(2) search_heap_node [OF a] opid_id [OF hist a] by (simp_all add: same_nodes_def)
  have "dlist (cs_heap st) ((length es # us) @ a # ws)" using d(1) by simp
  then show "n_next (cs_heap st ! a) = first_of ws" by (rule dlist_mid_next)
qed

lemma advance_inv:
  assumes hist: "complete_history n es" and inv: "search_inv model n es cs us (a # ws) st"
    and call: "is_call_at es a" and dead: "dead model n es (lin_ids es cs) (cs_state st) a"
  shows "search_inv model n es cs (us @ [a]) ws (st\<lparr>cs_entry := first_of ws\<rparr>)"
  using inv call dead by (auto simp: search_inv_def tried_def)

lemma call_step:
  assumes hist: "complete_history n es" and a: "a < length es" and call: "is_call_at es a"
    and r: "r < length es" and ret: "e_kind (entry_at es r) = returnEntry" and id: "opid es r = opid es a"
  shows "call_value es (opid es a) = e_value (entry_at es a)"
    and "return_value es (opid es a) = e_value (entry_at es r)"
  using call_value_eq [OF hist entry_at_mem [OF a], of "opid es a"]
    return_value_eq [OF hist entry_at_mem [OF r], of "opid es a"]
    call ret id opid_id [OF hist a] opid_id [OF hist r]
  by (simp_all add: is_call_def is_return_def)

lemma push_inv:
  assumes hist: "complete_history n es" and inv: "search_inv model n es cs us (a # ws) st"
    and call: "is_call_at es a" and step: "op_step model es (cs_state st) (opid es a) = Some s'"
    and bits: "holds_bitset n b" "members b = insert (opid es a) (lin_ids es cs)"
    and entry: "holds_bitset n (ce_linearized ce)" "members (ce_linearized ce) = members b" "ce_state ce = s'"
  shows "\<exists>h'. lift (cs_heap st) (cs_entry st) = Inr h' \<and>
     deref h' (Some (length es)) = Inr (h' ! length es) \<and>
     search_inv model n es ((a, cs_state st) # cs) [] (addrs es (insert (opid es a) (lin_ids es cs)))
       (st\<lparr>cs_cache := (cs_cache st)(k := cs_cache st k @ [ce]),
           cs_calls := cs_calls st @ [(cs_entry st, cs_state st)],
           cs_state := s', cs_linearized := b, cs_heap := h', cs_entry := n_next (h' ! length es)\<rparr>)"
proof -
  note d = inv_heap [OF hist inv] and e = inv_entry [OF hist inv]
  have ad: "addrs es (lin_ids es cs) = us @ a # ws" and ptr: "cs_entry st = Some a"
    using inv by (auto simp: search_inv_def first_of_def)
  have "a \<in> set (addrs es (lin_ids es cs))" using ad by simp
  moreover have "dlist (cs_heap st) (length es # addrs es (lin_ids es cs))" using d(1) ad by simp
  ultimately obtain h' where h': "lift (cs_heap st) (Some a) = Inr h'"
    "dlist h' (length es # addrs es (insert (opid es a) (lin_ids es cs)))"
    "same_nodes h' (search_heap es)"
    using lift_call [OF hist _ call _ d(2)] by blast
  have len: "length es < length h'" using h'(3) by (simp add: same_nodes_def)
  have "cache_ok model n es (configs es ((a, cs_state st) # cs) s')
      ((cs_cache st)(k := cs_cache st k @ [ce]))"
    using inv bits(2) entry unfolding cache_ok_def search_inv_def by auto
  then show ?thesis
    using inv h' len ptr ad call step bits dlist_head_next [OF h'(2)]
    by (intro exI [of _ h']) (auto simp: search_inv_def tried_def)
qed

context sequential_model
begin

lemma cached_dead:
  assumes inv: "search_inv model n es cs us ws st" and new: "opid es a \<notin> lin_ids es cs"
    and step: "op_step model es (cs_state st) (opid es a) = Some s'"
    and bits: "members b = insert (opid es a) (lin_ids es cs)"
    and hit: "elem \<in> set (cs_cache st k)" "b = ce_linearized elem" "eq s' (ce_state elem)"
  shows "dead model n es (lin_ids es cs) (cs_state st) a"
proof -
  have "(members (ce_linearized elem), ce_state elem) \<in> configs es cs (cs_state st) \<or>
      \<not> completable model n es (members (ce_linearized elem)) (ce_state elem)"
    using inv hit(1) by (auto simp: search_inv_def cache_ok_def)
  moreover have "(members (ce_linearized elem), ce_state elem) \<notin> configs es cs (cs_state st)"
    using configs_sub [of "members b" _ es cs] new bits hit(2) by blast
  ultimately have "\<not> completable model n es (insert (opid es a) (lin_ids es cs)) (ce_state elem)"
    using bits hit(2) by simp
  then have "\<not> completable model n es (insert (opid es a) (lin_ids es cs)) s'"
    using eq_completable [OF hit(3)] by blast
  then show ?thesis using step by (simp add: dead_def)
qed

lemma try_call_inv:
  assumes hist: "complete_history n es" and total: "steps_defined model n es"
    and inv: "search_inv model n es cs us (a # ws) st" and call: "is_call_at es a"
  shows "\<exists>st' cs' us' ws'. try_call model (length es) (cs_heap st ! a) st = Inr st' \<and>
     search_inv model n es cs' us' ws' st' \<and> weight es n cs' ws' < weight es n cs (a # ws)"
proof -
  note e = inv_entry [OF hist inv] and d = inv_heap [OF hist inv]
  from return_of_call [OF hist e(1) call] obtain r where r: "r < a" "e_kind (entry_at es r) = returnEntry"
    "opid es r = opid es a" "n_match (search_heap es ! a) = Some r" .
  have rl: "r < length es" using r(1) e(1) by simp
  have m: "deref (cs_heap st) (n_match (cs_heap st ! a)) = Inr (cs_heap st ! r)"
    using e(7) r(4) rl d(3) by simp
  have mv: "n_value (cs_heap st ! r) = Some (e_value (entry_at es r))"
    using d(2) search_heap_node(2) [OF rl] by (simp add: same_nodes_def)
  note vals = call_step [OF hist e(1) call rl r(2,3)]
  obtain b s' where st: "Step model (cs_state st) (e_value (entry_at es a)) (e_value (entry_at es r)) = Inr (b, s')"
    using total e(3) vals unfolding steps_defined_def by metis
  have op: "op_step model es (cs_state st) (opid es a) = (if b then Some s' else None)"
    using st vals by (simp add: op_step_def)
  have advance: "\<exists>st' cs' us' ws'. Inr (st\<lparr>cs_entry := n_next (cs_heap st ! a)\<rparr>) = Inr st' \<and>
      search_inv model n es cs' us' ws' st' \<and> weight es n cs' ws' < weight es n cs (a # ws)"
    if "dead model n es (lin_ids es cs) (cs_state st) a"
    using advance_inv [OF hist inv call that] weight_advance [of es n cs ws a] e(8) by auto
  show ?thesis
  proof (cases b)
    case False
    then have "dead model n es (lin_ids es cs) (cs_state st) a" using op by (simp add: dead_def)
    from advance [OF this] show ?thesis using False by (simp add: try_call_def m mv e(6) st)
  next
    case True
    have lin: "holds_bitset n (cs_linearized st)" "members (cs_linearized st) = lin_ids es cs"
      using inv by (simp_all add: search_inv_def)
    from idbits.ins [OF lin(1) e(3)] obtain b' where b': "set_bitset (cs_linearized st) (opid es a) = Inr b'"
      "holds_bitset n b'" "members b' = insert (opid es a) (lin_ids es cs)" using lin(2) by auto
    let ?ce = "\<lparr>ce_linearized = b', ce_state = s'\<rparr>" and ?k = "hash_bitset b'"
    let ?hit = "\<exists>elem\<in>set (cs_cache st ?k). b' = ce_linearized elem \<and> eq s' (ce_state elem)"
    have step: "op_step model es (cs_state st) (opid es a) = Some s'" using op True by simp
    show ?thesis
    proof (cases ?hit)
      case hit: True
      then have "dead model n es (lin_ids es cs) (cs_state st) a"
        using cached_dead [OF inv e(2) step b'(3)] by blast
      moreover have "cacheContains model (cs_cache st) ?ce = Inr True"
        using hit by (simp add: cacheContains_eq)
      ultimately show ?thesis
        using advance True by (simp add: try_call_def m mv e(5,6) st b'(1))
    next
      case miss: False
      from push_inv [OF hist inv call step b'(2,3), of ?ce ?k] b'(2)
      obtain h' where h': "lift (cs_heap st) (cs_entry st) = Inr h'"
        "deref h' (Some (length es)) = Inr (h' ! length es)"
        "search_inv model n es ((a, cs_state st) # cs) [] (addrs es (insert (opid es a) (lin_ids es cs)))
           (st\<lparr>cs_cache := (cs_cache st)(?k := cs_cache st ?k @ [?ce]),
               cs_calls := cs_calls st @ [(cs_entry st, cs_state st)],
               cs_state := s', cs_linearized := b', cs_heap := h', cs_entry := n_next (h' ! length es)\<rparr>)"
        by auto
      have ad: "addrs es (lin_ids es cs) = us @ a # ws" and ok: "stack_ok model n es cs (cs_state st)"
        using inv by (simp_all add: search_inv_def)
      have "length cs < n"
      proof -
        have "lin_ids es cs \<subset> {..<n}" using stack_ids [OF hist ok] e(2,3) by blast
        then show ?thesis using stack_ids [OF hist ok] psubset_card_mono [of "{..<n}" "lin_ids es cs"] by simp
      qed
      from weight_push [OF ad this, of "cs_state st"] h' miss True show ?thesis
        by (auto simp: try_call_def m mv e(5,6) st b'(1) cacheContains_eq Let_def)
    qed
  qed
qed

end

subsection \<open>Recording the longest prefixes\<close>

lemma call_ids_eq:
  assumes "\<And>c s. (c, s) \<in> set cs \<Longrightarrow> c < length h \<and> n_id (h ! c) = int (opid es c)"
  shows "call_ids h (map (\<lambda>(c, s). (Some c, s)) cs) = Inr (map int (map (\<lambda>x. opid es (fst x)) cs))"
  using assms
proof (induction cs)
  case (Cons x cs)
  obtain c s where x: "x = (c, s)" by (cases x)
  have "c < length h \<and> n_id (h ! c) = int (opid es c)" using Cons.prems [of c s] by (simp add: x)
  moreover have "call_ids h (map (\<lambda>(c, s). (Some c, s)) cs) = Inr (map int (map (\<lambda>x. opid es (fst x)) cs))"
    using Cons.prems by (intro Cons.IH) (meson list.set_intros(2))
  ultimately show ?case by (simp add: x)
qed simp

lemma longest_step_ok:
  assumes pl: "partial_linearization model n es is" and ids: "call_ids h calls = Inr (map int is)"
    and ok: "longest_ok model n es longest seqs"
    and seq: "\<And>q. seq = Some q \<Longrightarrow> q < length seqs \<and> seqs ! q = map int is"
    and c: "c < length h" "n_id (h ! c) = int i" "i \<in> set is"
  shows "\<exists>longest' seqs' seq'. longest_step h calls (Some c, s) (longest, seqs, seq) = Inr (longest', seqs', seq') \<and>
     longest_ok model n es longest' seqs' \<and> (\<forall>q. seq' = Some q \<longrightarrow> q < length seqs' \<and> seqs' ! q = map int is)"
proof -
  have i: "i < n" and len: "length longest = n"
    using pl c(3) ok by (auto simp: partial_linearization_def longest_ok_def)
  have old: "longest_ok model n es (longest[i := Some q]) seqs"
    if "q < length seqs" "seqs ! q = map int is" for q
    using ok that c(3) pl i len unfolding longest_ok_def by (auto simp: nth_update_if)
  have new: "longest_ok model n es (longest[i := Some (length seqs)]) (seqs @ [map int is])"
    unfolding longest_ok_def
  proof (intro conjI allI impI)
    fix j q assume j: "j < n" and q: "longest[i := Some (length seqs)] ! j = Some q"
    show "q < length (seqs @ [map int is])"
      using ok j q len by (auto simp: longest_ok_def nth_update_if split: if_splits)
    show "\<exists>is'. (seqs @ [map int is]) ! q = map int is' \<and> j \<in> set is' \<and> partial_linearization model n es is'"
    proof (cases "j = i")
      case True
      then show ?thesis using q j len c(3) pl by auto
    next
      case False
      then show ?thesis using ok j q by (auto simp: longest_ok_def nth_append)
    qed
  qed (simp add: len)
  show ?thesis
  proof (cases seq)
    case None
    then show ?thesis
      using ok new ids c i len by (auto simp: longest_step_def split: option.splits)
  next
    case (Some q)
    then show ?thesis
      using ok old [of q] seq [of q] c i len by (auto simp: longest_step_def split: option.splits)
  qed
qed

lemma longest_fold_ok:
  assumes pl: "partial_linearization model n es is" and ids: "call_ids h calls = Inr (map int is)"
  shows "\<lbrakk>\<And>c s. (c, s) \<in> set cs \<Longrightarrow> c < length h \<and> (\<exists>i\<in>set is. n_id (h ! c) = int i);
     longest_ok model n es longest seqs;
     \<And>q. seq = Some q \<Longrightarrow> q < length seqs \<and> seqs ! q = map int is\<rbrakk> \<Longrightarrow>
     \<exists>longest' seqs' seq'. go_fold (longest_step h calls) (map (\<lambda>(c, s). (Some c, s)) cs) (longest, seqs, seq)
       = Inr (longest', seqs', seq') \<and> longest_ok model n es longest' seqs'"
proof (induction cs arbitrary: longest seqs seq)
  case (Cons x cs)
  obtain c s where x: "x = (c, s)" by (cases x)
  obtain i where c: "c < length h" "n_id (h ! c) = int i" "i \<in> set is"
    using Cons.prems(1) [of c s] by (auto simp: x)
  from longest_step_ok [OF pl ids Cons.prems(2,3) c] obtain l' q' r' where
    step: "longest_step h calls (Some c, s) (longest, seqs, seq) = Inr (l', q', r')"
      "longest_ok model n es l' q'" "\<And>q. r' = Some q \<Longrightarrow> q < length q' \<and> q' ! q = map int is" by blast
  have "\<exists>l s r. go_fold (longest_step h calls) (map (\<lambda>(c, s). (Some c, s)) cs) (l', q', r') = Inr (l, s, r) \<and>
      longest_ok model n es l s"
    using Cons.prems(1) by (intro Cons.IH step(2,3)) (meson list.set_intros(2))+
  then show ?case by (simp add: x step(1))
qed simp

lemma calls_ok_mem: "calls_ok es xs \<Longrightarrow> c \<in> set xs \<Longrightarrow> c < length es"
  by (induction xs) (auto simp: addrs_mem)

lemma stack_nodes:
  assumes hist: "complete_history n es" and ok: "stack_ok model n es cs s"
    and same: "same_nodes h (search_heap es)" and mem: "(c, s') \<in> set cs"
  shows "c < length h \<and> n_id (h ! c) = int (opid es c) \<and> c < length es"
proof -
  have "c \<in> set (map fst cs)" using mem by force
  then have "c < length es" using calls_ok_mem [OF stack_calls_ok [OF ok]] by blast
  then show ?thesis
    using same search_heap_node(1) [of c es] opid_id [OF hist, of c] by (simp add: same_nodes_def)
qed

lemma record_longest_inv:
  assumes hist: "complete_history n es" and inv: "search_inv model n es cs us ws st"
  shows "\<exists>st'. record_longest computePartial st = Inr st' \<and> search_inv model n es cs us ws st'"
proof (cases computePartial)
  case True
  note d = inv_heap [OF hist inv]
  have ok: "stack_ok model n es cs (cs_state st)" and lg: "longest_ok model n es (cs_longest st) (cs_seqs st)"
    and calls: "cs_calls st = map (\<lambda>(c, s). (Some c, s)) (rev cs)"
    using inv by (simp_all add: search_inv_def)
  let ?is = "map (\<lambda>x. opid es (fst x)) (rev cs)"
  have pl: "partial_linearization model n es ?is"
    using stack_partial_linearization [OF hist ok] by blast
  have nodes: "c < length (cs_heap st) \<and> n_id (cs_heap st ! c) = int (opid es c)"
    if "(c, s) \<in> set (rev cs)" for c s
    using stack_nodes [OF hist ok d(2)] that by auto
  have ids: "call_ids (cs_heap st) (cs_calls st) = Inr (map int ?is)"
    unfolding calls by (rule call_ids_eq) (rule nodes)
  have "\<exists>longest' seqs' seq'. go_fold (longest_step (cs_heap st) (cs_calls st)) (map (\<lambda>(c, s). (Some c, s)) (rev cs))
      (cs_longest st, cs_seqs st, None) = Inr (longest', seqs', seq') \<and> longest_ok model n es longest' seqs'"
    by (rule longest_fold_ok [OF pl ids _ lg]) (use nodes in force)+
  then obtain longest' seqs' seq' where f: "go_fold (longest_step (cs_heap st) (cs_calls st)) (cs_calls st)
      (cs_longest st, cs_seqs st, None) = Inr (longest', seqs', seq')" "longest_ok model n es longest' seqs'"
    unfolding calls [symmetric] by blast
  then show ?thesis using True inv by (simp add: record_longest_def search_inv_def)
next
  case False
  then show ?thesis using inv by (simp add: record_longest_def)
qed

subsection \<open>Backtracking\<close>

lemma exhausted:
  assumes hist: "complete_history n es" and inv: "search_inv model n es cs us (r # ws) st"
    and ret: "e_kind (entry_at es r) = returnEntry"
  shows "\<not> completable model n es (lin_ids es cs) (cs_state st)"
proof
  assume "completable model n es (lin_ids es cs) (cs_state st)"
  with hist show False
  proof (cases rule: completable_cases)
    case 1
    then have "addrs es (lin_ids es cs) = []" by (simp only: addrs_empty_iff [OF hist])
    then show False using inv by (simp add: search_inv_def)
  next
    case (2 i s')
    have "addrs es (lin_ids es cs) = us @ r # ws" and tr: "tried model n es (lin_ids es cs) (cs_state st) us"
      using inv by (simp_all add: search_inv_def)
    from frontier_before_return [OF this(1) ret 2(1)] obtain a where "a \<in> set us" "i = opid es a" by blast
    with tr 2(2,3) show False by (auto simp: tried_def dead_def)
  qed
qed

lemma backtrack_inv:
  assumes hist: "complete_history n es" and inv: "search_inv model n es ((c, s0) # cs) us (r # ws) st"
    and ret: "e_kind (entry_at es r) = returnEntry"
  shows "\<exists>st' us' ws'. backtrack st = Inr st' \<and> search_inv model n es cs us' ws' st' \<and>
     weight es n cs ws' < weight es n ((c, s0) # cs) (r # ws)"
proof -
  note d = inv_heap [OF hist inv] and ex = exhausted [OF hist inv ret]
  from inv obtain us' ws' where top: "addrs es (lin_ids es cs) = us' @ c # ws'"
    "tried model n es (lin_ids es cs) s0 us'" "is_call_at es c"
    "op_step model es s0 (opid es c) = Some (cs_state st)" and ok: "stack_ok model n es cs s0"
    by (auto simp: search_inv_def)
  have cmem: "c \<in> set (addrs es (lin_ids es cs))" using top(1) by simp
  then have c: "c < length es" "opid es c \<notin> lin_ids es cs" by (simp_all add: addrs_mem)
  from inv obtain h' where h': "lifted es (map fst cs) h'" "lift h' (Some c) = Inr (cs_heap st)"
    by (auto simp: search_inv_def)
  from lifted_dlist [OF hist h'(1) stack_calls_ok [OF ok]]
  have dl: "dlist h' (length es # addrs es (lin_ids es cs))" "same_nodes h' (search_heap es)"
    by (simp_all add: lin_ids_def)
  from lift_call [OF hist cmem top(3) dl] h'(2) have ul: "unlift (cs_heap st) (Some c) = Inr h'" by auto
  have lc: "deref (cs_heap st) (Some c) = Inr (cs_heap st ! c)" "n_id (cs_heap st ! c) = int (opid es c)"
    "deref h' (Some c) = Inr (h' ! c)"
    using d(2,3) dl(2) c(1) search_heap_node(1) [OF c(1)] opid_id [OF hist c(1)] by (simp_all add: same_nodes_def)
  have "dlist h' ((length es # us') @ c # ws')" using dl(1) top(1) by simp
  then have nx: "n_next (h' ! c) = first_of ws'" by (rule dlist_mid_next)
  have lin: "holds_bitset n (cs_linearized st)" "members (cs_linearized st) = insert (opid es c) (lin_ids es cs)"
    using inv by (simp_all add: search_inv_def)
  from idbits.del [OF lin(1) opid_bound [OF hist c(1)]] obtain b' where
    b': "clear_bitset (cs_linearized st) (opid es c) = Inr b'" "holds_bitset n b'" "members b' = lin_ids es cs"
    using lin(2) c(2) by auto
  have calls: "cs_calls st = map (\<lambda>(c, s). (Some c, s)) (rev cs) @ [(Some c, s0)]"
    using inv by (simp add: search_inv_def)
  let ?st' = "st\<lparr>cs_state := s0, cs_linearized := b', cs_calls := butlast (cs_calls st), cs_heap := h',
      cs_entry := first_of ws'\<rparr>"
  have "backtrack st = Inr ?st'"
    using lc ul b'(1) nx calls by (simp add: backtrack_def)
  moreover have "search_inv model n es cs (us' @ [c]) ws' ?st'"
  proof -
    have "tried model n es (lin_ids es cs) s0 (us' @ [c])"
      using top(2,3,4) ex by (auto simp: tried_def dead_def)
    moreover have "cache_ok model n es (configs es ((c, s0) # cs) (cs_state st)) (cs_cache st)"
      using inv by (simp add: search_inv_def)
    then have "cache_ok model n es (configs es cs s0) (cs_cache st)"
      using ex unfolding cache_ok_def configs.simps by (metis insert_iff prod.inject)
    ultimately show ?thesis using inv h'(1) ok top(1) b' calls by (simp add: search_inv_def)
  qed
  moreover have "weight es n cs ws' < weight es n ((c, s0) # cs) (r # ws)"
    by (rule weight_pop [OF top(1)])
  ultimately show ?thesis by blast
qed

subsection \<open>The whole search\<close>

lemma complete_length:
  assumes h: "complete_history n es"
  shows "length es = 2 * n"
proof -
  let ?key = "\<lambda>e. (e_kind e, e_id e)"
  have "set (map ?key es) = {callEntry, returnEntry} \<times> int ` {..<n}"
  proof (intro set_eqI iffI)
    fix x assume "x \<in> set (map ?key es)"
    then obtain e where "e \<in> set es" "x = ?key e" by auto
    then show "x \<in> {callEntry, returnEntry} \<times> int ` {..<n}"
      using complete_id_bound [OF h, of e] entry_cases [of e] by (auto intro!: image_eqI [of _ _ "nat (e_id e)"])
  next
    fix x assume "x \<in> {callEntry, returnEntry} \<times> int ` {..<n}"
    then obtain i where i: "i < n" "x = (callEntry, int i) \<or> x = (returnEntry, int i)" by auto
    from complete_call [OF h i(1)] obtain us c vs r ws
      where "es = us @ c # vs @ r # ws" "is_call i c" "is_return i r" .
    then show "x \<in> set (map ?key es)" using i(2) by (auto simp: is_call_def is_return_def)
  qed
  then have "card (set (map ?key es)) = 2 * n"
    by (simp add: card_cartesian_product card_image)
  moreover have "distinct (map ?key es)" using h by (simp add: complete_history_def)
  ultimately show ?thesis by (metis distinct_card length_map)
qed

lemma search_end:
  assumes hist: "complete_history n es" and inv: "search_inv model n es cs [] [] st"
  shows "\<exists>longest seqs. checkSingle_end n st = Inr (True, longest, seqs) \<and>
     linearizable model n es \<and> longest_ok model n es longest seqs"
proof -
  note d = inv_heap [OF hist inv]
  have ok: "stack_ok model n es cs (cs_state st)" and calls: "cs_calls st = map (\<lambda>(c, s). (Some c, s)) (rev cs)"
    and "addrs es (lin_ids es cs) = []" using inv by (simp_all add: search_inv_def)
  let ?is = "map (\<lambda>x. opid es (fst x)) (rev cs)"
  have ids: "call_ids (cs_heap st) (cs_calls st) = Inr (map int ?is)"
    unfolding calls by (rule call_ids_eq) (use stack_nodes [OF hist ok d(2)] in auto)
  have pl: "partial_linearization model n es ?is" and all: "set ?is = {..<n}"
    using stack_partial_linearization [OF hist ok] stack_ids [OF hist ok]
      addrs_empty_iff [OF hist, of "lin_ids es cs"] \<open>addrs es (lin_ids es cs) = []\<close> by auto
  then have "linearization model n es {} (Init model) ?is"
    by (simp add: partial_linearization_def linearization_def)
  then have "linearizable model n es" by (auto simp: linearizable_def completable_def)
  moreover have "longest_ok model n es (replicate n (Some (length (cs_seqs st)))) (cs_seqs st @ [map int ?is])"
    unfolding longest_ok_def
  proof (intro conjI allI impI)
    fix i q assume i: "i < n" and "replicate n (Some (length (cs_seqs st))) ! i = Some q"
    then have q: "q = length (cs_seqs st)" by simp
    then show "q < length (cs_seqs st @ [map int ?is])" by simp
    show "\<exists>is. (cs_seqs st @ [map int ?is]) ! q = map int is \<and> i \<in> set is \<and> partial_linearization model n es is"
      using q pl all i by (intro exI [of _ ?is]) simp
  qed simp
  ultimately show ?thesis using ids by (simp add: checkSingle_end_def)
qed

lemma backtrack_branch:
  assumes hist: "complete_history n es" and inv: "search_inv model n es cs us (r # ws) st"
    and ret: "e_kind (entry_at es r) = returnEntry" and ne: "cs \<noteq> []"
  shows "\<exists>st1 st' cs' us' ws'. record_longest computePartial st = Inr st1 \<and> backtrack st1 = Inr st' \<and>
     search_inv model n es cs' us' ws' st' \<and> weight es n cs' ws' < weight es n cs (r # ws)"
proof -
  obtain c s0 cs0 where cs: "cs = (c, s0) # cs0" using ne by (cases cs) auto
  from record_longest_inv [OF hist inv] obtain st1 where
    "record_longest computePartial st = Inr st1" "search_inv model n es ((c, s0) # cs0) us (r # ws) st1"
    unfolding cs by blast
  with backtrack_inv [OF hist this(2) ret] show ?thesis unfolding cs by blast
qed

context sequential_model
begin

lemma body_inv:
  assumes hist: "complete_history n es" and total: "steps_defined model n es"
    and inv: "search_inv model n es cs us (a # ws) st"
  shows "(\<exists>st' cs' us' ws'. checkSingle_body model computePartial (length es) False st = Inr (Inr st') \<and>
       search_inv model n es cs' us' ws' st' \<and> weight es n cs' ws' < weight es n cs (a # ws)) \<or>
     (checkSingle_body model computePartial (length es) False st = Inr (Inl (False, cs_longest st, cs_seqs st)) \<and>
       \<not> linearizable model n es)"
proof (cases "is_call_at es a")
  case True
  note e = inv_entry [OF hist inv]
  have "n_match (cs_heap st ! a) \<noteq> None" using return_of_call [OF hist e(1) True] e(7) by auto
  then show ?thesis
    using try_call_inv [OF hist total inv True] e(4) by (auto simp: checkSingle_body_def)
next
  case False
  note e = inv_entry [OF hist inv]
  have ret: "e_kind (entry_at es a) = returnEntry" using False entry_cases [of "entry_at es a"] by simp
  then have m: "n_match (cs_heap st ! a) = None" using match_return [OF hist e(1)] e(7) by simp
  have calls: "cs_calls st = [] \<longleftrightarrow> cs = []" using inv by (auto simp: search_inv_def)
  show ?thesis
  proof (cases "cs = []")
    case True
    then have "cs_state st = Init model" using inv by (simp add: search_inv_def)
    then have "\<not> linearizable model n es"
      using exhausted [OF hist inv ret] True by (simp add: linearizable_def)
    then show ?thesis using m e(4) calls True by (simp add: checkSingle_body_def)
  next
    case ne: False
    from backtrack_branch [OF hist inv ret ne, of computePartial] show ?thesis
      using m e(4) calls ne by (auto simp: checkSingle_body_def)
  qed
qed

lemma loop_correct:
  assumes hist: "complete_history n es" and total: "steps_defined model n es"
  shows "search_inv model n es cs us ws st \<Longrightarrow>
     \<exists>ok longest seqs. checkSingle_loop model computePartial kill n (length es) iter st = Some (Inr (ok, longest, seqs)) \<and>
       (ok \<longrightarrow> linearizable model n es) \<and> (\<not> ok \<and> (\<forall>k. \<not> kill k) \<longrightarrow> \<not> linearizable model n es) \<and>
       longest_ok model n es longest seqs"
proof (induction "weight es n cs ws" arbitrary: cs us ws st iter rule: less_induct)
  case less
  note d = inv_heap [OF hist less.prems]
  have hd: "deref (cs_heap st) (Some (length es)) = Inr (cs_heap st ! length es)"
    "n_next (cs_heap st ! length es) = first_of (us @ ws)"
    using d(3) dlist_head_next [OF d(1)] by simp_all
  have lg: "longest_ok model n es (cs_longest st) (cs_seqs st)" using less.prems by (simp add: search_inv_def)
  show ?case
  proof (cases "us @ ws = []")
    case True
    with search_end [OF hist, of model cs st] less.prems hd show ?thesis
      by (subst checkSingle_loop.simps) (auto simp: first_of_def)
  next
    case False
    have "addrs es (lin_ids es cs) = us @ ws" "\<forall>a\<in>set us. is_call_at es a"
      using less.prems by (auto simp: search_inv_def tried_def)
    with calls_prefix_proper [OF hist this] False obtain a ws' where ws: "ws = a # ws'" by (cases ws) auto
    have ne: "first_of (us @ ws) \<noteq> None" using False by (simp add: first_of_def split: list.splits)
    show ?thesis
    proof (cases "kill iter")
      case True
      then show ?thesis
        using hd ne lg by (subst checkSingle_loop.simps) (auto simp: checkSingle_body_def)
    next
      case alive: False
      from body_inv [OF hist total less.prems [unfolded ws], of computePartial] show ?thesis
      proof (elim disjE exE conjE)
        fix st' cs' us' ws''
        assume "checkSingle_body model computePartial (length es) False st = Inr (Inr st')"
          and "search_inv model n es cs' us' ws'' st'" and "weight es n cs' ws'' < weight es n cs (a # ws')"
        then show ?thesis
          using less.hyps [of cs' ws'' us' st' "Suc iter"] hd ne alive ws
          by (subst checkSingle_loop.simps) simp
      next
        assume "checkSingle_body model computePartial (length es) False st = Inr (Inl (False, cs_longest st, cs_seqs st))"
          and "\<not> linearizable model n es"
        then show ?thesis
          using hd ne alive lg by (subst checkSingle_loop.simps) auto
      qed
    qed
  qed
qed

lemma checkSingle_correct:
  assumes hist: "complete_history n es" and total: "steps_defined model n es"
  shows "\<exists>ok longest seqs. checkSingle model es computePartial kill = Some (Inr (ok, longest, seqs)) \<and>
       (ok \<longrightarrow> linearizable model n es) \<and> (\<not> ok \<and> (\<forall>k. \<not> kill k) \<longrightarrow> \<not> linearizable model n es) \<and>
       longest_ok model n es longest seqs"
proof -
  have n: "length es div 2 = n" using complete_length [OF hist] by simp
  have "addrs es {} = rev [0..<length es]" by (simp add: addrs_def)
  then have "search_inv model n es [] [] (rev [0..<length es])
      \<lparr>cs_heap = search_heap es, cs_entry = root_of es, cs_linearized = newBitset n,
       cs_cache = (\<lambda>_. []), cs_calls = [], cs_longest = replicate n None,
       cs_seqs = [], cs_state = Init model\<rparr>"
    using idbits.fresh [of n]
    by (simp add: search_inv_def root_of_first tried_def cache_ok_def longest_ok_def)
  from loop_correct [OF hist total this] show ?thesis unfolding checkSingle_start n by blast
qed

end

subsection \<open>Properties\<close>

text \<open>
  C3. The backtracking search decides linearizability. On a complete history, for a model whose
  equality on states implies that the same operations are accepted, \<open>checkSingle\<close> returns and does
  not panic whatever it reads from the kill flag; if it answers \<open>true\<close> the history is linearizable,
  if it answers \<open>false\<close> without having been killed it is not, and every prefix it recorded is a
  partial linearization that contains the operation it is recorded for.
\<close>

theorem checkSingle_decides:
  assumes "Equal model = Some eq"
    and "\<And>s t i out s'. eq s t \<Longrightarrow> Step model s i out = Inr (True, s') \<Longrightarrow>
           \<exists>t'. Step model t i out = Inr (True, t') \<and> eq s' t'"
    and "complete_history n es" and "steps_defined model n es"
  shows "\<exists>ok longest seqs. checkSingle model es computePartial kill = Some (Inr (ok, longest, seqs)) \<and>
    (ok \<longrightarrow> linearizable model n es) \<and> (\<not> ok \<and> (\<forall>k. \<not> kill k) \<longrightarrow> \<not> linearizable model n es) \<and>
    longest_ok model n es longest seqs"
proof -
  have "sequential_model model eq" using assms(1,2) by (rule sequential_model.intro)
  from sequential_model.checkSingle_correct [OF this assms(3,4)] show ?thesis .
qed

definition echo_model :: "(int, unit) Model" where
  "echo_model = \<lparr>Partition = None, PartitionEvent = None, Init = (), Step = (\<lambda>s i out. Inr (out = i + 1, s)),
     Equal = Some (=), DescribeOperation = None, DescribeState = None\<rparr>"

theorem checkSingle_decides_witness:
  "\<exists>ok longest seqs. checkSingle echo_model one_operation True (\<lambda>_. False) = Some (Inr (ok, longest, seqs)) \<and>
    ok = linearizable echo_model 1 one_operation \<and> longest_ok echo_model 1 one_operation longest seqs"
proof -
  have "complete_history 1 one_operation"
    by (auto simp: complete_history_def one_operation_def mk_entry_def is_call_def is_return_def
        intro!: exI [of _ "[]"])
  moreover have "steps_defined echo_model 1 one_operation" by (simp add: steps_defined_def echo_model_def)
  ultimately show ?thesis
    using checkSingle_decides [of echo_model "(=)" 1 one_operation True "\<lambda>_. False"]
    by (auto simp: echo_model_def)
qed

end
