(* ===== verification/Histories.thy ===== *)
theory Histories
  imports Linearizability
begin

text \<open>
  From what the client of the checker records to what the search works on. A list of operations
  with start and end times (\<open>makeEntries\<close>) and a list of call and return events (\<open>renumber\<close> and
  \<open>convertEntries\<close>) both become complete histories; on operations the order of the entries is the
  real-time order of the operations, whatever order the unstable sort gives to equal entries. The
  specification of linearizability on operations, without entries or ids, is stated here as well.
\<close>

subsection \<open>Linearizability of a list of operations\<close>

text \<open>
  The textbook definition: some order of the operations is accepted by the sequential model and
  never puts an operation before one that ended before it began.
\<close>

fun run_ops :: "('v, 's) Model \<Rightarrow> 's \<Rightarrow> 'v Operation list \<Rightarrow> 's option" where
  "run_ops model s [] = Some s"
| "run_ops model s (x # xs) =
     (case Step model s (op_Input x) (op_Output x) of
        Inr (True, s') \<Rightarrow> run_ops model s' xs | _ \<Rightarrow> None)"

definition real_time :: "'v Operation list \<Rightarrow> bool" where
  "real_time xs \<longleftrightarrow> sorted_wrt (\<lambda>a b. \<not> op_Return b < op_Call a) xs"

definition ops_linearizable :: "('v, 's) Model \<Rightarrow> 'v Operation list \<Rightarrow> bool" where
  "ops_linearizable model ops \<longleftrightarrow>
     (\<exists>xs. mset xs = mset ops \<and> real_time xs \<and> run_ops model (Init model) xs \<noteq> None)"

text \<open>Every operation ends no earlier than it begins.\<close>

definition timed :: "'v Operation list \<Rightarrow> bool" where
  "timed ops \<longleftrightarrow> (\<forall>x\<in>set ops. op_Call x \<le> op_Return x)"

subsection \<open>The entries of a list of operations\<close>

lemma two_in_list:
  assumes "x \<in> set ys" "y \<in> set ys" "x \<noteq> y"
  obtains us vs ws where "ys = us @ x # vs @ y # ws" | us vs ws where "ys = us @ y # vs @ x # ws"
proof -
  from assms(1) obtain us ws where ys: "ys = us @ x # ws" by (meson split_list)
  with assms consider "y \<in> set us" | "y \<in> set ws" by auto
  then show thesis
  proof cases
    case 1
    then obtain u1 u2 where "us = u1 @ y # u2" by (meson split_list)
    with ys that(2) [of u1 u2 ws] show thesis by simp
  next
    case 2
    then obtain u1 u2 where "ws = u1 @ y # u2" by (meson split_list)
    with ys that(1) [of us u1 u2] show thesis by simp
  qed
qed

definition call_entry :: "'v Operation list \<Rightarrow> nat \<Rightarrow> 'v entry" where
  "call_entry ops j =
     mk_entry callEntry (op_Input (ops ! j)) (int j) (op_Call (ops ! j)) (op_ClientId (ops ! j))"

definition return_entry :: "'v Operation list \<Rightarrow> nat \<Rightarrow> 'v entry" where
  "return_entry ops j =
     mk_entry returnEntry (op_Output (ops ! j)) (int j) (op_Return (ops ! j)) (op_ClientId (ops ! j))"

lemmas entry_defs = call_entry_def return_entry_def mk_entry_def is_call_def is_return_def

lemma makeEntries_from_append:
  "makeEntries_from i (xs @ ys) = makeEntries_from i xs @ makeEntries_from (i + int (length xs)) ys"
  by (induction xs arbitrary: i) (simp_all add: algebra_simps)

lemma makeEntries_from_eq:
  "makeEntries_from 0 ops = concat (map (\<lambda>j. [call_entry ops j, return_entry ops j]) [0..<length ops])"
proof (induction ops rule: rev_induct)
  case (snoc x ops)
  have eq: "map (\<lambda>j. [call_entry (ops @ [x]) j, return_entry (ops @ [x]) j]) [0..<length ops] =
      map (\<lambda>j. [call_entry ops j, return_entry ops j]) [0..<length ops]"
    by (simp add: call_entry_def return_entry_def nth_append)
  have last: "makeEntries_from (int (length ops)) [x] =
      [call_entry (ops @ [x]) (length ops), return_entry (ops @ [x]) (length ops)]"
    by (simp add: call_entry_def return_entry_def)
  show ?case
    using snoc.IH by (simp add: makeEntries_from_append last eq del: makeEntries_from.simps)
qed simp

lemma set_makeEntries_from:
  "set (makeEntries_from 0 ops) = call_entry ops ` {..<length ops} \<union> return_entry ops ` {..<length ops}"
  unfolding makeEntries_from_eq by auto

lemma distinct_makeEntries_from:
  "distinct (map (\<lambda>e. (e_kind e, e_id e)) (makeEntries_from i ops)) \<and>
   (\<forall>e\<in>set (makeEntries_from i ops). i \<le> e_id e)"
proof (induction ops arbitrary: i)
  case (Cons x ops)
  from Cons [of "i + 1"] show ?case
    by (force simp: mk_entry_def)
qed simp

text \<open>The interface to the standard library's sort, and what it makes of the entries.\<close>

locale entry_sort =
  fixes sortByTime :: "'v entry list \<Rightarrow> 'v entry list"
  assumes go_sort: "is_go_sort byTime_Less sortByTime"
begin

abbreviation entries :: "'v Operation list \<Rightarrow> 'v entry list" where
  "entries ops \<equiv> makeEntries sortByTime ops"

lemma sorted: "sort_result byTime_Less (makeEntries_from 0 ops) (entries ops)"
  using go_sort by (simp add: is_go_sort_def makeEntries_def)

lemma set_es:
  "set (entries ops) = call_entry ops ` {..<length ops} \<union> return_entry ops ` {..<length ops}"
  using sort_result_set [OF sorted] set_makeEntries_from by simp

lemma order_es: "entries ops = us @ a # vs @ b # ws \<Longrightarrow> \<not> byTime_Less b a"
  using sorted [of ops] by (auto simp: sort_result_def sorted_wrt_append)

lemma call_unique: "c \<in> set (entries ops) \<Longrightarrow> is_call i c \<Longrightarrow> i < length ops \<and> c = call_entry ops i"
  unfolding set_es by (auto simp: entry_defs)

lemma return_unique: "r \<in> set (entries ops) \<Longrightarrow> is_return i r \<Longrightarrow> i < length ops \<and> r = return_entry ops i"
  unfolding set_es by (auto simp: entry_defs)

lemma complete: "timed ops \<Longrightarrow> complete_history (length ops) (entries ops)"
proof -
  assume timed_ops: "timed ops"
  have "distinct (map (\<lambda>e. (e_kind e, e_id e)) (makeEntries_from 0 ops))"
    using distinct_makeEntries_from by blast
  moreover have "mset (map (\<lambda>e. (e_kind e, e_id e)) (entries ops)) =
      mset (map (\<lambda>e. (e_kind e, e_id e)) (makeEntries_from 0 ops))"
    using sort_result_mset [OF sorted] by simp
  ultimately have "distinct (map (\<lambda>e. (e_kind e, e_id e)) (entries ops))"
    by (metis mset_eq_imp_distinct_iff)
  moreover have "\<exists>us c vs r ws. entries ops = us @ c # vs @ r # ws \<and> is_call i c \<and> is_return i r"
    if i: "i < length ops" for i
  proof -
    have ops_i: "op_Call (ops ! i) \<le> op_Return (ops ! i)" using timed_ops i by (simp add: timed_def)
    have less: "byTime_Less (call_entry ops i) (return_entry ops i)"
      using ops_i by (auto simp: byTime_Less_def entry_defs)
    have mem: "call_entry ops i \<in> set (entries ops)" "return_entry ops i \<in> set (entries ops)" using i by (auto simp: set_es)
    have "call_entry ops i \<noteq> return_entry ops i" by (simp add: entry_defs)
    then obtain us vs ws where "entries ops = us @ call_entry ops i # vs @ return_entry ops i # ws"
      using two_in_list [OF mem] order_es less by metis
    moreover have "is_call i (call_entry ops i)" "is_return i (return_entry ops i)"
      by (simp_all add: entry_defs)
    ultimately show ?thesis by blast
  qed
  moreover have "\<forall>e\<in>set (entries ops). 0 \<le> e_id e \<and> e_id e < int (length ops)"
    unfolding set_es by (auto simp: entry_defs)
  ultimately show ?thesis by (simp add: complete_history_def)
qed

lemma precedes_real_time:
  assumes "i < length ops" "j < length ops"
  shows "precedes (entries ops) i j \<longleftrightarrow> op_Return (ops ! i) < op_Call (ops ! j)"
proof
  assume "precedes (entries ops) i j"
  then obtain us r vs c ws where es: "entries ops = us @ r # vs @ c # ws" and "is_return i r" "is_call j c"
    by (auto simp: precedes_def)
  then have "r = return_entry ops i" "c = call_entry ops j"
    using call_unique [of c ops j] return_unique [of r ops i] by auto
  with order_es [OF es] show "op_Return (ops ! i) < op_Call (ops ! j)"
    by (auto simp: byTime_Less_def entry_defs split: if_splits)
next
  assume lt: "op_Return (ops ! i) < op_Call (ops ! j)"
  have mem: "return_entry ops i \<in> set (entries ops)" "call_entry ops j \<in> set (entries ops)" using assms by (auto simp: set_es)
  have "byTime_Less (return_entry ops i) (call_entry ops j)" using lt by (simp add: byTime_Less_def entry_defs)
  moreover have "return_entry ops i \<noteq> call_entry ops j" by (simp add: entry_defs)
  ultimately obtain us vs ws where "entries ops = us @ return_entry ops i # vs @ call_entry ops j # ws"
    using two_in_list [OF mem] order_es by metis
  moreover have "is_return i (return_entry ops i)" "is_call j (call_entry ops j)"
    by (simp_all add: entry_defs)
  ultimately show "precedes (entries ops) i j" unfolding precedes_def by blast
qed

lemma entry_values:
  assumes "timed ops" and "i < length ops"
  shows "call_value (entries ops) i = op_Input (ops ! i)" and "return_value (entries ops) i = op_Output (ops ! i)"
proof -
  have "call_entry ops i \<in> set (entries ops)" "return_entry ops i \<in> set (entries ops)" using assms by (auto simp: set_es)
  then show "call_value (entries ops) i = op_Input (ops ! i)" "return_value (entries ops) i = op_Output (ops ! i)"
    using call_value_eq [OF complete [OF assms(1)], of "call_entry ops i" i]
      return_value_eq [OF complete [OF assms(1)], of "return_entry ops i" i] by (simp_all add: entry_defs)
qed

lemma run_values:
  "timed ops \<Longrightarrow> set is \<subseteq> {..<length ops} \<Longrightarrow> run model (entries ops) s is = run_ops model s (map ((!) ops) is)"
proof (induction "is" arbitrary: s)
  case (Cons i "is")
  then show ?case
    by (auto simp: op_step_def entry_values split: sum.splits prod.splits bool.splits)
qed simp

lemma sorted_values:
  assumes "set is \<subseteq> {..<length ops}"
  shows "sorted_wrt (\<lambda>i j. \<not> precedes (entries ops) j i) is \<longleftrightarrow> real_time (map ((!) ops) is)"
proof -
  have "sorted_wrt (\<lambda>i j. \<not> precedes (entries ops) j i) is \<longleftrightarrow>
      sorted_wrt (\<lambda>i j. \<not> op_Return (ops ! j) < op_Call (ops ! i)) is"
    using assms
    by (intro iffI; elim sorted_wrt_mono_rel [rotated]) (auto simp: precedes_real_time subset_iff)
  then show ?thesis by (simp add: real_time_def sorted_wrt_map)
qed

text \<open>The index-based definition on entries is the textbook definition on operations.\<close>

lemma linearizable_ops: "timed ops \<Longrightarrow> linearizable model (length ops) (entries ops) \<longleftrightarrow> ops_linearizable model ops"
proof (intro iffI)
  assume t: "timed ops" and "linearizable model (length ops) (entries ops)"
  then obtain js where js: "distinct js" "set js = {..<length ops}" "sorted_wrt (\<lambda>i j. \<not> precedes (entries ops) j i) js"
    "run model (entries ops) (Init model) js \<noteq> None"
    by (auto simp: linearizable_def completable_def linearization_def)
  then have "mset js = mset [0..<length ops]" unfolding mset_upt_iff by simp
  then have "mset (map ((!) ops) js) = mset (map ((!) ops) [0..<length ops])" by simp
  then have "mset (map ((!) ops) js) = mset ops" by (simp only: map_nth)
  with js run_values [OF t, of js model] sorted_values [of js ops] show "ops_linearizable model ops"
    unfolding ops_linearizable_def by (metis order_refl)
next
  assume t: "timed ops" and "ops_linearizable model ops"
  then obtain xs where xs: "mset xs = mset ops" "real_time xs" "run_ops model (Init model) xs \<noteq> None"
    by (auto simp: ops_linearizable_def)
  have "mset xs = mset (map ((!) ops) [0..<length ops])" by (simp only: map_nth xs(1))
  then obtain js where "mset js = mset [0..<length ops]" and eq: "xs = map ((!) ops) js"
    using mset_map_ex by blast
  then have "distinct js" and set_js: "set js = {..<length ops}" unfolding mset_upt_iff by simp_all
  with set_js xs run_values [OF t, of js model] sorted_values [of js ops] eq
  show "linearizable model (length ops) (entries ops)"
    unfolding linearizable_def completable_def linearization_def by (intro exI [of _ js]) auto
qed

end

lemma byTime_Less_sort: "is_go_sort byTime_Less (sort_by byTime_Less)"
  by (rule sort_by_is_go_sort)
    (auto simp: byTime_Less_def split: if_splits, (metis entryKind.exhaust)+)

interpretation insertion: entry_sort "sort_by byTime_Less"
  by unfold_locales (rule byTime_Less_sort)

subsection \<open>The entries of a list of events\<close>

text \<open>Each operation is called once and returns once, later.\<close>

definition complete_events :: "'v Event list \<Rightarrow> bool" where
  "complete_events evs \<longleftrightarrow>
     distinct (map (\<lambda>v. (ev_Kind v, ev_Id v)) evs) \<and>
     (\<forall>i\<in>ev_Id ` set evs. \<exists>us c vs r ws. evs = us @ c # vs @ r # ws \<and>
        ev_Kind c = CallEvent \<and> ev_Id c = i \<and> ev_Kind r = ReturnEvent \<and> ev_Id r = i)"

definition relabel :: "(int \<Rightarrow> int) \<Rightarrow> 'v Event \<Rightarrow> 'v Event" where
  "relabel f v = v\<lparr>ev_Id := f (ev_Id v)\<rparr>"

text \<open>A partial numbering that uses exactly the first \<open>i\<close> numbers.\<close>

definition numbering :: "(int \<rightharpoonup> int) \<Rightarrow> int \<Rightarrow> bool" where
  "numbering m i \<longleftrightarrow> 0 \<le> i \<and> inj_on m (dom m) \<and> ran m = {0..<i}"

lemma numbering_fresh:
  assumes "numbering m i" and "m k = None"
  shows "numbering (m(k \<mapsto> i)) (i + 1)"
proof -
  have "m x \<noteq> Some i" for x using assms(1) by (auto simp: numbering_def ran_def set_eq_iff)
  then have "inj_on (m(k \<mapsto> i)) (insert k (dom m))"
    using assms by (auto simp: numbering_def inj_on_def)
  moreover have "ran (m(k \<mapsto> i)) = {0..<i + 1}" using assms by (auto simp: numbering_def)
  ultimately show ?thesis using assms(1) by (simp add: numbering_def)
qed

lemma renumber_from_relabel:
  "numbering m i \<Longrightarrow>
   \<exists>m' i'. m \<subseteq>\<^sub>m m' \<and> dom m' = dom m \<union> ev_Id ` set evs \<and> numbering m' i' \<and>
     renumber_from m i evs = map (relabel (the \<circ> m')) evs"
proof (induction evs arbitrary: m i)
  case Nil
  then show ?case by (intro exI [of _ m] exI [of _ i]) simp
next
  case (Cons v evs)
  show ?case
  proof (cases "m (ev_Id v)")
    case (Some r)
    from Cons.IH [OF Cons.prems] obtain m' i' where m': "m \<subseteq>\<^sub>m m'"
      "dom m' = dom m \<union> ev_Id ` set evs" "numbering m' i'"
      "renumber_from m i evs = map (relabel (the \<circ> m')) evs" by blast
    moreover have "m' (ev_Id v) = Some r" using m'(1) Some by (metis domI map_le_def)
    ultimately show ?thesis
      using Some by (intro exI [of _ m'] exI [of _ i']) (auto simp: relabel_def)
  next
    case None
    from Cons.IH [OF numbering_fresh [OF Cons.prems None]] obtain m' i'
      where m': "m(ev_Id v \<mapsto> i) \<subseteq>\<^sub>m m'"
      "dom m' = dom (m(ev_Id v \<mapsto> i)) \<union> ev_Id ` set evs" "numbering m' i'"
      "renumber_from (m(ev_Id v \<mapsto> i)) (i + 1) evs = map (relabel (the \<circ> m')) evs" by blast
    moreover have "m' (ev_Id v) = Some i" using m'(1) by (metis domI fun_upd_same map_le_def)
    moreover have "m \<subseteq>\<^sub>m m'"
      unfolding map_le_def
    proof
      fix x assume "x \<in> dom m"
      with None have "x \<noteq> ev_Id v" "x \<in> dom (m(ev_Id v \<mapsto> i))" by auto
      with m'(1) show "m x = m' x" unfolding map_le_def by (metis fun_upd_other)
    qed
    ultimately show ?thesis
      using None by (intro exI [of _ m'] exI [of _ i']) (auto simp: relabel_def)
  qed
qed

lemma renumber_relabel:
  obtains f where "inj_on f (ev_Id ` set evs)" "f ` ev_Id ` set evs = {0..<int (card (ev_Id ` set evs))}"
    "renumber evs = map (relabel f) evs"
proof -
  have "numbering Map.empty 0" by (simp add: numbering_def)
  from renumber_from_relabel [OF this, of evs] obtain m' i'
    where m': "dom m' = ev_Id ` set evs" "numbering m' i'" "renumber evs = map (relabel (the \<circ> m')) evs"
    by (auto simp: renumber_def)
  have inj: "inj_on (the \<circ> m') (ev_Id ` set evs)"
  proof (rule inj_onI)
    fix x y assume "x \<in> ev_Id ` set evs" "y \<in> ev_Id ` set evs" and eq: "(the \<circ> m') x = (the \<circ> m') y"
    then obtain a b where "m' x = Some a" "m' y = Some b" unfolding m'(1) [symmetric] by blast
    with eq have "m' x = m' y" "x \<in> dom m'" "y \<in> dom m'" by auto
    with m'(2) show "x = y" by (auto simp: numbering_def dest: inj_onD)
  qed
  have img: "(the \<circ> m') ` ev_Id ` set evs = {0..<i'}"
  proof -
    have "(the \<circ> m') ` dom m' = ran m'" by (force simp: ran_def image_iff)
    with m'(1,2) show ?thesis by (simp add: numbering_def)
  qed
  have "card {0..<i'} = card (ev_Id ` set evs)" using card_image [OF inj] img by simp
  then have "i' = int (card (ev_Id ` set evs))" using m'(2) by (auto simp: numbering_def)
  with inj img m'(3) that show thesis by blast
qed

lemma convertEntries_from_append:
  "convertEntries_from i (xs @ ys) =
     convertEntries_from i xs @ convertEntries_from (i + int (length xs)) ys"
  by (induction xs arbitrary: i) (simp_all add: Let_def algebra_simps)

lemma convertEntries_keys:
  "map (\<lambda>e. (e_kind e = returnEntry, e_id e)) (convertEntries_from i evs) =
   map (\<lambda>v. (ev_Kind v = ReturnEvent, ev_Id v)) evs"
  by (induction evs arbitrary: i) (auto simp: Let_def mk_entry_def)

lemma distinct_keys:
  "distinct (map (\<lambda>e. (e_kind e, e_id e)) es) \<longleftrightarrow>
   distinct (map (\<lambda>e. (e_kind e = returnEntry, e_id e)) es)"
  "distinct (map (\<lambda>v. (ev_Kind v, ev_Id v)) evs) \<longleftrightarrow>
   distinct (map (\<lambda>v. (ev_Kind v = ReturnEvent, ev_Id v)) evs)"
proof -
  have inj1: "inj (\<lambda>(k, i :: int). (k = returnEntry, i))"
    by (auto simp: inj_def) (metis entryKind.exhaust)+
  have inj2: "inj (\<lambda>(k, i :: int). (k = ReturnEvent, i))"
    by (auto simp: inj_def) (metis EventKind.exhaust)+
  have "distinct (map (\<lambda>(k, i :: int). (k = returnEntry, i)) (map (\<lambda>e. (e_kind e, e_id e)) es)) \<longleftrightarrow>
      distinct (map (\<lambda>e. (e_kind e, e_id e)) es)"
    using inj_on_subset [OF inj1] unfolding distinct_map [of _ "map _ es"] by blast
  then show "distinct (map (\<lambda>e. (e_kind e, e_id e)) es) \<longleftrightarrow>
      distinct (map (\<lambda>e. (e_kind e = returnEntry, e_id e)) es)" by (simp add: comp_def)
  have "distinct (map (\<lambda>(k, i :: int). (k = ReturnEvent, i)) (map (\<lambda>v. (ev_Kind v, ev_Id v)) evs)) \<longleftrightarrow>
      distinct (map (\<lambda>v. (ev_Kind v, ev_Id v)) evs)"
    using inj_on_subset [OF inj2] unfolding distinct_map [of _ "map _ evs"] by blast
  then show "distinct (map (\<lambda>v. (ev_Kind v, ev_Id v)) evs) \<longleftrightarrow>
      distinct (map (\<lambda>v. (ev_Kind v = ReturnEvent, ev_Id v)) evs)" by (simp add: comp_def)
qed

lemma set_convertEntries_ids: "e_id ` set (convertEntries_from i evs) = ev_Id ` set evs"
  by (induction evs arbitrary: i) (auto simp: Let_def mk_entry_def)

lemma convertEntries_complete:
  assumes ev: "complete_events evs"
  shows "complete_history (card (ev_Id ` set evs)) (convertEntries (renumber evs))"
proof -
  obtain f where f: "inj_on f (ev_Id ` set evs)" "f ` ev_Id ` set evs = {0..<int (card (ev_Id ` set evs))}"
    "renumber evs = map (relabel f) evs" by (rule renumber_relabel)
  let ?es = "convertEntries_from 0 (map (relabel f) evs)"
  have "distinct (map (\<lambda>v. (ev_Kind v, ev_Id v)) (map (relabel f) evs))"
    using ev f(1) by (auto simp: complete_events_def distinct_map inj_on_def relabel_def)
  then have "distinct (map (\<lambda>e. (e_kind e, e_id e)) ?es)"
    unfolding distinct_keys convertEntries_keys .
  moreover have "\<forall>e\<in>set ?es. 0 \<le> e_id e \<and> e_id e < int (card (ev_Id ` set evs))"
  proof
    fix e assume "e \<in> set ?es"
    then have "e_id e \<in> e_id ` set ?es" by (rule imageI)
    also have "\<dots> = f ` ev_Id ` set evs"
      unfolding set_convertEntries_ids by (auto simp: relabel_def image_image)
    also note f(2)
    finally show "0 \<le> e_id e \<and> e_id e < int (card (ev_Id ` set evs))" by simp
  qed
  moreover have "\<exists>us c vs r ws. ?es = us @ c # vs @ r # ws \<and> is_call i c \<and> is_return i r"
    if i: "i < card (ev_Id ` set evs)" for i
  proof -
    have "int i \<in> f ` ev_Id ` set evs" using f(2) i by simp
    then obtain k where k: "k \<in> ev_Id ` set evs" "f k = int i" by (metis imageE)
    with ev obtain us c vs r ws where evs: "evs = us @ c # vs @ r # ws"
      and "ev_Kind c = CallEvent" "ev_Id c = k" "ev_Kind r = ReturnEvent" "ev_Id r = k"
      unfolding complete_events_def by metis
    with k(2) show ?thesis
      unfolding evs map_append list.map convertEntries_from_append convertEntries_from.simps Let_def
      by (auto simp: relabel_def is_call_def is_return_def mk_entry_def intro!: exI)
  qed
  ultimately show ?thesis by (simp add: complete_history_def convertEntries_def f(3))
qed

subsection \<open>Properties\<close>

text \<open>
  C29. The entries of a list of operations that each end no earlier than they begin form a complete
  history, for every sort that meets the contract of \<open>sort.Sort\<close>; an operation precedes another in
  it exactly when it ended strictly before the other began; and linearizability of the entries is
  linearizability of the operations.
\<close>

theorem makeEntries_real_time:
  assumes "is_go_sort byTime_Less sortByTime" and "timed ops"
  shows "complete_history (length ops) (makeEntries sortByTime ops) \<and>
    (\<forall>i<length ops. \<forall>j<length ops. precedes (makeEntries sortByTime ops) i j \<longleftrightarrow>
       op_Return (ops ! i) < op_Call (ops ! j)) \<and>
    (linearizable model (length ops) (makeEntries sortByTime ops) \<longleftrightarrow> ops_linearizable model ops)"
proof -
  have es: "entry_sort sortByTime" using assms(1) by (rule entry_sort.intro)
  show ?thesis
    using entry_sort.complete [OF es assms(2)] entry_sort.precedes_real_time [OF es]
      entry_sort.linearizable_ops [OF es assms(2)] by blast
qed

definition two_operations :: "int Operation list" where
  "two_operations =
     [\<lparr>op_ClientId = 0, op_Input = 0, op_Call = 1, op_Output = 0, op_Return = 1\<rparr>,
      \<lparr>op_ClientId = 1, op_Input = 0, op_Call = 1, op_Output = 0, op_Return = 2\<rparr>]"

theorem makeEntries_real_time_witness:
  "complete_history (length two_operations) (makeEntries (sort_by byTime_Less) two_operations)"
proof -
  have "timed two_operations" by (simp add: timed_def two_operations_def)
  from makeEntries_real_time [OF byTime_Less_sort this] show ?thesis by blast
qed

text \<open>
  Renumbering events: the ids are replaced by an injective numbering with the first natural
  numbers, nothing else changes, and when every operation is called once and then returns once,
  the entries made of the renumbered events are a complete history.
\<close>

lemma renumber_complete:
  assumes "complete_events events"
  shows "(\<exists>f. inj_on f (ev_Id ` set events) \<and> renumber events = map (relabel f) events) \<and>
    complete_history (card (ev_Id ` set events)) (convertEntries (renumber events))"
proof -
  obtain f where "inj_on f (ev_Id ` set events)" "renumber events = map (relabel f) events"
    by (rule renumber_relabel)
  with convertEntries_complete [OF assms] show ?thesis by metis
qed

end
