(* ===== verification/Porcupine.thy ===== *)
theory Porcupine
  imports Checker_Correct Histories
begin

text \<open>
  The rest of \<open>porcupine/checker.go\<close> and the entry points of \<open>porcupine/porcupine.go\<close>: default
  functions of a model, the parallel check of all partitions with its early exit, its timeout and
  its collection of partial linearizations, and the functions a client calls.
\<close>

subsection \<open>Defaults\<close>

definition fillDefault ::
    "('v \<Rightarrow> string) \<Rightarrow> ('s \<Rightarrow> string) \<Rightarrow> ('v, 's) Model \<Rightarrow> ('v, 's) Model" where
  "fillDefault fmtv fmts model =
     (let m1 = (if Partition model = None then model\<lparr>Partition := Some NoPartition\<rparr> else model);
          m2 = (if PartitionEvent m1 = None then m1\<lparr>PartitionEvent := Some NoPartitionEvent\<rparr> else m1);
          m3 = (if Equal m2 = None then m2\<lparr>Equal := Some ShallowEqual\<rparr> else m2);
          m4 = (if DescribeOperation m3 = None
                then m3\<lparr>DescribeOperation := Some (DefaultDescribeOperation fmtv)\<rparr> else m3);
          m5 = (if DescribeState m4 = None
                then m4\<lparr>DescribeState := Some (DefaultDescribeState fmts)\<rparr> else m4)
      in m5)"

subsection \<open>The parallel check\<close>

text \<open>
  One goroutine per partition runs \<open>checkSingle\<close>; the main loop selects between their results and
  a timer. A schedule is the order in which the communications become ready, together with what a
  search that outlives the main loop reads from the kill flag (\<open>sc_kill i k\<close>: what iteration \<open>k\<close> of
  the search of partition \<open>i\<close> reads) and the order in which a Go map is traversed.
\<close>

datatype arrival = Received nat | TimerFired

record schedule =
  sc_arrivals :: "arrival list"
  sc_kill :: "nat \<Rightarrow> nat \<Rightarrow> bool"
  sc_order :: "nat list \<Rightarrow> nat list"

record 'v linearizationInfo =
  li_history :: "'v entry list list"
  li_partialLinearizations :: "int list list list"

text \<open>
  The loop around \<open>select\<close>: the number of results received, the conjunction of the results, and
  the slots of \<open>longest\<close>. The flag is stored only when the loop is left, so a search whose result
  the loop receives has read zero in every iteration. The loop blocks (\<open>None\<close>) when nothing
  more becomes ready; a timer exists only for a positive timeout. The result also says whether the
  loop timed out and what becomes ready after it.
\<close>

fun select_loop ::
    "('v, 's) Model \<Rightarrow> 'v entry list list \<Rightarrow> bool \<Rightarrow> int \<Rightarrow> arrival list \<Rightarrow> nat \<Rightarrow> bool \<Rightarrow> longest list
     \<Rightarrow> (nat \<times> bool \<times> bool \<times> longest list \<times> arrival list) go_run" where
  "select_loop model history computeInfo timeout [] cnt ok longest = None"
| "select_loop model history computeInfo timeout (Received i # evs) cnt ok longest =
     (if i < length history then
        run_bind (checkSingle model (history ! i) computeInfo (\<lambda>_. False)) (\<lambda>(result, l).
          let longest' = longest[i := l]; cnt' = cnt + 1; ok' = (ok \<and> result) in
          if \<not> ok' \<and> \<not> computeInfo then Some (Inr (cnt', ok', False, longest', evs))
          else if cnt' \<ge> length history then Some (Inr (cnt', ok', False, longest', evs))
          else select_loop model history computeInfo timeout evs cnt' ok' longest')
      else None)"
| "select_loop model history computeInfo timeout (TimerFired # evs) cnt ok longest =
     (if timeout > 0 then Some (Inr (cnt, ok, True, longest, evs))
      else select_loop model history computeInfo timeout evs cnt ok longest)"

text \<open>The loop that waits for the remaining goroutines, which may now read the flag as set.\<close>

fun await_rest ::
    "('v, 's) Model \<Rightarrow> 'v entry list list \<Rightarrow> (nat \<Rightarrow> nat \<Rightarrow> bool) \<Rightarrow> arrival list \<Rightarrow> nat \<Rightarrow> longest list
     \<Rightarrow> longest list go_run" where
  "await_rest model history kill [] cnt longest =
     (if cnt < length history then None else Some (Inr longest))"
| "await_rest model history kill (a # evs) cnt longest =
     (if cnt < length history then
        (case a of
           Received i \<Rightarrow>
             if i < length history then
               run_bind (checkSingle model (history ! i) True (kill i)) (\<lambda>(result, l).
                 await_rest model history kill evs (cnt + 1) (longest[i := l]))
             else None
         | TimerFired \<Rightarrow> await_rest model history kill evs cnt longest)
      else Some (Inr longest))"

text \<open>The set of distinct pointers in one slot of \<open>longest\<close>, and the slices they point to.\<close>

definition unique_partials :: "(nat list \<Rightarrow> nat list) \<Rightarrow> longest \<Rightarrow> int list list" where
  "unique_partials order l =
     map (\<lambda>k. snd l ! k) (order (remdups (concat (map (\<lambda>v. case v of None \<Rightarrow> [] | Some q \<Rightarrow> [q]) (fst l)))))"

definition checkParallel ::
    "('v, 's) Model \<Rightarrow> 'v entry list list \<Rightarrow> bool \<Rightarrow> int \<Rightarrow> schedule
     \<Rightarrow> (CheckResult \<times> 'v linearizationInfo) go_run" where
  "checkParallel model history computeInfo timeout sch =
     run_bind (select_loop model history computeInfo timeout (sc_arrivals sch) 0 True
                 (replicate (length history) ([], [])))
       (\<lambda>(cnt, ok, timedOut, longest, rest).
     run_bind
       (if computeInfo then
          run_bind (await_rest model history (sc_kill sch) rest cnt longest) (\<lambda>longest'.
            Some (Inr \<lparr>li_history = history,
                       li_partialLinearizations = map (unique_partials (sc_order sch)) longest'\<rparr>))
        else Some (Inr \<lparr>li_history = [], li_partialLinearizations = []\<rparr>)) (\<lambda>info.
     let result = (if \<not> ok then Illegal else if timedOut then Unknown else Ok)
     in Some (Inr (result, info))))"

definition checkEvents ::
    "('v \<Rightarrow> string) \<Rightarrow> ('s \<Rightarrow> string) \<Rightarrow> schedule \<Rightarrow> ('v, 's) Model \<Rightarrow> 'v Event list \<Rightarrow> bool \<Rightarrow> int
     \<Rightarrow> (CheckResult \<times> 'v linearizationInfo) go_run" where
  "checkEvents fmtv fmts sch model0 history verbose timeout =
     (let model = fillDefault fmtv fmts model0 in
      run_bind (case PartitionEvent model of None \<Rightarrow> Some (Inl NilDereference)
                | Some part \<Rightarrow> Some (part history)) (\<lambda>partitions.
      let l = map (\<lambda>subhistory. convertEntries (renumber subhistory)) partitions
      in checkParallel model l verbose timeout sch))"

definition checkOperations ::
    "('v entry list \<Rightarrow> 'v entry list) \<Rightarrow> ('v \<Rightarrow> string) \<Rightarrow> ('s \<Rightarrow> string) \<Rightarrow> schedule
     \<Rightarrow> ('v, 's) Model \<Rightarrow> 'v Operation list \<Rightarrow> bool \<Rightarrow> int
     \<Rightarrow> (CheckResult \<times> 'v linearizationInfo) go_run" where
  "checkOperations sortByTime fmtv fmts sch model0 history verbose timeout =
     (let model = fillDefault fmtv fmts model0 in
      run_bind (case Partition model of None \<Rightarrow> Some (Inl NilDereference)
                | Some part \<Rightarrow> Some (part history)) (\<lambda>partitions.
      let l = map (makeEntries sortByTime) partitions
      in checkParallel model l verbose timeout sch))"

subsection \<open>Entry points\<close>

definition CheckOperations ::
    "('v entry list \<Rightarrow> 'v entry list) \<Rightarrow> ('v \<Rightarrow> string) \<Rightarrow> ('s \<Rightarrow> string) \<Rightarrow> schedule
     \<Rightarrow> ('v, 's) Model \<Rightarrow> 'v Operation list \<Rightarrow> bool go_run" where
  "CheckOperations sortByTime fmtv fmts sch model history =
     run_bind (checkOperations sortByTime fmtv fmts sch model history False 0)
       (\<lambda>(res, _). Some (Inr (res = Ok)))"

definition CheckOperationsTimeout ::
    "('v entry list \<Rightarrow> 'v entry list) \<Rightarrow> ('v \<Rightarrow> string) \<Rightarrow> ('s \<Rightarrow> string) \<Rightarrow> schedule
     \<Rightarrow> ('v, 's) Model \<Rightarrow> 'v Operation list \<Rightarrow> int \<Rightarrow> CheckResult go_run" where
  "CheckOperationsTimeout sortByTime fmtv fmts sch model history timeout =
     run_bind (checkOperations sortByTime fmtv fmts sch model history False timeout)
       (\<lambda>(res, _). Some (Inr res))"

definition CheckOperationsVerbose ::
    "('v entry list \<Rightarrow> 'v entry list) \<Rightarrow> ('v \<Rightarrow> string) \<Rightarrow> ('s \<Rightarrow> string) \<Rightarrow> schedule
     \<Rightarrow> ('v, 's) Model \<Rightarrow> 'v Operation list \<Rightarrow> int \<Rightarrow> (CheckResult \<times> 'v linearizationInfo) go_run" where
  "CheckOperationsVerbose sortByTime fmtv fmts sch model history timeout =
     checkOperations sortByTime fmtv fmts sch model history True timeout"

definition CheckEvents ::
    "('v \<Rightarrow> string) \<Rightarrow> ('s \<Rightarrow> string) \<Rightarrow> schedule \<Rightarrow> ('v, 's) Model \<Rightarrow> 'v Event list \<Rightarrow> bool go_run" where
  "CheckEvents fmtv fmts sch model history =
     run_bind (checkEvents fmtv fmts sch model history False 0) (\<lambda>(res, _). Some (Inr (res = Ok)))"

definition CheckEventsTimeout ::
    "('v \<Rightarrow> string) \<Rightarrow> ('s \<Rightarrow> string) \<Rightarrow> schedule \<Rightarrow> ('v, 's) Model \<Rightarrow> 'v Event list \<Rightarrow> int
     \<Rightarrow> CheckResult go_run" where
  "CheckEventsTimeout fmtv fmts sch model history timeout =
     run_bind (checkEvents fmtv fmts sch model history False timeout) (\<lambda>(res, _). Some (Inr res))"

definition CheckEventsVerbose ::
    "('v \<Rightarrow> string) \<Rightarrow> ('s \<Rightarrow> string) \<Rightarrow> schedule \<Rightarrow> ('v, 's) Model \<Rightarrow> 'v Event list \<Rightarrow> int
     \<Rightarrow> (CheckResult \<times> 'v linearizationInfo) go_run" where
  "CheckEventsVerbose fmtv fmts sch model history timeout =
     checkEvents fmtv fmts sch model history True timeout"

subsection \<open>Schedules\<close>

fun received :: "arrival list \<Rightarrow> nat list" where
  "received [] = []"
| "received (Received i # evs) = i # received evs"
| "received (TimerFired # evs) = received evs"

text \<open>
  A fair schedule of \<open>n\<close> goroutines: each sends its result exactly once, and a traversal of a map
  visits every key once.
\<close>

definition schedule_ok :: "nat \<Rightarrow> schedule \<Rightarrow> bool" where
  "schedule_ok n sch \<longleftrightarrow>
     mset (received (sc_arrivals sch)) = mset [0..<n] \<and> (\<forall>xs. mset (sc_order sch xs) = mset xs)"

definition partials_ok ::
    "('v, 's) Model \<Rightarrow> nat \<Rightarrow> 'v entry list \<Rightarrow> int list list \<Rightarrow> bool" where
  "partials_ok model n es ps \<longleftrightarrow>
     (\<forall>p\<in>set ps. \<exists>is. p = map int is \<and> partial_linearization model n es is)"

lemma unique_partials_ok:
  assumes "longest_ok model n es (fst l) (snd l)" and "\<forall>xs. mset (order xs) = mset xs"
  shows "partials_ok model n es (unique_partials order l)"
proof -
  have set_order: "set (order xs) = set xs" for xs using assms(2) by (metis mset_eq_setD)
  show ?thesis
    unfolding partials_ok_def unique_partials_def
  proof
    fix p assume "p \<in> set (map (\<lambda>k. snd l ! k) (order (remdups (concat
      (map (\<lambda>v. case v of None \<Rightarrow> [] | Some q \<Rightarrow> [q]) (fst l))))))"
    then obtain q where q: "Some q \<in> set (fst l)" and p: "p = snd l ! q"
      by (auto simp: set_order split: option.splits)
    then obtain i where "i < length (fst l)" "fst l ! i = Some q" by (auto simp: in_set_conv_nth)
    with assms(1) p show "\<exists>is. p = map int is \<and> partial_linearization model n es is"
      by (auto simp: longest_ok_def)
  qed
qed

subsection \<open>Correctness of the parallel check\<close>

lemma fillDefault_keeps [simp]:
  "Init (fillDefault fmtv fmts model) = Init model" "Step (fillDefault fmtv fmts model) = Step model"
  by (simp_all add: fillDefault_def Let_def)

lemma run_ops_fillDefault [simp]: "run_ops (fillDefault fmtv fmts model) s xs = run_ops model s xs"
  by (induction xs arbitrary: s) (auto split: sum.splits bool.splits)

lemma run_fillDefault [simp]: "run (fillDefault fmtv fmts model) es s is = run model es s is"
  by (induction "is" arbitrary: s) (auto simp: op_step_def split: option.splits)

lemma ops_linearizable_fillDefault [simp]:
  "ops_linearizable (fillDefault fmtv fmts model) xs \<longleftrightarrow> ops_linearizable model xs"
  by (simp add: ops_linearizable_def)

definition histories_ok ::
    "('v, 's) Model \<Rightarrow> (nat \<Rightarrow> nat) \<Rightarrow> 'v entry list list \<Rightarrow> bool" where
  "histories_ok model ns history \<longleftrightarrow>
     (\<forall>i<length history. complete_history (ns i) (history ! i) \<and> steps_defined model (ns i) (history ! i))"

text \<open>The step function of the model is defined on the operations of a history.\<close>

definition steps_total :: "('v, 's) Model \<Rightarrow> 'v Operation list \<Rightarrow> bool" where
  "steps_total model ops \<longleftrightarrow>
     (\<forall>x\<in>set ops. \<forall>s. \<exists>b s'. Step model s (op_Input x) (op_Output x) = Inr (b, s'))"

text \<open>What is known once the results of the partitions in \<open>D\<close> have been received.\<close>

definition collected ::
    "('v, 's) Model \<Rightarrow> (nat \<Rightarrow> nat) \<Rightarrow> 'v entry list list \<Rightarrow> nat set \<Rightarrow> arrival list \<Rightarrow> nat
     \<Rightarrow> longest list \<Rightarrow> bool" where
  "collected model ns history D evs cnt longest \<longleftrightarrow>
     D \<subseteq> {..<length history} \<and> cnt = card D \<and> distinct (received evs) \<and>
     set (received evs) = {..<length history} - D \<and> length longest = length history \<and>
     (\<forall>i\<in>D. longest_ok model (ns i) (history ! i) (fst (longest ! i)) (snd (longest ! i)))"

lemma collected_receive:
  assumes "collected model ns history D (Received i # evs) cnt longest"
    and "longest_ok model (ns i) (history ! i) lg seqs"
  shows "i < length history" and "collected model ns history (insert i D) evs (cnt + 1) (longest[i := (lg, seqs)])"
proof -
  have i: "i < length history" "i \<notin> D" and D: "D \<subseteq> {..<length history}"
    and s: "set (received evs) = {..<length history} - insert i D"
    using assms(1) by (auto simp: collected_def)
  have "finite D" using D finite_subset by blast
  then have "card (insert i D) = Suc (card D)" using i(2) by simp
  then show "collected model ns history (insert i D) evs (cnt + 1) (longest[i := (lg, seqs)])"
    using assms i D s unfolding collected_def by (auto simp: nth_update_if)
  show "i < length history" by (rule i(1))
qed

lemma collected_all:
  assumes "collected model ns history D evs cnt longest" and "cnt \<ge> length history"
  shows "D = {..<length history}"
  using assms card_subset_eq [of "{..<length history}" D] card_mono [of "{..<length history}" D]
  by (simp add: collected_def)

lemma collected_none_left:
  assumes "collected model ns history D evs cnt longest" and "received evs = []"
  shows "cnt = length history"
  using assms by (auto simp: collected_def dest: subset_antisym)

context sequential_model
begin

lemma select_loop_correct:
  assumes H: "histories_ok model ns history"
  shows "collected model ns history D evs cnt longest \<Longrightarrow> cnt < length history \<Longrightarrow>
    ok = (\<forall>i\<in>D. linearizable model (ns i) (history ! i)) \<Longrightarrow>
    \<exists>cnt' ok' timedOut longest' rest D'.
      select_loop model history computeInfo timeout evs cnt ok longest =
        Some (Inr (cnt', ok', timedOut, longest', rest)) \<and>
      collected model ns history D' rest cnt' longest' \<and>
      (\<not> ok' \<longrightarrow> (\<exists>i<length history. \<not> linearizable model (ns i) (history ! i))) \<and>
      (ok' \<and> \<not> timedOut \<longrightarrow> (\<forall>i<length history. linearizable model (ns i) (history ! i))) \<and>
      (timedOut \<longrightarrow> timeout > 0 \<and> TimerFired \<in> set evs)"
proof (induction evs arbitrary: D cnt ok longest)
  case Nil
  with collected_none_left [OF Nil.prems(1)] show ?case by simp
next
  case (Cons a evs)
  show ?case
  proof (cases a)
    case (Received i)
    note pre = Cons.prems(1) [unfolded Received]
    have i: "i < length history" using pre by (auto simp: collected_def)
    with H checkSingle_correct [of "ns i" "history ! i" computeInfo "\<lambda>_. False"] obtain result lg seqs
      where r: "checkSingle model (history ! i) computeInfo (\<lambda>_. False) = Some (Inr (result, lg, seqs))"
      "result = linearizable model (ns i) (history ! i)" "longest_ok model (ns i) (history ! i) lg seqs"
      by (auto simp: histories_ok_def)
    note post = collected_receive(2) [OF pre r(3)]
    have ok': "(ok \<and> result) = (\<forall>j\<in>insert i D. linearizable model (ns j) (history ! j))"
      using Cons.prems(3) r(2) by auto
    have D: "insert i D \<subseteq> {..<length history}" using post by (auto simp: collected_def)
    show ?thesis
    proof (cases "\<not> (ok \<and> result) \<and> \<not> computeInfo \<or> cnt + 1 \<ge> length history")
      case True
      have all: "(ok \<and> result) \<longrightarrow> insert i D = {..<length history}"
        using True collected_all [OF post] by auto
      have "select_loop model history computeInfo timeout (a # evs) cnt ok longest =
          Some (Inr (cnt + 1, ok \<and> result, False, longest[i := (lg, seqs)], evs))"
        using True i r(1) by (auto simp: Received Let_def)
      moreover have "\<not> (ok \<and> result) \<longrightarrow> (\<exists>j<length history. \<not> linearizable model (ns j) (history ! j))"
        using ok' D by blast
      moreover have "(ok \<and> result) \<longrightarrow> (\<forall>j<length history. linearizable model (ns j) (history ! j))"
        using ok' all by blast
      ultimately show ?thesis using post by blast
    next
      case False
      then have "select_loop model history computeInfo timeout (a # evs) cnt ok longest =
          select_loop model history computeInfo timeout evs (cnt + 1) (ok \<and> result) (longest[i := (lg, seqs)])"
        using i r(1) by (auto simp: Received Let_def)
      moreover have "TimerFired \<in> set (a # evs) \<longleftrightarrow> TimerFired \<in> set evs" by (simp add: Received)
      moreover have "cnt + 1 < length history" using False by simp
      ultimately show ?thesis using Cons.IH [OF post _ ok'] by presburger
    qed
  next
    case TimerFired
    then have c: "collected model ns history D evs cnt longest" using Cons.prems(1) by (simp add: collected_def)
    show ?thesis
    proof (cases "timeout > 0")
      case True
      then show ?thesis
        using c Cons.prems(3)
        by (intro exI [of _ cnt] exI [of _ ok] exI [of _ True] exI [of _ longest] exI [of _ evs] exI [of _ D])
          (auto simp: TimerFired collected_def)
    next
      case False
      with Cons.IH [OF c Cons.prems(2,3)] show ?thesis by (auto simp: TimerFired)
    qed
  qed
qed

lemma await_rest_correct:
  assumes H: "histories_ok model ns history"
  shows "collected model ns history D evs cnt longest \<Longrightarrow>
    \<exists>longest' evs' cnt'. await_rest model history kill evs cnt longest = Some (Inr longest') \<and>
      collected model ns history {..<length history} evs' cnt' longest'"
proof (induction evs arbitrary: D cnt longest)
  case Nil
  with collected_none_left [OF Nil.prems] collected_all [OF Nil.prems] show ?case by auto
next
  case (Cons a evs)
  show ?case
  proof (cases "cnt < length history")
    case False
    with collected_all [OF Cons.prems] Cons.prems show ?thesis by auto
  next
    case True
    show ?thesis
    proof (cases a)
      case (Received i)
      note pre = Cons.prems [unfolded Received]
      have i: "i < length history" using pre by (auto simp: collected_def)
      with H checkSingle_correct [of "ns i" "history ! i" True "kill i"] obtain result lg seqs
        where r: "checkSingle model (history ! i) True (kill i) = Some (Inr (result, lg, seqs))"
        "longest_ok model (ns i) (history ! i) lg seqs" by (auto simp: histories_ok_def)
      from Cons.IH [OF collected_receive(2) [OF pre r(2)]] show ?thesis
        using True i r(1) by (simp add: Received)
    next
      case TimerFired
      then have "collected model ns history D evs cnt longest" using Cons.prems by (simp add: collected_def)
      from Cons.IH [OF this] show ?thesis using True by (simp add: TimerFired)
    qed
  qed
qed

lemma checkParallel_correct:
  assumes H: "histories_ok model ns history" and ne: "history \<noteq> []" and sch: "schedule_ok (length history) sch"
  shows "\<exists>res info. checkParallel model history computeInfo timeout sch = Some (Inr (res, info)) \<and>
      (res = Ok \<longrightarrow> (\<forall>i<length history. linearizable model (ns i) (history ! i))) \<and>
      (res = Illegal \<longrightarrow> (\<exists>i<length history. \<not> linearizable model (ns i) (history ! i))) \<and>
      (res = Unknown \<longrightarrow> timeout > 0 \<and> TimerFired \<in> set (sc_arrivals sch)) \<and>
      (computeInfo \<longrightarrow> li_history info = history \<and>
         length (li_partialLinearizations info) = length history \<and>
         (\<forall>i<length history. partials_ok model (ns i) (history ! i) (li_partialLinearizations info ! i)))"
proof -
  have "distinct (received (sc_arrivals sch)) \<and> set (received (sc_arrivals sch)) = {..<length history}"
    using sch unfolding schedule_ok_def mset_upt_iff by blast
  then have "collected model ns history {} (sc_arrivals sch) 0 (replicate (length history) ([], []))"
    by (simp add: collected_def)
  moreover have "0 < length history" using ne by simp
  moreover have "True = (\<forall>i\<in>{}. linearizable model (ns i) (history ! i))" by simp
  ultimately obtain cnt ok timedOut longest rest D
    where l: "select_loop model history computeInfo timeout (sc_arrivals sch) 0 True
        (replicate (length history) ([], [])) = Some (Inr (cnt, ok, timedOut, longest, rest))"
      "collected model ns history D rest cnt longest"
      "\<not> ok \<longrightarrow> (\<exists>i<length history. \<not> linearizable model (ns i) (history ! i))"
      "ok \<and> \<not> timedOut \<longrightarrow> (\<forall>i<length history. linearizable model (ns i) (history ! i))"
      "timedOut \<longrightarrow> timeout > 0 \<and> TimerFired \<in> set (sc_arrivals sch)"
    using select_loop_correct [OF H, of "{}" "sc_arrivals sch" 0 _ True computeInfo timeout] by blast
  from await_rest_correct [OF H l(2), of "sc_kill sch"] obtain longest' evs' cnt'
    where a: "await_rest model history (sc_kill sch) rest cnt longest = Some (Inr longest')"
      "collected model ns history {..<length history} evs' cnt' longest'" by blast
  have "partials_ok model (ns i) (history ! i) (map (unique_partials (sc_order sch)) longest' ! i)"
    if "i < length history" for i
    using a(2) that sch unique_partials_ok [of model "ns i" "history ! i" "longest' ! i" "sc_order sch"]
    by (simp add: collected_def schedule_ok_def)
  moreover have "length longest' = length history" using a(2) by (simp add: collected_def)
  ultimately show ?thesis
    using l a(1) by (auto simp: checkParallel_def)
qed

lemma checkOperations_correct:
  assumes model: "fillDefault fmtv fmts model0 = model"
    and part: "Partition model = Some part" "part history = Inr parts" and ne: "parts \<noteq> []"
    and ops: "\<forall>p\<in>set parts. timed p \<and> steps_total model p"
    and srt: "is_go_sort byTime_Less sortByTime" and sch: "schedule_ok (length parts) sch"
  shows "\<exists>res info. checkOperations sortByTime fmtv fmts sch model0 history verbose timeout = Some (Inr (res, info)) \<and>
      (res = Ok \<longrightarrow> (\<forall>p\<in>set parts. ops_linearizable model p)) \<and>
      (res = Illegal \<longrightarrow> (\<exists>p\<in>set parts. \<not> ops_linearizable model p)) \<and>
      (res = Unknown \<longrightarrow> timeout > 0 \<and> TimerFired \<in> set (sc_arrivals sch)) \<and>
      (verbose \<longrightarrow> li_history info = map (makeEntries sortByTime) parts \<and>
         length (li_partialLinearizations info) = length parts \<and>
         (\<forall>i<length parts. partials_ok model (length (parts ! i)) (makeEntries sortByTime (parts ! i))
            (li_partialLinearizations info ! i)))"
proof -
  let ?l = "map (makeEntries sortByTime) parts" and ?ns = "\<lambda>i. length (parts ! i)"
  have es: "entry_sort sortByTime" using srt by (rule entry_sort.intro)
  have part_i: "timed (parts ! i)" "steps_total model (parts ! i)" if "i < length parts" for i
    using ops that by simp_all
  have "histories_ok model ?ns ?l"
    using part_i entry_sort.complete [OF es] entry_sort.entry_values [OF es]
    by (auto simp: histories_ok_def steps_defined_def steps_total_def)
  from checkParallel_correct [OF this, of sch verbose timeout] ne sch obtain res info
    where r: "checkParallel model ?l verbose timeout sch = Some (Inr (res, info))"
      "res = Ok \<longrightarrow> (\<forall>i<length parts. linearizable model (?ns i) (?l ! i))"
      "res = Illegal \<longrightarrow> (\<exists>i<length parts. \<not> linearizable model (?ns i) (?l ! i))"
      "res = Unknown \<longrightarrow> timeout > 0 \<and> TimerFired \<in> set (sc_arrivals sch)"
      "verbose \<longrightarrow> li_history info = ?l \<and> length (li_partialLinearizations info) = length parts \<and>
         (\<forall>i<length parts. partials_ok model (?ns i) (?l ! i) (li_partialLinearizations info ! i))" by auto
  have lin: "linearizable model (?ns i) (?l ! i) \<longleftrightarrow> ops_linearizable model (parts ! i)"
    if "i < length parts" for i
    using entry_sort.linearizable_ops [OF es part_i(1) [OF that]] that by simp
  have "checkOperations sortByTime fmtv fmts sch model0 history verbose timeout = Some (Inr (res, info))"
    using r(1) part by (simp add: checkOperations_def model)
  moreover have "res = Ok \<longrightarrow> (\<forall>p\<in>set parts. ops_linearizable model p)"
    using r(2) lin by (auto simp: in_set_conv_nth)
  moreover have "res = Illegal \<longrightarrow> (\<exists>p\<in>set parts. \<not> ops_linearizable model p)"
    using r(3) lin nth_mem by blast
  ultimately show ?thesis using r(4,5) by simp
qed

end

text \<open>Without a result to come and without a timer the select loop waits forever.\<close>

lemma select_loop_blocks:
  "received evs = [] \<Longrightarrow> timeout \<le> 0 \<Longrightarrow>
   select_loop model history computeInfo timeout evs cnt ok longest = None"
proof (induction evs)
  case (Cons a evs)
  then show ?case by (cases a) auto
qed simp

subsection \<open>Properties\<close>


text \<open>A model of one register that is only ever written, with one operation on it.\<close>

definition write_model :: "(int, int) Model" where
  "write_model = \<lparr>Partition = None, PartitionEvent = None, Init = 0, Step = (\<lambda>s i out. Inr (True, i)),
     Equal = None, DescribeOperation = None, DescribeState = None\<rparr>"

definition write_op :: "int Operation" where
  "write_op = \<lparr>op_ClientId = 0, op_Input = 1, op_Call = 3, op_Output = 0, op_Return = 4\<rparr>"

definition write_schedule :: schedule where
  "write_schedule = \<lparr>sc_arrivals = [TimerFired, Received 0], sc_kill = (\<lambda>_ _. True), sc_order = rev\<rparr>"



definition write_events :: "int Event list" where
  "write_events = [\<lparr>ev_ClientId = 0, ev_Kind = CallEvent, ev_Value = 1, ev_Id = 42\<rparr>,
                   \<lparr>ev_ClientId = 0, ev_Kind = ReturnEvent, ev_Value = 0, ev_Id = 42\<rparr>]"


end
