(* ===== verification/Kv_Model.thy ===== *)
theory Kv_Model
  imports Porcupine "HOL-Library.AList" "HOL-Library.List_Lexorder" "HOL-Library.Char_ord"
begin

text \<open>
  The sequential model of a key/value store (\<open>models/kv.go\<close>) that the tests of the replicated
  services give to the checker. It describes one key and partitions a history by key; the theory
  shows that this decides linearizability of the store with all its keys. Inputs and outputs are
  \<open>interface{}\<close> values: a \<open>KvInput\<close>, a \<open>KvOutput\<close>, or a value of another dynamic type, for which the
  type assertions panic.
\<close>

record KvInput =
  in_Op :: "8 word"
  in_Key :: string
  in_Value :: string

record KvOutput =
  out_Value :: string

datatype kv_value = AKvInput KvInput | AKvOutput KvOutput | OtherValue

definition assert_KvInput :: "kv_value \<Rightarrow> KvInput go" where
  "assert_KvInput v = (case v of AKvInput i \<Rightarrow> Inr i | _ \<Rightarrow> Inl TypeAssertion)"

definition assert_KvOutput :: "kv_value \<Rightarrow> KvOutput go" where
  "assert_KvOutput v = (case v of AKvOutput out \<Rightarrow> Inr out | _ \<Rightarrow> Inl TypeAssertion)"

text \<open>The loop that groups a history by key; a Go map is an association list here.\<close>

definition kv_group ::
    "kv_value Operation \<Rightarrow> (string \<times> kv_value Operation list) list
     \<Rightarrow> (string \<times> kv_value Operation list) list go" where
  "kv_group v m =
     go_bind (assert_KvInput (op_Input v)) (\<lambda>inp.
       let key = in_Key inp;
           old = (case map_of m key of None \<Rightarrow> [] | Some vs \<Rightarrow> vs)
       in Inr (AList.update key (old @ [v]) m))"

text \<open>\<open>mapOrder\<close> is the order in which \<open>range\<close> visits the keys of the map.\<close>

definition kv_Partition ::
    "(string list \<Rightarrow> string list) \<Rightarrow> kv_value Operation list \<Rightarrow> kv_value Operation list list go" where
  "kv_Partition mapOrder history =
     go_bind (go_fold kv_group history []) (\<lambda>m.
       let keys = sort (mapOrder (map fst m))
       in Inr (map (\<lambda>k. case map_of m k of None \<Rightarrow> [] | Some vs \<Rightarrow> vs) keys))"

definition kv_Init :: string where
  "kv_Init = ''''"

definition kv_Step :: "string \<Rightarrow> kv_value \<Rightarrow> kv_value \<Rightarrow> (bool \<times> string) go" where
  "kv_Step state input output =
     go_bind (assert_KvInput input) (\<lambda>inp.
     go_bind (assert_KvOutput output) (\<lambda>out.
       if in_Op inp = 0 then Inr (out_Value out = state, state)
       else if in_Op inp = 1 then Inr (True, in_Value inp)
       else Inr (True, state @ in_Value inp)))"

definition kv_DescribeOperation :: "kv_value \<Rightarrow> kv_value \<Rightarrow> string go" where
  "kv_DescribeOperation input output =
     go_bind (assert_KvInput input) (\<lambda>inp.
     go_bind (assert_KvOutput output) (\<lambda>out.
       if in_Op inp = 0 then
         Inr (''get('' @ [CHR 0x27] @ in_Key inp @ [CHR 0x27] @ '') -> '' @ [CHR 0x27] @ out_Value out @ [CHR 0x27])
       else if in_Op inp = 1 then
         Inr (''put('' @ [CHR 0x27] @ in_Key inp @ [CHR 0x27] @ '', '' @ [CHR 0x27] @ in_Value inp @ [CHR 0x27] @ '')'')
       else if in_Op inp = 2 then
         Inr (''append('' @ [CHR 0x27] @ in_Key inp @ [CHR 0x27] @ '', '' @ [CHR 0x27] @ in_Value inp @ [CHR 0x27] @ '')'')
       else Inr ''<invalid>''))"

definition KvModel :: "(string list \<Rightarrow> string list) \<Rightarrow> (kv_value, string) Model" where
  "KvModel mapOrder =
     \<lparr>Partition = Some (kv_Partition mapOrder), PartitionEvent = None, Init = kv_Init, Step = kv_Step,
      Equal = None, DescribeOperation = Some kv_DescribeOperation, DescribeState = None\<rparr>"

subsection \<open>The store with all its keys\<close>

text \<open>
  The specification, independent of the model of one key: a store that maps every key to a string,
  empty at first. A get must return what the key holds, a put replaces it, an append extends it.
\<close>

definition store_Step ::
    "(string \<Rightarrow> string) \<Rightarrow> kv_value \<Rightarrow> kv_value \<Rightarrow> (bool \<times> (string \<Rightarrow> string)) go" where
  "store_Step store input output =
     (case (input, output) of
        (AKvInput i, AKvOutput out) \<Rightarrow>
          Inr (if in_Op i = 0 then (out_Value out = store (in_Key i), store)
               else if in_Op i = 1 then (True, store(in_Key i := in_Value i))
               else (True, store(in_Key i := store (in_Key i) @ in_Value i)))
      | _ \<Rightarrow> Inl TypeAssertion)"

definition KvStore :: "(kv_value, string \<Rightarrow> string) Model" where
  "KvStore =
     \<lparr>Partition = None, PartitionEvent = None, Init = (\<lambda>_. []), Step = store_Step,
      Equal = None, DescribeOperation = None, DescribeState = None\<rparr>"

text \<open>The store does to the key of an operation what the model does to its only value.\<close>

lemma store_Step_eq:
  "store_Step store (AKvInput i) (AKvOutput out) =
     go_bind (kv_Step (store (in_Key i)) (AKvInput i) (AKvOutput out)) (\<lambda>(ok, v). Inr (ok, store(in_Key i := v)))"
  by (simp add: store_Step_def kv_Step_def assert_KvInput_def assert_KvOutput_def)

definition kv_key :: "kv_value Operation \<Rightarrow> string" where
  "kv_key x = (case op_Input x of AKvInput i \<Rightarrow> in_Key i | _ \<Rightarrow> '''')"

definition kv_op :: "kv_value Operation \<Rightarrow> bool" where
  "kv_op x \<longleftrightarrow> (\<exists>i. op_Input x = AKvInput i) \<and> (\<exists>out. op_Output x = AKvOutput out)"

lemma kv_op_cases:
  assumes "kv_op x"
  obtains i out where "op_Input x = AKvInput i" "op_Output x = AKvOutput out" "kv_key x = in_Key i"
  using assms by (auto simp: kv_op_def kv_key_def)

lemma kv_Step_total: "kv_op x \<Longrightarrow> \<exists>b s'. kv_Step s (op_Input x) (op_Output x) = Inr (b, s')"
  by (elim kv_op_cases) (auto simp: kv_Step_def assert_KvInput_def assert_KvOutput_def)

lemma run_store:
  assumes "\<forall>x\<in>set xs. kv_op x"
  shows "run_ops KvStore st xs \<noteq> None \<longleftrightarrow>
    (\<forall>k. run_ops (KvModel ord) (st k) (filter (\<lambda>x. kv_key x = k) xs) \<noteq> None)"
  using assms
proof (induction xs arbitrary: st)
  case (Cons x xs)
  then obtain i out where x: "op_Input x = AKvInput i" "op_Output x = AKvOutput out" "kv_key x = in_Key i"
    by (auto elim: kv_op_cases)
  from kv_Step_total [of x "st (in_Key i)"] Cons.prems obtain b s'
    where s': "kv_Step (st (in_Key i)) (AKvInput i) (AKvOutput out) = Inr (b, s')" by (auto simp: x)
  have ih: "run_ops KvStore st' xs \<noteq> None \<longleftrightarrow>
      (\<forall>k. run_ops (KvModel ord) (st' k) (filter (\<lambda>x. kv_key x = k) xs) \<noteq> None)" for st'
    using Cons by simp
  have split: "(\<forall>k. P k) \<longleftrightarrow> P (in_Key i) \<and> (\<forall>k. k \<noteq> in_Key i \<longrightarrow> P k)" for P by metis
  show ?case
    using ih [of "st(in_Key i := s')"] s'
    by (subst split, cases b) (auto simp: KvStore_def KvModel_def store_Step_eq x)
qed simp

subsection \<open>Locality\<close>

text \<open>
  Linearizations of the single keys can be interleaved: the next operation is the first one of the
  key that owns the earliest remaining return.
\<close>

lemma interleave:
  assumes "finite K" "\<And>k. real_time (L k)" "\<And>k. timed (L k)" "\<And>k x. x \<in> set (L k) \<Longrightarrow> key x = k"
    and "\<And>k. k \<notin> K \<Longrightarrow> L k = []"
  shows "\<exists>G. real_time G \<and> (\<forall>k. filter (\<lambda>x. key x = k) G = L k)"
  using assms
proof (induction "\<Sum>k\<in>K. length (L k)" arbitrary: L)
  case 0
  then have "L k = []" for k by (cases "k \<in> K") auto
  then show ?case by (intro exI [of _ "[]"]) (simp add: real_time_def)
next
  case (Suc m)
  let ?U = "\<Union>k\<in>K. set (L k)"
  have "\<exists>k\<in>K. L k \<noteq> []"
  proof (rule ccontr)
    assume "\<not> ?thesis"
    then have "(\<Sum>k\<in>K. length (L k)) = 0" by simp
    with Suc.hyps(2) show False by simp
  qed
  then have "?U \<noteq> {}" "finite ?U" using Suc.prems(1) by auto
  then obtain r where r: "r \<in> ?U" "\<forall>b\<in>?U. op_Return r \<le> op_Return b"
    using ex_min_if_finite [of "op_Return ` ?U"] by (fastforce simp: not_less)
  then have k: "r \<in> set (L (key r))" "key r \<in> K" using Suc.prems(4) by auto
  then obtain h t where ht: "L (key r) = h # t" by (cases "L (key r)") auto
  let ?L = "L(key r := t)"
  have "(\<Sum>k\<in>K. length (L k)) = Suc (\<Sum>k\<in>K. length (?L k))"
    using Suc.prems(1) k(2) ht by (simp add: sum.remove [of K "key r"])
  then have m: "m = (\<Sum>k\<in>K. length (?L k))" using Suc.hyps(2) by simp
  have "\<exists>G. real_time G \<and> (\<forall>k. filter (\<lambda>x. key x = k) G = ?L k)"
  proof (rule Suc.hyps(1) [OF m Suc.prems(1)])
    fix k show "real_time (?L k)" "timed (?L k)"
      using Suc.prems(2,3) [of k] ht by (auto simp: real_time_def timed_def)
    show "key x = k" if "x \<in> set (?L k)" for x
      using that Suc.prems(4) [of x k] ht by (auto split: if_splits)
    show "?L k = []" if "k \<notin> K" using that Suc.prems(5) k(2) by auto
  qed
  then obtain G where G: "real_time G" "\<And>k. filter (\<lambda>x. key x = k) G = ?L k" by blast
  have h: "op_Call h \<le> op_Return r"
    using k(1) Suc.prems(2,3) [of "key r"] by (auto simp: ht real_time_def timed_def)
  have "\<not> op_Return b < op_Call h" if "b \<in> set G" for b
  proof -
    have "b \<in> set (filter (\<lambda>x. key x = key b) G)" using that by simp
    then have "b \<in> set (?L (key b))" unfolding G(2) .
    then have "b \<in> set (L (key b))" using ht by (auto split: if_splits)
    then have "b \<in> ?U" using Suc.prems(5) by force
    with r(2) h show ?thesis by force
  qed
  then have "real_time (h # G)" using G(1) by (simp add: real_time_def)
  moreover have "key h = key r" using Suc.prems(4) [of h "key r"] ht by simp
  then have "filter (\<lambda>x. key x = k) (h # G) = L k" for k using G(2) [of k] ht by auto
  ultimately show ?case by blast
qed

lemma mset_by_key:
  fixes xs ys :: "'a list"
  assumes "\<And>k. mset (filter (\<lambda>x. key x = k) xs) = mset (filter (\<lambda>x. key x = k) ys)"
  shows "mset xs = mset ys"
proof (rule multiset_eqI)
  fix x
  have "count (mset (filter (\<lambda>y. key y = key x) zs)) x = count (mset zs) x" for zs :: "'a list"
    by (induction zs) auto
  with assms [of "key x"] show "count (mset xs) x = count (mset ys) x" by metis
qed

lemma real_time_filter: "real_time xs \<Longrightarrow> real_time (filter P xs)"
  by (simp add: real_time_def sorted_wrt_filter)

lemma store_locality:
  assumes ops: "\<forall>x\<in>set history. kv_op x" and "timed history"
  shows "ops_linearizable KvStore history \<longleftrightarrow>
    (\<forall>k. ops_linearizable (KvModel ord) (filter (\<lambda>x. kv_key x = k) history))"
proof
  assume "ops_linearizable KvStore history"
  then obtain xs where xs: "mset xs = mset history" "real_time xs" "run_ops KvStore (\<lambda>_. kv_Init) xs \<noteq> None"
    by (auto simp: ops_linearizable_def KvStore_def kv_Init_def)
  have "\<forall>x\<in>set xs. kv_op x" using ops mset_eq_setD [OF xs(1)] by simp
  with xs(3) run_store [of xs _ ord] show "\<forall>k. ops_linearizable (KvModel ord) (filter (\<lambda>x. kv_key x = k) history)"
    unfolding ops_linearizable_def
    by (metis (no_types, lifting) KvModel_def Model.select_convs(3) mset_filter real_time_filter xs(1,2))
next
  assume "\<forall>k. ops_linearizable (KvModel ord) (filter (\<lambda>x. kv_key x = k) history)"
  then obtain L where L: "\<And>k. mset (L k) = mset (filter (\<lambda>x. kv_key x = k) history)" "\<And>k. real_time (L k)"
    "\<And>k. run_ops (KvModel ord) kv_Init (L k) \<noteq> None"
    unfolding ops_linearizable_def by (simp add: KvModel_def) metis
  have setL: "set (L k) = {x \<in> set history. kv_key x = k}" for k
    using mset_eq_setD [OF L(1) [of k]] by auto
  have "\<exists>G. real_time G \<and> (\<forall>k. filter (\<lambda>x. kv_key x = k) G = L k)"
  proof (rule interleave)
    show "finite (kv_key ` set history)" by simp
    show "real_time (L k)" for k by (rule L(2))
    show "timed (L k)" for k using assms(2) setL by (auto simp: timed_def)
    show "kv_key x = k" if "x \<in> set (L k)" for k x using that setL by auto
    show "L k = []" if "k \<notin> kv_key ` set history" for k
    proof -
      have "set (L k) = {}" unfolding setL using that by auto
      then show ?thesis by simp
    qed
  qed
  then obtain G where G: "real_time G" "\<And>k. filter (\<lambda>x. kv_key x = k) G = L k" by blast
  have mG: "mset G = mset history" by (rule mset_by_key [of kv_key]) (simp only: G(2) L(1))
  then have "\<forall>x\<in>set G. kv_op x" using ops mset_eq_setD by blast
  then have "run_ops KvStore (\<lambda>_. kv_Init) G \<noteq> None" using run_store [of G _ ord] G(2) L(3) by simp
  with mG G(1) show "ops_linearizable KvStore history"
    unfolding ops_linearizable_def by (auto simp: KvStore_def kv_Init_def)
qed

subsection \<open>The partition of a history\<close>

definition groups :: "kv_value Operation list \<Rightarrow> (string \<times> kv_value Operation list) list \<Rightarrow> bool" where
  "groups xs m \<longleftrightarrow>
     distinct (map fst m) \<and> fst ` set m = kv_key ` set xs \<and>
     (\<forall>k\<in>kv_key ` set xs. map_of m k = Some (filter (\<lambda>x. kv_key x = k) xs))"

lemma kv_group_groups:
  assumes "groups xs m" and "kv_op v"
  shows "\<exists>m'. kv_group v m = Inr m' \<and> groups (xs @ [v]) m'"
proof -
  from assms(2) obtain i where v: "op_Input v = AKvInput i" "kv_key v = in_Key i" by (auto elim: kv_op_cases)
  let ?old = "case map_of m (in_Key i) of None \<Rightarrow> [] | Some vs \<Rightarrow> vs"
  have dom: "dom (map_of m) = kv_key ` set xs" using assms(1) by (simp add: groups_def dom_map_of_conv_image_fst)
  have old: "?old = filter (\<lambda>x. kv_key x = in_Key i) xs"
  proof (cases "in_Key i \<in> kv_key ` set xs")
    case True
    with assms(1) show ?thesis by (auto simp: groups_def)
  next
    case False
    with dom have "map_of m (in_Key i) = None" by blast
    moreover have "filter (\<lambda>x. kv_key x = in_Key i) xs = []" using False by (force simp: filter_empty_conv)
    ultimately show ?thesis by simp
  qed
  have keys: "fst ` set (AList.update (in_Key i) (?old @ [v]) m) = insert (in_Key i) (kv_key ` set xs)"
    using dom unfolding dom_map_of_conv_image_fst [symmetric] by (auto simp: update_conv')
  have "groups (xs @ [v]) (AList.update (in_Key i) (?old @ [v]) m)"
    unfolding groups_def keys
    using assms(1) v(2) old by (auto simp: groups_def update_conv' distinct_update image_iff)
  then show ?thesis by (simp add: kv_group_def assert_KvInput_def v Let_def)
qed

lemma kv_fold_groups:
  "\<forall>x\<in>set ys. kv_op x \<Longrightarrow> groups xs m \<Longrightarrow> \<exists>m'. go_fold kv_group ys m = Inr m' \<and> groups (xs @ ys) m'"
proof (induction ys arbitrary: xs m)
  case (Cons v ys)
  from kv_group_groups [OF Cons.prems(2), of v] Cons.prems(1) obtain m1
    where m1: "kv_group v m = Inr m1" "groups (xs @ [v]) m1" by auto
  from Cons.IH [OF _ m1(2)] Cons.prems(1) m1(1) show ?case by auto
qed auto

lemma kv_Partition_eq:
  assumes ops: "\<forall>x\<in>set history. kv_op x" and ord: "\<And>xs. mset (mapOrder xs) = mset xs"
  shows "kv_Partition mapOrder history =
    Inr (map (\<lambda>k. filter (\<lambda>x. kv_key x = k) history) (sorted_list_of_set (kv_key ` set history)))"
proof -
  have "groups [] []" by (simp add: groups_def)
  from kv_fold_groups [OF ops this] obtain m
    where m: "go_fold kv_group history [] = Inr m" "groups history m" by auto
  let ?keys = "sort (mapOrder (map fst m))"
  have "mset ?keys = mset (map fst m)" using ord by simp
  then have "distinct ?keys" "set ?keys = kv_key ` set history"
    using m(2) mset_eq_setD [of ?keys "map fst m"] mset_eq_imp_distinct_iff [of ?keys "map fst m"]
    by (auto simp: groups_def)
  then have keys: "?keys = sorted_list_of_set (kv_key ` set history)"
    using sorted_distinct_set_unique [of ?keys "sorted_list_of_set (kv_key ` set history)"] by simp
  have "map (\<lambda>k. case map_of m k of None \<Rightarrow> [] | Some vs \<Rightarrow> vs) ?keys =
      map (\<lambda>k. filter (\<lambda>x. kv_key x = k) history) ?keys"
    using m(2) \<open>set ?keys = kv_key ` set history\<close> by (auto simp: groups_def)
  then show ?thesis by (simp add: kv_Partition_def m(1) keys Let_def)
qed

subsection \<open>The checker on the key/value model\<close>

interpretation kv: sequential_model "fillDefault fmtv fmts (KvModel mapOrder)" ShallowEqual
  for fmtv fmts mapOrder
  by unfold_locales (simp_all add: fillDefault_def KvModel_def ShallowEqual_def)

lemma kv_history_steps: "\<forall>x\<in>set ops. kv_op x \<Longrightarrow> steps_total (fillDefault fmtv fmts (KvModel mapOrder)) ops"
  using kv_Step_total by (simp add: steps_total_def fillDefault_def KvModel_def)

lemma fillDefault_KvModel:
  "Partition (fillDefault fmtv fmts (KvModel mapOrder)) = Some (kv_Partition mapOrder)"
  by (simp add: fillDefault_def KvModel_def)

lemma kv_partitions:
  assumes "\<forall>x\<in>set history. kv_op x" and "timed history"
    and parts: "parts = map (\<lambda>k. filter (\<lambda>x. kv_key x = k) history) (sorted_list_of_set (kv_key ` set history))"
  shows "\<forall>p\<in>set parts. timed p \<and> steps_total (fillDefault fmtv fmts (KvModel mapOrder)) p"
    and "(\<forall>p\<in>set parts. ops_linearizable (fillDefault fmtv fmts (KvModel mapOrder)) p) \<longleftrightarrow>
         ops_linearizable KvStore history"
proof -
  have set_parts: "set parts = (\<lambda>k. filter (\<lambda>x. kv_key x = k) history) ` kv_key ` set history"
    by (simp add: parts)
  show "\<forall>p\<in>set parts. timed p \<and> steps_total (fillDefault fmtv fmts (KvModel mapOrder)) p"
    using assms(1,2) kv_history_steps unfolding set_parts by (auto simp: timed_def)
  have other: "ops_linearizable (KvModel mapOrder) (filter (\<lambda>x. kv_key x = k) history)"
    if "k \<notin> kv_key ` set history" for k
  proof -
    have "filter (\<lambda>x. kv_key x = k) history = []" using that by (force simp: filter_empty_conv)
    then show ?thesis by (simp add: ops_linearizable_def real_time_def)
  qed
  have all: "(\<forall>x\<in>set history. P (kv_key x)) \<longleftrightarrow> (\<forall>k. P k)"
    if "\<And>k. k \<notin> kv_key ` set history \<Longrightarrow> P k" for P using that by (metis image_iff)
  show "(\<forall>p\<in>set parts. ops_linearizable (fillDefault fmtv fmts (KvModel mapOrder)) p) \<longleftrightarrow>
         ops_linearizable KvStore history"
    unfolding store_locality [OF assms(1,2), of mapOrder] ops_linearizable_fillDefault set_parts
      ball_simps using all [OF other] by simp
qed

lemma kv_checkOperations:
  assumes "history \<noteq> []" and "\<forall>x\<in>set history. kv_op x" and "timed history"
    and "is_go_sort byTime_Less sortByTime" and "\<And>xs. mset (mapOrder xs) = mset xs"
    and "schedule_ok (card (kv_key ` set history)) sch"
  shows "\<exists>res info. checkOperations sortByTime fmtv fmts sch (KvModel mapOrder) history verbose timeout =
        Some (Inr (res, info)) \<and>
      (res = Ok \<longrightarrow> ops_linearizable KvStore history) \<and>
      (res = Illegal \<longrightarrow> \<not> ops_linearizable KvStore history) \<and>
      (res = Unknown \<longrightarrow> timeout > 0 \<and> TimerFired \<in> set (sc_arrivals sch))"
proof -
  define parts where "parts = map (\<lambda>k. filter (\<lambda>x. kv_key x = k) history) (sorted_list_of_set (kv_key ` set history))"
  note p = kv_partitions [OF assms(2,3) parts_def]
  have part: "kv_Partition mapOrder history = Inr parts"
    unfolding parts_def by (rule kv_Partition_eq [OF assms(2,5)])
  have len: "length parts = card (kv_key ` set history)" by (simp add: parts_def)
  have ne: "parts \<noteq> []" using assms(1) by (simp add: parts_def)
  have "schedule_ok (length parts) sch" using assms(6) by (simp add: len)
  from kv.checkOperations_correct [OF refl fillDefault_KvModel part ne p(1) assms(4) this,
      where fmtv = fmtv and fmts = fmts and verbose = verbose and timeout = timeout]
  obtain res info where r: "checkOperations sortByTime fmtv fmts sch (KvModel mapOrder) history verbose timeout =
        Some (Inr (res, info))"
      "res = Ok \<longrightarrow> (\<forall>p\<in>set parts. ops_linearizable (fillDefault fmtv fmts (KvModel mapOrder)) p)"
      "res = Illegal \<longrightarrow> \<not> (\<forall>p\<in>set parts. ops_linearizable (fillDefault fmtv fmts (KvModel mapOrder)) p)"
      "res = Unknown \<longrightarrow> timeout > 0 \<and> TimerFired \<in> set (sc_arrivals sch)" by blast
  then show ?thesis unfolding p(2) by blast
qed

subsection \<open>Properties\<close>

text \<open>
  C1. The answer of the checker for the key/value service is right: on every non-empty history of
  key/value operations, for every sort that meets the contract of \<open>sort.Sort\<close>, every traversal order
  of Go maps and every fair arrival order of the results of the parallel searches,
  \<open>CheckOperations(KvModel, history)\<close> returns, does not panic, and answers \<open>true\<close> exactly when the
  history is linearizable with respect to the store that holds all keys, although each search
  looks at the history of one key only.
\<close>

theorem CheckOperations_decides_kv:
  assumes "history \<noteq> []" and "\<forall>x\<in>set history. kv_op x" and "timed history"
    and "is_go_sort byTime_Less sortByTime" and "\<And>xs. mset (mapOrder xs) = mset xs"
    and "schedule_ok (card (kv_key ` set history)) sch"
  shows "CheckOperations sortByTime fmtv fmts sch (KvModel mapOrder) history =
    Some (Inr (ops_linearizable KvStore history))"
proof -
  from kv_checkOperations [OF assms, of fmtv fmts False 0] obtain res info
    where "checkOperations sortByTime fmtv fmts sch (KvModel mapOrder) history False 0 = Some (Inr (res, info))"
      "res = Ok \<longrightarrow> ops_linearizable KvStore history" "res = Illegal \<longrightarrow> \<not> ops_linearizable KvStore history"
      "res \<noteq> Unknown" by auto
  then show ?thesis by (cases res) (simp_all add: CheckOperations_def)
qed

text \<open>A small history: a put that overlaps a get of the same key, and an append to another key.\<close>

definition sample_history :: "kv_value Operation list" where
  "sample_history =
     [\<lparr>op_ClientId = 0, op_Input = AKvInput \<lparr>in_Op = 1, in_Key = ''x'', in_Value = ''a''\<rparr>, op_Call = 0,
       op_Output = AKvOutput \<lparr>out_Value = []\<rparr>, op_Return = 5\<rparr>,
      \<lparr>op_ClientId = 1, op_Input = AKvInput \<lparr>in_Op = 0, in_Key = ''x'', in_Value = []\<rparr>, op_Call = 1,
       op_Output = AKvOutput \<lparr>out_Value = ''a''\<rparr>, op_Return = 3\<rparr>,
      \<lparr>op_ClientId = 2, op_Input = AKvInput \<lparr>in_Op = 2, in_Key = ''y'', in_Value = ''b''\<rparr>, op_Call = 2,
       op_Output = AKvOutput \<lparr>out_Value = []\<rparr>, op_Return = 4\<rparr>]"

definition sample_schedule :: schedule where
  "sample_schedule = \<lparr>sc_arrivals = [Received 1, Received 0], sc_kill = (\<lambda>_ _. False), sc_order = (\<lambda>xs. xs)\<rparr>"

lemma sample_ok:
  "sample_history \<noteq> []" "\<forall>x\<in>set sample_history. kv_op x" "timed sample_history"
  "schedule_ok (card (kv_key ` set sample_history)) sample_schedule"
proof -
  have "kv_key ` set sample_history = {''x'', ''y''}" by (auto simp: sample_history_def kv_key_def)
  then have "card (kv_key ` set sample_history) = 2" by simp
  then show "schedule_ok (card (kv_key ` set sample_history)) sample_schedule"
    by (simp add: schedule_ok_def sample_schedule_def upt_rec numeral_2_eq_2)
qed (simp_all add: sample_history_def kv_op_def timed_def)

theorem CheckOperations_decides_kv_witness:
  "CheckOperations (sort_by byTime_Less) (\<lambda>_. []) (\<lambda>_. []) sample_schedule (KvModel (\<lambda>xs. xs)) sample_history =
    Some (Inr (ops_linearizable KvStore sample_history))"
  by (rule CheckOperations_decides_kv [OF sample_ok(1,2,3) byTime_Less_sort _ sample_ok(4)]) simp



text \<open>
  C26. Checking one key at a time is enough (the locality of linearizability): a history of
  key/value operations is linearizable for the store with all keys exactly when, for every key,
  the operations on that key are linearizable for \<open>KvModel\<close>.
\<close>

theorem kv_partition_local:
  assumes "\<forall>x\<in>set history. kv_op x" and "timed history"
  shows "ops_linearizable KvStore history \<longleftrightarrow>
    (\<forall>k. ops_linearizable (KvModel mapOrder) (filter (\<lambda>x. kv_key x = k) history))"
  by (rule store_locality [OF assms])

theorem kv_partition_local_witness:
  "ops_linearizable KvStore sample_history \<longleftrightarrow>
    (\<forall>k. ops_linearizable (KvModel rev) (filter (\<lambda>x. kv_key x = k) sample_history))"
  by (rule kv_partition_local [OF sample_ok(2,3)])

text \<open>
  The partition function of \<open>KvModel\<close> does not depend on the traversal order of the Go map it
  builds: it returns, in increasing order of the keys, the operations on each key in the order of
  the history.
\<close>

lemma kv_Partition_by_key:
  assumes "\<forall>x\<in>set history. kv_op x" and "\<And>xs. mset (mapOrder xs) = mset xs"
  shows "kv_Partition mapOrder history =
    Inr (map (\<lambda>k. filter (\<lambda>x. kv_key x = k) history) (sorted_list_of_set (kv_key ` set history)))"
  by (rule kv_Partition_eq [OF assms])

text \<open>
  C40. On an empty history \<open>CheckOperations(KvModel, history)\<close> never returns: the partition function
  yields no partition, so no result is ever sent, the loop that counts results is entered all the
  same, and without a timeout there is nothing else to wait for.
\<close>

theorem CheckOperations_empty_blocks:
  assumes "received (sc_arrivals sch) = []" and "mapOrder [] = []"
  shows "CheckOperations sortByTime fmtv fmts sch (KvModel mapOrder) [] = None"
  using assms(2)
  by (simp add: select_loop_blocks [OF assms(1)] CheckOperations_def checkOperations_def fillDefault_KvModel kv_Partition_def
      checkParallel_def Let_def)

theorem CheckOperations_empty_blocks_witness:
  "CheckOperations (sort_by byTime_Less) (\<lambda>_. []) (\<lambda>_. []) (sample_schedule\<lparr>sc_arrivals := []\<rparr>)
     (KvModel (\<lambda>xs. xs)) [] = None"
  by (rule CheckOperations_empty_blocks) simp_all

end
