(* ===== verification/Visualization.thy ===== *)
theory Visualization
  imports Porcupine
begin

text \<open>
  The data behind the picture of a check (\<open>porcupine/visualization.go\<close>): for every partition the
  operations with their times and descriptions, the partial linearizations with a description of
  the state after each step, and for every operation the largest partial linearization it occurs in.
  \<open>nilv\<close> is the nil interface value, which a map yields for a missing key; \<open>srt\<close> is \<open>sort.Slice\<close>, which
  also reorders the slice of the caller. The page around the data is not modelled.
\<close>

subsection \<open>Computing the data\<close>

record historyElement =
  he_ClientId :: int
  he_Start :: int
  he_End :: int
  he_Description :: string

record linearizationStep =
  ls_Index :: int
  ls_StateDescription :: string

record partitionVisualizationData =
  pv_History :: "historyElement list"
  pv_PartialLinearizations :: "linearizationStep list list"
  pv_Largest :: "int \<rightharpoonup> nat"

definition zero_element :: historyElement where
  "zero_element = \<lparr>he_ClientId = 0, he_Start = 0, he_End = 0, he_Description = []\<rparr>"

definition lookup_value :: "'v \<Rightarrow> (int \<rightharpoonup> 'v) \<Rightarrow> int \<Rightarrow> 'v" where
  "lookup_value nilv m k = (case m k of None \<Rightarrow> nilv | Some v \<Rightarrow> v)"

definition viz_entry ::
    "('v, 's) Model \<Rightarrow> 'v \<Rightarrow> 'v entry \<Rightarrow> historyElement list \<times> (int \<rightharpoonup> 'v) \<times> (int \<rightharpoonup> 'v)
     \<Rightarrow> (historyElement list \<times> (int \<rightharpoonup> 'v) \<times> (int \<rightharpoonup> 'v)) go" where
  "viz_entry model nilv elem = (\<lambda>(history, callValue, returnValue).
     go_bind (slice_get history (e_id elem)) (\<lambda>he.
     case e_kind elem of
       callEntry \<Rightarrow>
         go_bind (slice_set history (e_id elem) (he\<lparr>he_ClientId := e_clientId elem, he_Start := e_time elem\<rparr>)) (\<lambda>history'.
         Inr (history', callValue(e_id elem \<mapsto> e_value elem), returnValue))
     | returnEntry \<Rightarrow>
         (case DescribeOperation model of
            None \<Rightarrow> Inl NilDereference
          | Some describe \<Rightarrow>
              go_bind (describe (lookup_value nilv callValue (e_id elem)) (e_value elem)) (\<lambda>desc.
              go_bind (slice_set history (e_id elem) (he\<lparr>he_End := e_time elem, he_Description := desc\<rparr>)) (\<lambda>history'.
              Inr (history', callValue, returnValue(e_id elem \<mapsto> e_value elem)))))))"

text \<open>One step of the \<open>i\<close>-th partial linearization, which has \<open>len\<close> steps.\<close>

definition viz_step ::
    "('v, 's) Model \<Rightarrow> (int \<Rightarrow> 'v) \<Rightarrow> (int \<Rightarrow> 'v) \<Rightarrow> nat \<Rightarrow> nat \<Rightarrow> int
     \<Rightarrow> 's \<times> linearizationStep list \<times> (int \<rightharpoonup> nat) \<times> (int \<rightharpoonup> nat)
     \<Rightarrow> ('s \<times> linearizationStep list \<times> (int \<rightharpoonup> nat) \<times> (int \<rightharpoonup> nat)) go" where
  "viz_step model callv returnv i len histId = (\<lambda>(state, lin, largestSize, largestIndex).
     go_bind (Step model state (callv histId) (returnv histId)) (\<lambda>(ok, state').
     if \<not> ok then Inl (ExplicitPanic ''valid partial linearization returned non-ok result from model step'')
     else case DescribeState model of
       None \<Rightarrow> Inl NilDereference
     | Some describe \<Rightarrow>
         let lin' = lin @ [\<lparr>ls_Index = histId, ls_StateDescription = describe state'\<rparr>] in
         if (case largestSize histId of None \<Rightarrow> 0 | Some k \<Rightarrow> k) < len
         then Inr (state', lin', largestSize(histId \<mapsto> len), largestIndex(histId \<mapsto> i))
         else Inr (state', lin', largestSize, largestIndex)))"

definition viz_partial ::
    "('v, 's) Model \<Rightarrow> (int \<Rightarrow> 'v) \<Rightarrow> (int \<Rightarrow> 'v) \<Rightarrow> nat \<times> int list
     \<Rightarrow> linearizationStep list list \<times> (int \<rightharpoonup> nat) \<times> (int \<rightharpoonup> nat)
     \<Rightarrow> (linearizationStep list list \<times> (int \<rightharpoonup> nat) \<times> (int \<rightharpoonup> nat)) go" where
  "viz_partial model callv returnv = (\<lambda>(i, partial) (linearizations, largestSize, largestIndex).
     go_bind (go_fold (viz_step model callv returnv i (length partial)) partial (Init model, [], largestSize, largestIndex))
       (\<lambda>(_, lin, largestSize', largestIndex'). Inr (linearizations @ [lin], largestSize', largestIndex')))"

text \<open>One partition: its data and its partial linearizations in their new order.\<close>

definition viz_partition ::
    "('v, 's) Model \<Rightarrow> 'v \<Rightarrow> (int list list \<Rightarrow> int list list) \<Rightarrow> 'v entry list \<Rightarrow> int list list go
     \<Rightarrow> (partitionVisualizationData \<times> int list list) go" where
  "viz_partition model nilv srt hist partials =
     go_bind (go_fold (viz_entry model nilv) hist (replicate (length hist div 2) zero_element, Map.empty, Map.empty))
       (\<lambda>(history, callValue, returnValue).
     go_bind partials (\<lambda>ps.
     let ps' = srt ps in
     go_bind (go_fold (viz_partial model (lookup_value nilv callValue) (lookup_value nilv returnValue))
         (zip [0..<length ps'] ps') ([], Map.empty, Map.empty)) (\<lambda>(linearizations, _, largestIndex).
     Inr (\<lparr>pv_History = history, pv_PartialLinearizations = linearizations, pv_Largest = largestIndex\<rparr>, ps'))))"

definition computeVisualizationData ::
    "('v \<Rightarrow> string) \<Rightarrow> ('s \<Rightarrow> string) \<Rightarrow> 'v \<Rightarrow> (int list list \<Rightarrow> int list list) \<Rightarrow> ('v, 's) Model \<Rightarrow> 'v linearizationInfo
     \<Rightarrow> (partitionVisualizationData list \<times> 'v linearizationInfo) go" where
  "computeVisualizationData fmtv fmts nilv srt model0 info =
     (let model = fillDefault fmtv fmts model0 in
      go_fold (\<lambda>partition (data, info).
        go_bind (viz_partition model nilv srt (li_history info ! partition)
            (slice_get (li_partialLinearizations info) (int partition))) (\<lambda>(pv, ps).
        Inr (data @ [pv], info\<lparr>li_partialLinearizations := (li_partialLinearizations info)[partition := ps]\<rparr>)))
        [0..<length (li_history info)] ([], info))"

text \<open>
  \<open>Visualize\<close>: \<open>marshal\<close> is \<open>json.Marshal\<close>, \<open>None\<close> on an error, and \<open>put\<close> prints the page with the data into the
  output, \<open>None\<close> on an error. The result is whether there was no error, and the output.
\<close>

definition Visualize ::
    "(partitionVisualizationData list \<Rightarrow> 'j option) \<Rightarrow> ('j \<Rightarrow> 'w \<Rightarrow> 'w option) \<Rightarrow> ('v \<Rightarrow> string) \<Rightarrow> ('s \<Rightarrow> string) \<Rightarrow> 'v
     \<Rightarrow> (int list list \<Rightarrow> int list list) \<Rightarrow> ('v, 's) Model \<Rightarrow> 'v linearizationInfo \<Rightarrow> 'w \<Rightarrow> (bool \<times> 'w) go" where
  "Visualize marshal put fmtv fmts nilv srt model info out =
     go_bind (computeVisualizationData fmtv fmts nilv srt model info) (\<lambda>(data, _).
     case marshal data of
       None \<Rightarrow> Inr (False, out)
     | Some jsonData \<Rightarrow> (case put jsonData out of None \<Rightarrow> Inr (False, out) | Some out' \<Rightarrow> Inr (True, out')))"

text \<open>\<open>VisualizePath\<close>: \<open>create\<close> is \<open>os.Create\<close> of the path, the new empty file or an error.\<close>

definition VisualizePath ::
    "'w option \<Rightarrow> (partitionVisualizationData list \<Rightarrow> 'j option) \<Rightarrow> ('j \<Rightarrow> 'w \<Rightarrow> 'w option) \<Rightarrow> ('v \<Rightarrow> string) \<Rightarrow> ('s \<Rightarrow> string) \<Rightarrow> 'v
     \<Rightarrow> (int list list \<Rightarrow> int list list) \<Rightarrow> ('v, 's) Model \<Rightarrow> 'v linearizationInfo \<Rightarrow> (bool \<times> 'w option) go" where
  "VisualizePath create marshal put fmtv fmts nilv srt model info =
     (case create of
        None \<Rightarrow> Inr (False, None)
      | Some f \<Rightarrow> go_bind (Visualize marshal put fmtv fmts nilv srt model info f) (\<lambda>(ok, f'). Inr (ok, Some f')))"

subsection \<open>The operations\<close>

definition call_of :: "'v entry list \<Rightarrow> nat \<Rightarrow> 'v entry" where
  "call_of es i = hd (filter (is_call i) es)"

definition return_of :: "'v entry list \<Rightarrow> nat \<Rightarrow> 'v entry" where
  "return_of es i = hd (filter (is_return i) es)"

text \<open>The element of operation \<open>i\<close> after the entries \<open>us\<close> of the history \<open>es\<close>.\<close>

definition shown :: "(nat \<Rightarrow> string) \<Rightarrow> 'v entry list \<Rightarrow> 'v entry list \<Rightarrow> nat \<Rightarrow> historyElement" where
  "shown desc es us i =
     \<lparr>he_ClientId = (if \<exists>e\<in>set us. is_call i e then e_clientId (call_of es i) else 0),
      he_Start = (if \<exists>e\<in>set us. is_call i e then e_time (call_of es i) else 0),
      he_End = (if \<exists>e\<in>set us. is_return i e then e_time (return_of es i) else 0),
      he_Description = (if \<exists>e\<in>set us. is_return i e then desc i else [])\<rparr>"

lemma shown_upd:
  "is_call i e \<Longrightarrow> e = call_of es i \<Longrightarrow>
     shown desc es (us @ [e]) i = (shown desc es us i)\<lparr>he_ClientId := e_clientId e, he_Start := e_time e\<rparr>"
  "is_return i e \<Longrightarrow> e = return_of es i \<Longrightarrow>
     shown desc es (us @ [e]) i = (shown desc es us i)\<lparr>he_End := e_time e, he_Description := desc i\<rparr>"
  by (auto simp: shown_def is_call_def is_return_def)

lemma shown_other: "\<not> is_call j e \<Longrightarrow> \<not> is_return j e \<Longrightarrow> shown desc es (us @ [e]) j = shown desc es us j"
  by (simp add: shown_def)

lemma the_entry:
  assumes "complete_history n es" and "e \<in> set es"
  shows "is_call i e \<Longrightarrow> call_of es i = e" and "is_return i e \<Longrightarrow> return_of es i = e"
  unfolding call_of_def return_of_def
  using complete_unique [OF assms(1) _ assms(2)]
  by (auto intro!: hd_filter_unique [OF assms(2)] simp: is_call_def is_return_def)

lemma viz_history_prefix:
  assumes h: "complete_history n es" and d: "DescribeOperation model = Some describe"
    and desc: "\<And>i. i < n \<Longrightarrow> describe (call_value es i) (return_value es i) = Inr (desc i)"
    and "es = us @ vs"
  shows "\<exists>cv rv. go_fold (viz_entry model nilv) us (replicate n zero_element, Map.empty, Map.empty) =
      Inr (map (shown desc es us) [0..<n], cv, rv) \<and>
    (\<forall>e\<in>set us. \<forall>i. (is_call i e \<longrightarrow> cv (int i) = Some (call_value es i)) \<and> (is_return i e \<longrightarrow> rv (int i) = Some (return_value es i)))"
  using assms(4)
proof (induction us arbitrary: vs rule: rev_induct)
  case Nil
  have "replicate n zero_element = map (shown desc es []) [0..<n]"
    by (rule nth_equalityI) (simp_all add: shown_def zero_element_def)
  then show ?case by simp
next
  case (snoc e us)
  then obtain cv rv where IH: "go_fold (viz_entry model nilv) us (replicate n zero_element, Map.empty, Map.empty) =
      Inr (map (shown desc es us) [0..<n], cv, rv)"
    and vals: "\<forall>e\<in>set us. \<forall>i. (is_call i e \<longrightarrow> cv (int i) = Some (call_value es i)) \<and> (is_return i e \<longrightarrow> rv (int i) = Some (return_value es i))"
    by fastforce
  have e: "e \<in> set es" using snoc.prems by simp
  define i where "i = nat (e_id e)"
  have i: "i < n" "e_id e = int i" using complete_id_bound [OF h e] by (simp_all add: i_def)
  have upd: "(map (shown desc es us) [0..<n])[i := shown desc es (us @ [e]) i] = map (shown desc es (us @ [e])) [0..<n]"
  proof (rule nth_equalityI)
    fix j assume "j < length ((map (shown desc es us) [0..<n])[i := shown desc es (us @ [e]) i])"
    then show "(map (shown desc es us) [0..<n])[i := shown desc es (us @ [e]) i] ! j = map (shown desc es (us @ [e])) [0..<n] ! j"
      by (cases "j = i") (simp_all add: shown_other is_call_def is_return_def i(2))
  qed simp
  show ?case
  proof (cases "e_kind e")
    case callEntry
    then have c: "is_call i e" using i(2) by (simp add: is_call_def)
    have "go_fold (viz_entry model nilv) (us @ [e]) (replicate n zero_element, Map.empty, Map.empty) =
        Inr (map (shown desc es (us @ [e])) [0..<n], cv(int i \<mapsto> e_value e), rv)"
      using upd shown_upd(1) [OF c the_entry(1) [OF h e c, symmetric]] i callEntry IH by (simp add: viz_entry_def)
    moreover have "e_value e = call_value es i" using call_value_eq [OF h e c] by simp
    ultimately show ?thesis using vals c by (auto simp: is_call_def is_return_def)
  next
    case returnEntry
    then have r: "is_return i e" using i(2) by (simp add: is_return_def)
    obtain us' c vs' r' ws where s: "es = us' @ c # vs' @ r' # ws" "is_call i c" "is_return i r'"
      using complete_call [OF h i(1)] .
    have "r' = e" using complete_unique [OF h _ e, of r'] s r by (simp add: is_return_def)
    then have "us @ e # vs = (us' @ c # vs') @ e # ws" using s(1) snoc.prems by simp
    moreover have "e \<notin> set us" "e \<notin> set vs" using complete_distinct [OF h] snoc.prems by auto
    ultimately have "us = us' @ c # vs'" using append_Cons_eq_iff [of e us vs "us' @ c # vs'" ws] by blast
    then have "cv (int i) = Some (call_value es i)" using vals s(2) by auto
    moreover have "e_value e = return_value es i" using return_value_eq [OF h e r] by simp
    ultimately have "go_fold (viz_entry model nilv) (us @ [e]) (replicate n zero_element, Map.empty, Map.empty) =
        Inr (map (shown desc es (us @ [e])) [0..<n], cv, rv(int i \<mapsto> return_value es i))"
      using upd shown_upd(2) [OF r the_entry(2) [OF h e r, symmetric]] i returnEntry IH d desc [OF i(1)]
      by (simp add: viz_entry_def lookup_value_def)
    then show ?thesis using vals r by (auto simp: is_call_def is_return_def)
  qed
qed

text \<open>After the whole history every operation is shown and both tables are complete.\<close>

lemma viz_history:
  assumes h: "complete_history n es" and "DescribeOperation model = Some describe"
    and "\<And>i. i < n \<Longrightarrow> describe (call_value es i) (return_value es i) = Inr (desc i)"
  shows "\<exists>cv rv. go_fold (viz_entry model nilv) es (replicate n zero_element, Map.empty, Map.empty) =
      Inr (map (\<lambda>i. \<lparr>he_ClientId = e_clientId (call_of es i), he_Start = e_time (call_of es i),
        he_End = e_time (return_of es i), he_Description = desc i\<rparr>) [0..<n], cv, rv) \<and>
    (\<forall>i<n. cv (int i) = Some (call_value es i) \<and> rv (int i) = Some (return_value es i))"
proof -
  have ex: "(\<exists>e\<in>set es. is_call i e) \<and> (\<exists>e\<in>set es. is_return i e)" if "i < n" for i
    using complete_call [OF h that] by (metis in_set_conv_decomp append_Cons append_assoc)
  then have "map (shown desc es es) [0..<n] = map (\<lambda>i. \<lparr>he_ClientId = e_clientId (call_of es i), he_Start = e_time (call_of es i),
      he_End = e_time (return_of es i), he_Description = desc i\<rparr>) [0..<n]"
    by (simp add: shown_def)
  moreover obtain cv rv where "go_fold (viz_entry model nilv) es (replicate n zero_element, Map.empty, Map.empty) =
      Inr (map (shown desc es es) [0..<n], cv, rv)"
    and vals: "\<forall>e\<in>set es. \<forall>i. (is_call i e \<longrightarrow> cv (int i) = Some (call_value es i)) \<and> (is_return i e \<longrightarrow> rv (int i) = Some (return_value es i))"
    using viz_history_prefix [OF assms, of es "[]" nilv] by auto
  moreover have "\<forall>i<n. cv (int i) = Some (call_value es i) \<and> rv (int i) = Some (return_value es i)" using ex vals by blast
  ultimately show ?thesis by metis
qed

subsection \<open>The partial linearizations\<close>

fun steps_shown :: "('v, 's) Model \<Rightarrow> ('s \<Rightarrow> string) \<Rightarrow> 'v entry list \<Rightarrow> 's \<Rightarrow> nat list \<Rightarrow> linearizationStep list" where
  "steps_shown model describe es s [] = []"
| "steps_shown model describe es s (i # is) =
     (case op_step model es s i of
        None \<Rightarrow> []
      | Some s' \<Rightarrow> \<lparr>ls_Index = int i, ls_StateDescription = describe s'\<rparr> # steps_shown model describe es s' is)"

definition larger :: "(int \<rightharpoonup> nat) \<Rightarrow> nat \<Rightarrow> int \<Rightarrow> bool" where
  "larger largestSize len h \<longleftrightarrow> (case largestSize h of None \<Rightarrow> 0 | Some k \<Rightarrow> k) < len"

lemma viz_steps:
  assumes "run model es s is \<noteq> None" and "DescribeState model = Some describe"
    and "\<forall>i\<in>set is. callv (int i) = call_value es i \<and> returnv (int i) = return_value es i"
  shows "\<exists>s'. go_fold (viz_step model callv returnv k len) (map int is) (s, lin, lsz, lidx) =
    Inr (s', lin @ steps_shown model describe es s is,
      \<lambda>h. if h \<in> int ` set is \<and> larger lsz len h then Some len else lsz h,
      \<lambda>h. if h \<in> int ` set is \<and> larger lsz len h then Some k else lidx h)"
  using assms(1,3)
proof (induction "is" arbitrary: s lin lsz lidx)
  case (Cons i "is")
  from Cons.prems(1) obtain s1 where s1: "op_step model es s i = Some s1" "run model es s1 is \<noteq> None"
    by (auto split: option.splits)
  then have st: "Step model s (callv (int i)) (returnv (int i)) = Inr (True, s1)"
    using Cons.prems(2) by (auto simp: op_step_def split: sum.splits bool.splits)
  let ?u = "larger lsz len (int i)"
  let ?lsz = "if ?u then lsz(int i \<mapsto> len) else lsz" and ?lidx = "if ?u then lidx(int i \<mapsto> k) else lidx"
  have one: "viz_step model callv returnv k len (int i) (s, lin, lsz, lidx) =
      Inr (s1, lin @ [\<lparr>ls_Index = int i, ls_StateDescription = describe s1\<rparr>], ?lsz, ?lidx)"
    using st assms(2) by (simp add: viz_step_def larger_def)
  have up: "(if h \<in> int ` set is \<and> larger ?lsz len h then Some v else (if ?u then m(int i \<mapsto> v) else m) h) =
      (if h \<in> int ` set (i # is) \<and> larger lsz len h then Some v else m h)" for h m and v :: nat
    by (cases "h = int i"; cases ?u) (simp_all add: larger_def image_iff)
  obtain s' where "go_fold (viz_step model callv returnv k len) (map int is)
      (s1, lin @ [\<lparr>ls_Index = int i, ls_StateDescription = describe s1\<rparr>], ?lsz, ?lidx) =
    Inr (s', (lin @ [\<lparr>ls_Index = int i, ls_StateDescription = describe s1\<rparr>]) @ steps_shown model describe es s1 is,
      \<lambda>h. if h \<in> int ` set is \<and> larger ?lsz len h then Some len else ?lsz h,
      \<lambda>h. if h \<in> int ` set is \<and> larger ?lsz len h then Some k else ?lidx h)"
    using Cons.IH [OF s1(2)] Cons.prems(2) by fastforce
  then show ?case unfolding up using one s1(1) by simp
qed (simp add: larger_def)

text \<open>The first sequence that contains an index, counted from \<open>k\<close>.\<close>

fun first_in :: "nat \<Rightarrow> int list list \<Rightarrow> int \<Rightarrow> nat option" where
  "first_in k [] h = None"
| "first_in k (q # qs) h = (if h \<in> set q then Some k else first_in (Suc k) qs h)"

lemma first_in_ge: "first_in k qs h = Some j \<Longrightarrow> k \<le> j"
  by (induction qs arbitrary: k) (auto split: if_splits dest: Suc_leD)

lemma first_in_iff:
  "first_in k qs h = Some (k + j) \<longleftrightarrow> j < length qs \<and> h \<in> set (qs ! j) \<and> (\<forall>i<j. h \<notin> set (qs ! i))"
proof (induction qs arbitrary: k j)
  case (Cons q qs)
  show ?case
  proof (cases j)
    case 0
    then show ?thesis using first_in_ge [of "Suc k" qs h k] by auto
  next
    case (Suc j')
    then show ?thesis using Cons.IH [of "Suc k" j'] by (auto simp: All_less_Suc2)
  qed
qed simp

text \<open>Processing partial linearizations from the longest to the shortest.\<close>

lemma viz_partials:
  assumes "\<forall>is\<in>set iss. run model es (Init model) is \<noteq> None \<and>
      (\<forall>i\<in>set is. callv (int i) = call_value es i \<and> returnv (int i) = return_value es i)"
    and "DescribeState model = Some describe" and "sorted_wrt (\<lambda>p q. length q \<le> length p) iss"
    and "\<forall>h. lsz h = None \<longleftrightarrow> lidx h = None" and "\<forall>h m. lsz h = Some m \<longrightarrow> (\<forall>is\<in>set iss. length is \<le> m)"
  shows "\<exists>lsz'. go_fold (viz_partial model callv returnv) (zip [k..<k + length iss] (map (map int) iss)) (lins, lsz, lidx) =
    Inr (lins @ map (steps_shown model describe es (Init model)) iss, lsz',
      \<lambda>h. case lidx h of Some j \<Rightarrow> Some j | None \<Rightarrow> first_in k (map (map int) iss) h)"
  using assms(1,3-)
proof (induction iss arbitrary: k lins lsz lidx)
  case Nil
  show ?case by (intro exI [of _ lsz]) (simp add: fun_eq_iff split: option.splits)
next
  case (Cons "is" iss)
  let ?len = "length is"
  let ?lsz = "\<lambda>h. if h \<in> int ` set is \<and> larger lsz ?len h then Some ?len else lsz h"
  let ?lidx = "\<lambda>h. if h \<in> int ` set is \<and> larger lsz ?len h then Some k else lidx h"
  obtain s' where one: "viz_partial model callv returnv (k, map int is) (lins, lsz, lidx) =
      Inr (lins @ [steps_shown model describe es (Init model) is], ?lsz, ?lidx)"
    using viz_steps [of model es "Init model" "is" describe callv returnv k ?len "[]" lsz lidx] Cons.prems(1) assms(2)
    by (auto simp: viz_partial_def)
  have old: "?len \<le> m" if "lsz h = Some m" for h m using Cons.prems(4) that by simp
  have new: "larger lsz ?len h \<longleftrightarrow> lsz h = None" if "h \<in> int ` set is" for h
    using old [of h] that by (cases "lsz h") (auto simp: larger_def not_less)
  have "\<exists>lsz'. go_fold (viz_partial model callv returnv) (zip [Suc k..<Suc k + length iss] (map (map int) iss))
      (lins @ [steps_shown model describe es (Init model) is], ?lsz, ?lidx) =
    Inr ((lins @ [steps_shown model describe es (Init model) is]) @ map (steps_shown model describe es (Init model)) iss, lsz',
      \<lambda>h. case ?lidx h of Some j \<Rightarrow> Some j | None \<Rightarrow> first_in (Suc k) (map (map int) iss) h)"
    by (rule Cons.IH) (use Cons.prems in \<open>auto split: if_splits\<close>)
  moreover have "(\<lambda>h. case ?lidx h of Some j \<Rightarrow> Some j | None \<Rightarrow> first_in (Suc k) (map (map int) iss) h) =
      (\<lambda>h. case lidx h of Some j \<Rightarrow> Some j | None \<Rightarrow> first_in k (map (map int) (is # iss)) h)"
    using Cons.prems(3) new by (auto simp: fun_eq_iff split: option.splits)
  moreover have "zip [k..<k + length (is # iss)] (map (map int) (is # iss)) =
      (k, map int is) # zip [Suc k..<Suc k + length iss] (map (map int) iss)"
    by (simp add: upt_conv_Cons del: upt_Suc)
  ultimately show ?case by (simp add: one del: upt_Suc)
qed

lemma steps_shown_facts:
  assumes "run model es s is \<noteq> None"
  shows "map ls_Index (steps_shown model describe es s is) = map int is \<and>
    (\<forall>k<length is. \<exists>s'. run model es s (take (Suc k) is) = Some s' \<and> ls_StateDescription (steps_shown model describe es s is ! k) = describe s')"
  using assms
proof (induction "is" arbitrary: s)
  case (Cons i "is")
  then obtain s1 where s1: "op_step model es s i = Some s1" "run model es s1 is \<noteq> None" by (auto split: option.splits)
  show ?case
  proof (intro conjI allI impI)
    show "map ls_Index (steps_shown model describe es s (i # is)) = map int (i # is)" using Cons.IH [OF s1(2)] s1(1) by simp
    fix k assume "k < length (i # is)"
    then show "\<exists>s'. run model es s (take (Suc k) (i # is)) = Some s' \<and>
        ls_StateDescription (steps_shown model describe es s (i # is) ! k) = describe s'"
      using Cons.IH [OF s1(2)] s1(1) by (cases k) auto
  qed
qed simp

subsection \<open>One partition\<close>

definition longest_first :: "int list \<Rightarrow> int list \<Rightarrow> bool" where
  "longest_first p q \<longleftrightarrow> length p > length q"

lemma viz_partition_shown:
  assumes h: "complete_history n es" and d: "DescribeOperation model = Some describe" "DescribeState model = Some describeState"
    and desc: "\<And>i. i < n \<Longrightarrow> describe (call_value es i) (return_value es i) = Inr (desc i)"
    and ps: "partials_ok model n es ps" and srt: "is_go_sort longest_first srt"
  shows "\<exists>iss. map (map int) iss = srt ps \<and> (\<forall>is\<in>set iss. partial_linearization model n es is) \<and>
    viz_partition model nilv srt es (Inr ps) =
      Inr (\<lparr>pv_History = map (\<lambda>i. \<lparr>he_ClientId = e_clientId (call_of es i), he_Start = e_time (call_of es i),
               he_End = e_time (return_of es i), he_Description = desc i\<rparr>) [0..<n],
             pv_PartialLinearizations = map (steps_shown model describeState es (Init model)) iss,
             pv_Largest = first_in 0 (srt ps)\<rparr>, srt ps)"
proof -
  have "sort_result longest_first ps (srt ps)" using srt by (simp add: is_go_sort_def)
  then have s: "set (srt ps) = set ps" "sorted_wrt (\<lambda>p q. length q \<le> length p) (srt ps)"
    by (auto simp: sort_result_def longest_first_def not_less dest: mset_eq_setD)
  have "\<forall>p\<in>set (srt ps). \<exists>is. p = map int is \<and> partial_linearization model n es is" using ps s(1) by (auto simp: partials_ok_def)
  then obtain f where f: "\<And>p. p \<in> set (srt ps) \<Longrightarrow> p = map int (f p) \<and> partial_linearization model n es (f p)" by metis
  define iss where "iss = map f (srt ps)"
  have iss: "map (map int) iss = srt ps" using f by (simp add: iss_def map_idI)
  have pl: "\<forall>is\<in>set iss. partial_linearization model n es is" using f by (simp add: iss_def)
  have "sorted_wrt (\<lambda>p q. length (map int q) \<le> length (map int p)) iss" using s(2) unfolding iss [symmetric] sorted_wrt_map by simp
  then have sorted: "sorted_wrt (\<lambda>p q. length q \<le> length p) iss" by simp
  obtain cv rv where H: "go_fold (viz_entry model nilv) es (replicate n zero_element, Map.empty, Map.empty) =
      Inr (map (\<lambda>i. \<lparr>he_ClientId = e_clientId (call_of es i), he_Start = e_time (call_of es i),
        he_End = e_time (return_of es i), he_Description = desc i\<rparr>) [0..<n], cv, rv)"
    "\<forall>i<n. cv (int i) = Some (call_value es i) \<and> rv (int i) = Some (return_value es i)"
    using viz_history [OF h d(1) desc] by blast
  have "\<forall>is\<in>set iss. run model es (Init model) is \<noteq> None \<and> (\<forall>i\<in>set is. lookup_value nilv cv (int i) = call_value es i \<and>
      lookup_value nilv rv (int i) = return_value es i)"
    using pl H(2) by (fastforce simp: partial_linearization_def lookup_value_def)
  from viz_partials [OF this d(2) sorted, of Map.empty Map.empty 0 "[]"]
  have "\<exists>lsz'. go_fold (viz_partial model (lookup_value nilv cv) (lookup_value nilv rv)) (zip [0..<length (srt ps)] (srt ps))
      ([], Map.empty, Map.empty) = Inr (map (steps_shown model describeState es (Init model)) iss, lsz', first_in 0 (srt ps))"
    unfolding iss [symmetric] by simp
  moreover have "length es div 2 = n" using complete_length [OF h] by simp
  ultimately show ?thesis using H(1) iss pl by (auto simp: viz_partition_def Let_def intro!: exI [of _ iss])
qed

subsection \<open>All partitions\<close>

lemma viz_fold:
  assumes "\<forall>i<length (li_history info). viz_partition model nilv srt (li_history info ! i) (Inr (li_partialLinearizations info ! i)) = Inr (pv i, qs i)"
    and "length (li_partialLinearizations info) = length (li_history info)" and "k \<le> length (li_history info)"
  shows "go_fold (\<lambda>partition (data, info).
      go_bind (viz_partition model nilv srt (li_history info ! partition)
          (slice_get (li_partialLinearizations info) (int partition))) (\<lambda>(pv, ps).
      Inr (data @ [pv], info\<lparr>li_partialLinearizations := (li_partialLinearizations info)[partition := ps]\<rparr>)))
      [0..<k] ([], info) =
    Inr (map pv [0..<k], info\<lparr>li_partialLinearizations := map qs [0..<k] @ drop k (li_partialLinearizations info)\<rparr>)"
  using assms(3)
proof (induction k)
  case (Suc k)
  let ?l = "li_partialLinearizations info"
  have k: "k < length ?l" using Suc.prems assms(2) by simp
  have "(map qs [0..<k] @ drop k ?l)[k := qs k] = map qs [0..<Suc k] @ drop (Suc k) ?l"
    using k by (simp add: list_update_append Cons_nth_drop_Suc [OF k, symmetric])
  moreover have "(map qs [0..<k] @ drop k ?l) ! k = ?l ! k" using k by (simp add: nth_append)
  ultimately show ?case using Suc assms(1) k by simp
qed simp

text \<open>
  What the data of one partition must be: one element per operation, with its client, its times and
  its description; the sequences \<open>ps\<close>, with after each step the description of the state that the
  model reaches by the operations up to it; and for each operation the first sequence with it.
\<close>

definition partition_shown ::
    "('v, 's) Model \<Rightarrow> ('v \<Rightarrow> 'v \<Rightarrow> string go) \<Rightarrow> ('s \<Rightarrow> string) \<Rightarrow> 'v Operation list \<Rightarrow> int list list
     \<Rightarrow> partitionVisualizationData \<Rightarrow> bool" where
  "partition_shown model describe describeState ops ps pv \<longleftrightarrow>
     length (pv_History pv) = length ops \<and>
     (\<forall>k<length ops. he_ClientId (pv_History pv ! k) = op_ClientId (ops ! k) \<and> he_Start (pv_History pv ! k) = op_Call (ops ! k) \<and>
        he_End (pv_History pv ! k) = op_Return (ops ! k) \<and>
        describe (op_Input (ops ! k)) (op_Output (ops ! k)) = Inr (he_Description (pv_History pv ! k))) \<and>
     map (map ls_Index) (pv_PartialLinearizations pv) = ps \<and>
     (\<forall>lin\<in>set (pv_PartialLinearizations pv). \<forall>k<length lin. \<exists>s.
        run_ops model (Init model) (map (\<lambda>l. ops ! nat (ls_Index l)) (take (Suc k) lin)) = Some s \<and>
        ls_StateDescription (lin ! k) = describeState s) \<and>
     (\<forall>h j. pv_Largest pv h = Some j \<longleftrightarrow> j < length ps \<and> h \<in> set (ps ! j) \<and> (\<forall>i<j. h \<notin> set (ps ! i)))"

lemma steps_shown_ops:
  assumes "is_go_sort byTime_Less sortByTime" and "timed ops"
    and "partial_linearization model (length ops) (makeEntries sortByTime ops) is"
    and "k < length (steps_shown model describeState (makeEntries sortByTime ops) (Init model) is)"
  shows "\<exists>s. run_ops model (Init model)
      (map (\<lambda>l. ops ! nat (ls_Index l)) (take (Suc k) (steps_shown model describeState (makeEntries sortByTime ops) (Init model) is))) = Some s \<and>
    ls_StateDescription (steps_shown model describeState (makeEntries sortByTime ops) (Init model) is ! k) = describeState s"
proof -
  let ?es = "makeEntries sortByTime ops" and ?lin = "steps_shown model describeState (makeEntries sortByTime ops) (Init model) is"
  have pl: "set is \<subseteq> {..<length ops}" "run model ?es (Init model) is \<noteq> None" using assms(3) by (auto simp: partial_linearization_def)
  note F = steps_shown_facts [OF pl(2), of describeState]
  have idx: "map ls_Index ?lin = map int is" using F by blast
  then have len: "length ?lin = length is" by (metis length_map)
  have "map (\<lambda>l. ops ! nat (ls_Index l)) (take (Suc k) ?lin) = map (\<lambda>i. ops ! nat i) (take (Suc k) (map ls_Index ?lin))"
    by (simp add: take_map)
  also have "\<dots> = map ((!) ops) (take (Suc k) is)" unfolding idx by (simp add: take_map)
  finally have eq: "map (\<lambda>l. ops ! nat (ls_Index l)) (take (Suc k) ?lin) = map ((!) ops) (take (Suc k) is)" .
  have "set (take (Suc k) is) \<subseteq> {..<length ops}" by (rule subset_trans [OF set_take_subset pl(1)])
  from entry_sort.run_values [OF entry_sort.intro [OF assms(1)] assms(2) this, of model "Init model"]
  have "run model ?es (Init model) (take (Suc k) is) = run_ops model (Init model) (map ((!) ops) (take (Suc k) is))" .
  moreover have "k < length is" using assms(4) len by simp
  then obtain s where "run model ?es (Init model) (take (Suc k) is) = Some s" "ls_StateDescription (?lin ! k) = describeState s"
    using F by blast
  ultimately show ?thesis unfolding eq by metis
qed

lemma partition_shown_entries:
  assumes srt: "is_go_sort byTime_Less sortByTime" and t: "timed ops" and d: "DescribeOperation model = Some describe" "DescribeState model = Some describeState"
    and desc: "\<forall>x\<in>set ops. \<exists>s. describe (op_Input x) (op_Output x) = Inr s"
    and ps: "partials_ok model (length ops) (makeEntries sortByTime ops) ps" and sps: "is_go_sort longest_first sortPs"
  shows "\<exists>pv. viz_partition model nilv sortPs (makeEntries sortByTime ops) (Inr ps) = Inr (pv, sortPs ps) \<and>
    partition_shown model describe describeState ops (sortPs ps) pv"
proof -
  let ?es = "makeEntries sortByTime ops" and ?n = "length ops"
  note es = entry_sort.intro [OF srt]
  note h = entry_sort.complete [OF es t]
  obtain f where f: "\<And>x. x \<in> set ops \<Longrightarrow> describe (op_Input x) (op_Output x) = Inr (f x)" using desc by metis
  have v: "describe (call_value ?es i) (return_value ?es i) = Inr (f (ops ! i))" if "i < ?n" for i
    using f entry_sort.entry_values [OF es t that] that by simp
  have "call_entry ops i \<in> set ?es" "return_entry ops i \<in> set ?es" if "i < ?n" for i
    using entry_sort.set_es [OF es, of ops] that by auto
  then have ce: "call_of ?es i = call_entry ops i" "return_of ?es i = return_entry ops i" if "i < ?n" for i
    using the_entry [OF h] that by (simp_all add: entry_defs)
  obtain iss where I: "map (map int) iss = sortPs ps" "\<forall>is\<in>set iss. partial_linearization model ?n ?es is"
    "viz_partition model nilv sortPs ?es (Inr ps) =
      Inr (\<lparr>pv_History = map (\<lambda>i. \<lparr>he_ClientId = e_clientId (call_of ?es i), he_Start = e_time (call_of ?es i),
               he_End = e_time (return_of ?es i), he_Description = f (ops ! i)\<rparr>) [0..<?n],
             pv_PartialLinearizations = map (steps_shown model describeState ?es (Init model)) iss,
             pv_Largest = first_in 0 (sortPs ps)\<rparr>, sortPs ps)"
    using viz_partition_shown [OF h d v ps sps] by blast
  have "map ls_Index (steps_shown model describeState ?es (Init model) is) = map int is" if "is \<in> set iss" for "is"
    using steps_shown_facts [of model ?es "Init model" "is" describeState] I(2) that by (auto simp: partial_linearization_def)
  then have "map (map ls_Index) (map (steps_shown model describeState ?es (Init model)) iss) = map (map int) iss" by simp
  moreover have "first_in 0 (sortPs ps) h = Some j \<longleftrightarrow> j < length (sortPs ps) \<and> h \<in> set (sortPs ps ! j) \<and> (\<forall>i<j. h \<notin> set (sortPs ps ! i))" for h j
    using first_in_iff [of 0 "sortPs ps" h j] by simp
  moreover have "\<forall>lin\<in>set (map (steps_shown model describeState ?es (Init model)) iss). \<forall>k<length lin. \<exists>s.
      run_ops model (Init model) (map (\<lambda>l. ops ! nat (ls_Index l)) (take (Suc k) lin)) = Some s \<and> ls_StateDescription (lin ! k) = describeState s"
    using I(2) by (auto intro!: steps_shown_ops [OF srt t])
  ultimately show ?thesis unfolding I(3) partition_shown_def using I(1) f ce by (simp add: entry_defs)
qed

subsection \<open>Properties\<close>

text \<open>
  C8. The picture of a verbose check is right: under the conditions of a check, when operations can be
  described, \<open>computeVisualizationData\<close> on the information that \<open>checkOperations\<close> returned, whatever
  its verdict, does not panic (its check that partial linearizations are valid never fires) and
  describes every partition: each operation with its client, times and description, the partial
  linearizations from the longest to the shortest with the states they lead through, and for each
  operation the first, hence a longest, partial linearization that contains it.
\<close>

theorem visualization_of_check:
  assumes "fillDefault fmtv fmts model0 = model" and "Equal model = Some eq"
    and "\<And>s t i out s'. eq s t \<Longrightarrow> Step model s i out = Inr (True, s') \<Longrightarrow> \<exists>t'. Step model t i out = Inr (True, t') \<and> eq s' t'"
    and "Partition model = Some part" and "part history = Inr parts" and "parts \<noteq> []"
    and "\<forall>p\<in>set parts. timed p \<and> steps_total model p"
    and "is_go_sort byTime_Less sortByTime" and "schedule_ok (length parts) sch"
    and "DescribeOperation model = Some describe" and "DescribeState model = Some describeState"
    and "\<forall>p\<in>set parts. \<forall>x\<in>set p. \<exists>s. describe (op_Input x) (op_Output x) = Inr s"
    and "is_go_sort longest_first sortPs"
  shows "\<exists>res info data info'. checkOperations sortByTime fmtv fmts sch model0 history True timeout = Some (Inr (res, info)) \<and>
    computeVisualizationData fmtv fmts nilv sortPs model0 info = Inr (data, info') \<and> length data = length parts \<and>
    (\<forall>i<length parts.
       partition_shown model describe describeState (parts ! i) (sortPs (li_partialLinearizations info ! i)) (data ! i) \<and>
       sorted_wrt (\<lambda>p q. length q \<le> length p) (sortPs (li_partialLinearizations info ! i)))"
proof -
  have "sequential_model model eq" using assms(2,3) by (rule sequential_model.intro)
  from sequential_model.checkOperations_correct [OF this assms(1,4-9), of True timeout] obtain res info
    where c: "checkOperations sortByTime fmtv fmts sch model0 history True timeout = Some (Inr (res, info))"
      "li_history info = map (makeEntries sortByTime) parts" "length (li_partialLinearizations info) = length parts"
      "\<forall>i<length parts. partials_ok model (length (parts ! i)) (makeEntries sortByTime (parts ! i)) (li_partialLinearizations info ! i)"
    by auto
  let ?ps = "\<lambda>i. li_partialLinearizations info ! i"
  have "\<exists>pv. viz_partition model nilv sortPs (makeEntries sortByTime (parts ! i)) (Inr (?ps i)) = Inr (pv, sortPs (?ps i)) \<and>
      partition_shown model describe describeState (parts ! i) (sortPs (?ps i)) pv" if "i < length parts" for i
    using assms(7) bspec [OF assms(12), of "parts ! i"] c(4) that
    by (intro partition_shown_entries [OF assms(8) _ assms(10,11) _ _ assms(13)]) auto
  then obtain pv where pv: "\<And>i. i < length parts \<Longrightarrow>
      viz_partition model nilv sortPs (makeEntries sortByTime (parts ! i)) (Inr (?ps i)) = Inr (pv i, sortPs (?ps i)) \<and>
      partition_shown model describe describeState (parts ! i) (sortPs (?ps i)) (pv i)" by metis
  have "computeVisualizationData fmtv fmts nilv sortPs model0 info =
      Inr (map pv [0..<length parts], info\<lparr>li_partialLinearizations := map (\<lambda>i. sortPs (?ps i)) [0..<length parts] @
        drop (length parts) (li_partialLinearizations info)\<rparr>)"
    using viz_fold [of info model nilv sortPs pv "\<lambda>i. sortPs (?ps i)" "length parts"] pv c(2,3)
    by (simp add: computeVisualizationData_def assms(1))
  moreover have "sorted_wrt (\<lambda>p q. length q \<le> length p) (sortPs qs)" for qs
    using assms(13) by (auto simp: is_go_sort_def sort_result_def longest_first_def not_less)
  ultimately show ?thesis using c(1) pv by (intro exI [of _ res] exI [of _ info]) auto
qed

theorem visualization_of_check_witness:
  "\<exists>res info data info'. checkOperations (sort_by byTime_Less) (\<lambda>_. []) (\<lambda>_. []) write_schedule write_model [write_op] True 0 =
     Some (Inr (res, info)) \<and>
   computeVisualizationData (\<lambda>_. []) (\<lambda>_. []) 0 (sort_by longest_first) write_model info = Inr (data, info') \<and> length data = 1 \<and>
   he_Start (pv_History (data ! 0) ! 0) = 3 \<and> he_End (pv_History (data ! 0) ! 0) = 4"
proof -
  let ?m = "fillDefault (\<lambda>_. []) (\<lambda>_. []) write_model"
  have m: "Equal ?m = Some ShallowEqual" "Partition ?m = Some NoPartition"
      "DescribeOperation ?m = Some (DefaultDescribeOperation (\<lambda>_. []))" "DescribeState ?m = Some (DefaultDescribeState (\<lambda>_. []))"
    by (simp_all add: fillDefault_def write_model_def)
  have srt: "is_go_sort longest_first (sort_by longest_first)" by (rule sort_by_is_go_sort) (auto simp: longest_first_def)
  have "\<exists>res info data info'. checkOperations (sort_by byTime_Less) (\<lambda>_. []) (\<lambda>_. []) write_schedule write_model [write_op] True 0 =
      Some (Inr (res, info)) \<and>
    computeVisualizationData (\<lambda>_. []) (\<lambda>_. []) 0 (sort_by longest_first) write_model info = Inr (data, info') \<and> length data = length [[write_op]] \<and>
    (\<forall>i<length [[write_op]]. partition_shown ?m (DefaultDescribeOperation (\<lambda>_. [])) (DefaultDescribeState (\<lambda>_. [])) ([[write_op]] ! i)
       (sort_by longest_first (li_partialLinearizations info ! i)) (data ! i) \<and>
       sorted_wrt (\<lambda>p q. length q \<le> length p) (sort_by longest_first (li_partialLinearizations info ! i)))"
    by (rule visualization_of_check [OF refl m(1) _ m(2) _ _ _ byTime_Less_sort _ m(3,4) _ srt])
      (simp_all add: ShallowEqual_def NoPartition_def timed_def steps_total_def write_op_def
        write_model_def schedule_ok_def write_schedule_def ex_bool_eq DefaultDescribeOperation_def)
  then show ?thesis by (auto simp: partition_shown_def write_op_def)
qed

end
