(* ===== verification/Labrpc.thy ===== *)
theory Labrpc
  imports Prelude
begin

text \<open>
  The simulated network of \<open>labrpc/labrpc.go\<close>: client ends, the network with its tables and switches,
  the life of a request, servers and services. Servers are pointers in the source, compared by
  identity to find out whether a server was replaced; here they are addresses. End names and
  server names are values of type variables. Random numbers and the moments at which a request
  looks at the network are arguments; \<open>labgob\<close> appears as the functions that decode arguments and
  encode replies.
\<close>

subsection \<open>Messages and ends\<close>

record 'e reqMsg =
  rq_endname :: 'e
  rq_svcMeth :: string
  rq_args :: string

record replyMsg =
  rp_ok :: bool
  rp_reply :: string

definition noReply :: replyMsg where
  "noReply = \<lparr>rp_ok = False, rp_reply = []\<rparr>"

record 'e ClientEnd =
  ce_endname :: 'e

subsection \<open>The network\<close>

record ('e, 'n) Network =
  reliable :: bool
  longDelays :: bool
  longReordering :: bool
  ends :: "'e \<rightharpoonup> 'e ClientEnd"
  enabled :: "'e \<Rightarrow> bool"
  servers :: "'n \<rightharpoonup> nat"
  connections :: "'e \<rightharpoonup> 'n"
  net_done :: bool
  net_count :: "32 word"
  net_bytes :: "64 word"

definition MakeNetwork :: "('e, 'n) Network" where
  "MakeNetwork =
     \<lparr>reliable = True, longDelays = False, longReordering = False, ends = Map.empty,
      enabled = (\<lambda>_. False), servers = Map.empty, connections = Map.empty, net_done = False,
      net_count = 0, net_bytes = 0\<rparr>"

text \<open>What the goroutine started by \<open>MakeNetwork\<close> does for a request before it processes it.\<close>

definition accept_request :: "'e reqMsg \<Rightarrow> ('e, 'n) Network \<Rightarrow> ('e, 'n) Network" where
  "accept_request req rn =
     rn\<lparr>net_count := net_count rn + 1, net_bytes := net_bytes rn + of_nat (length (rq_args req))\<rparr>"

text \<open>Closing a channel that is closed already panics.\<close>

definition Cleanup :: "('e, 'n) Network \<Rightarrow> ('e, 'n) Network go" where
  "Cleanup rn = (if net_done rn then Inl (ExplicitPanic ''close of closed channel'') else Inr (rn\<lparr>net_done := True\<rparr>))"

definition Reliable :: "bool \<Rightarrow> ('e, 'n) Network \<Rightarrow> ('e, 'n) Network" where
  "Reliable yes rn = rn\<lparr>reliable := yes\<rparr>"

definition LongReordering :: "bool \<Rightarrow> ('e, 'n) Network \<Rightarrow> ('e, 'n) Network" where
  "LongReordering yes rn = rn\<lparr>longReordering := yes\<rparr>"

definition LongDelays :: "bool \<Rightarrow> ('e, 'n) Network \<Rightarrow> ('e, 'n) Network" where
  "LongDelays yes rn = rn\<lparr>longDelays := yes\<rparr>"

definition readEndnameInfo ::
    "('e, 'n) Network \<Rightarrow> 'e \<Rightarrow> bool \<times> 'n option \<times> nat option \<times> bool \<times> bool" where
  "readEndnameInfo rn endname =
     (let servername = connections rn endname;
          server = (case servername of None \<Rightarrow> None | Some n \<Rightarrow> servers rn n)
      in (enabled rn endname, servername, server, reliable rn, longReordering rn))"

definition isServerDead :: "('e, 'n) Network \<Rightarrow> 'e \<Rightarrow> 'n \<Rightarrow> nat \<Rightarrow> bool" where
  "isServerDead rn endname servername server \<longleftrightarrow>
     enabled rn endname = False \<or> servers rn servername \<noteq> Some server"

subsection \<open>The life of a request\<close>

text \<open>
  While the handler runs, the network is looked at every 100 milliseconds: \<open>Tick rn\<close> is a look that
  finds the network in state \<open>rn\<close>, \<open>HandlerReturned\<close> the arrival of the handler's reply.
\<close>

datatype ('e, 'n) poll = HandlerReturned | Tick "('e, 'n) Network"

fun wait_loop :: "'e \<Rightarrow> 'n \<Rightarrow> nat \<Rightarrow> ('e, 'n) poll list \<Rightarrow> (bool \<times> bool) option" where
  "wait_loop endname servername server [] = None"
| "wait_loop endname servername server (HandlerReturned # ps) = Some (True, False)"
| "wait_loop endname servername server (Tick rn # ps) =
     (if isServerDead rn endname servername server then Some (False, True)
      else wait_loop endname servername server ps)"

text \<open>The random numbers a request may draw, each for its place in the code.\<close>

record luck =
  l_delay :: nat
  l_drop_request :: nat
  l_drop_reply :: nat
  l_reorder :: nat
  l_reorder_span :: nat
  l_reorder_ms :: nat
  l_timeout :: nat

text \<open>
  The one message that is sent back, the delay before it is sent (in milliseconds, not counting
  the handler), and the reply bytes that are counted when it is sent.
\<close>

record outcome =
  o_reply :: replyMsg
  o_delay :: nat
  o_bytes :: nat

text \<open>
  \<open>processReq\<close>: \<open>rn0\<close> is the network when the request is read, \<open>dispatch\<close> what \<open>server.dispatch(req)\<close>
  returns, \<open>polls\<close> what the waiting loop sees, \<open>rn1\<close> the network at the last check. The result is
  \<open>None\<close> when no message is ever sent.
\<close>

definition processReq ::
    "luck \<Rightarrow> ('e, 'n) Network \<Rightarrow> (nat \<Rightarrow> replyMsg go) \<Rightarrow> ('e, 'n) poll list \<Rightarrow> ('e, 'n) Network
     \<Rightarrow> 'e reqMsg \<Rightarrow> outcome go_run" where
  "processReq l rn0 dispatch polls rn1 req =
     (case readEndnameInfo rn0 (rq_endname req) of
        (True, Some servername, Some server, rel, reord) \<Rightarrow>
          let d0 = (if \<not> rel then l_delay l mod 27 else 0) in
          if \<not> rel \<and> l_drop_request l mod 1000 < 100 then
            Some (Inr \<lparr>o_reply = noReply, o_delay = d0, o_bytes = 0\<rparr>)
          else
            run_bind (Some (dispatch server)) (\<lambda>reply.
            case wait_loop (rq_endname req) servername server polls of
              None \<Rightarrow> None
            | Some (replyOK, _) \<Rightarrow>
                let serverDead = isServerDead rn1 (rq_endname req) servername server in
                if \<not> replyOK \<or> serverDead then
                  Some (Inr \<lparr>o_reply = noReply, o_delay = d0, o_bytes = 0\<rparr>)
                else if \<not> rel \<and> l_drop_reply l mod 1000 < 100 then
                  Some (Inr \<lparr>o_reply = noReply, o_delay = d0, o_bytes = 0\<rparr>)
                else if reord \<and> l_reorder l mod 900 < 600 then
                  let ms = 200 + l_reorder_ms l mod (1 + l_reorder_span l mod 2000)
                  in Some (Inr \<lparr>o_reply = reply, o_delay = d0 + ms, o_bytes = length (rp_reply reply)\<rparr>)
                else Some (Inr \<lparr>o_reply = reply, o_delay = d0, o_bytes = length (rp_reply reply)\<rparr>))
      | _ \<Rightarrow>
          let ms = (if longDelays rn0 then l_timeout l mod 7000 else l_timeout l mod 100)
          in Some (Inr \<lparr>o_reply = noReply, o_delay = ms, o_bytes = 0\<rparr>))"

text \<open>
  \<open>ClientEnd.Call\<close>: \<open>enc\<close> encodes the arguments (a failure panics), \<open>sent\<close> says which branch of the
  select is taken, \<open>serve\<close> is the processing of the request by the network, \<open>dec\<close> decodes the reply
  into the caller's variable.
\<close>

definition Call ::
    "('a \<Rightarrow> string option) \<Rightarrow> (string \<Rightarrow> 'r option) \<Rightarrow> bool \<Rightarrow> ('e reqMsg \<Rightarrow> replyMsg go_run)
     \<Rightarrow> 'e ClientEnd \<Rightarrow> string \<Rightarrow> 'a \<Rightarrow> 'r \<Rightarrow> (bool \<times> 'r) go_run" where
  "Call enc dec sent serve e svcMeth args reply =
     (case enc args of
        None \<Rightarrow> Some (Inl (ExplicitPanic ''Encode''))
      | Some bs \<Rightarrow>
          if \<not> sent then Some (Inr (False, reply))
          else
            run_bind (serve \<lparr>rq_endname = ce_endname e, rq_svcMeth = svcMeth, rq_args = bs\<rparr>) (\<lambda>rep.
              if rp_ok rep then
                (case dec (rp_reply rep) of
                   None \<Rightarrow> Some (Inl (LogFatal ''ClientEnd.Call(): decode reply''))
                 | Some v \<Rightarrow> Some (Inr (True, v)))
              else Some (Inr (False, reply))))"

subsection \<open>Changing the network\<close>

definition MakeEnd :: "'e \<Rightarrow> ('e, 'n) Network \<Rightarrow> (('e, 'n) Network \<times> 'e ClientEnd) go" where
  "MakeEnd endname rn =
     (if ends rn endname \<noteq> None then Inl (LogFatal ''MakeEnd: already exists'')
      else let e = \<lparr>ce_endname = endname\<rparr>
           in Inr (rn\<lparr>ends := (ends rn)(endname \<mapsto> e), enabled := (enabled rn)(endname := False),
                      connections := (connections rn)(endname := None)\<rparr>, e))"

definition AddServer :: "'n \<Rightarrow> nat \<Rightarrow> ('e, 'n) Network \<Rightarrow> ('e, 'n) Network" where
  "AddServer servername rs rn = rn\<lparr>servers := (servers rn)(servername \<mapsto> rs)\<rparr>"

definition DeleteServer :: "'n \<Rightarrow> ('e, 'n) Network \<Rightarrow> ('e, 'n) Network" where
  "DeleteServer servername rn = rn\<lparr>servers := (servers rn)(servername := None)\<rparr>"

definition Connect :: "'e \<Rightarrow> 'n \<Rightarrow> ('e, 'n) Network \<Rightarrow> ('e, 'n) Network" where
  "Connect endname servername rn = rn\<lparr>connections := (connections rn)(endname \<mapsto> servername)\<rparr>"

definition Enable :: "'e \<Rightarrow> bool \<Rightarrow> ('e, 'n) Network \<Rightarrow> ('e, 'n) Network" where
  "Enable endname b rn = rn\<lparr>enabled := (enabled rn)(endname := b)\<rparr>"

definition GetTotalCount :: "('e, 'n) Network \<Rightarrow> int" where
  "GetTotalCount rn = sint (net_count rn)"

definition GetTotalBytes :: "('e, 'n) Network \<Rightarrow> int" where
  "GetTotalBytes rn = sint (net_bytes rn)"

subsection \<open>Servers and services\<close>

text \<open>
  What reflection says about a method of a receiver. \<open>m_Func\<close> is the method on the state of the
  receivers, from the encoded arguments to the encoded reply.
\<close>

record 's method_info =
  m_Name :: string
  m_PkgPath :: string
  m_NumIn :: nat
  m_In2IsPtr :: bool
  m_NumOut :: nat
  m_Func :: "'s \<Rightarrow> string \<Rightarrow> 's \<times> string"

record 's Service =
  svc_name :: string
  svc_methods :: "string \<rightharpoonup> 's method_info"

definition MakeService :: "string \<Rightarrow> 's method_info list \<Rightarrow> 's Service" where
  "MakeService name ms =
     \<lparr>svc_name = name,
      svc_methods = fold (\<lambda>m tab.
        if m_PkgPath m \<noteq> [] \<or> m_NumIn m \<noteq> 3 \<or> \<not> m_In2IsPtr m \<or> m_NumOut m \<noteq> 0 then tab
        else tab(m_Name m \<mapsto> m)) ms Map.empty\<rparr>"

definition service_dispatch :: "'s Service \<Rightarrow> string \<Rightarrow> 'e reqMsg \<Rightarrow> 's \<Rightarrow> ('s \<times> replyMsg) go" where
  "service_dispatch svc methname req s =
     (case svc_methods svc methname of
        Some m \<Rightarrow> let (s', reply) = m_Func m s (rq_args req) in Inr (s', \<lparr>rp_ok = True, rp_reply = reply\<rparr>)
      | None \<Rightarrow> Inl (LogFatal ''labrpc.Service.dispatch(): unknown method''))"

record 's Server =
  services :: "string \<rightharpoonup> 's Service"
  srv_count :: "64 word"

definition MakeServer :: "'s Server" where
  "MakeServer = \<lparr>services = Map.empty, srv_count = 0\<rparr>"

definition AddService :: "'s Service \<Rightarrow> 's Server \<Rightarrow> 's Server" where
  "AddService svc rs = rs\<lparr>services := (services rs)(svc_name svc \<mapsto> svc)\<rparr>"

text \<open>\<open>strings.LastIndex(s, ".")\<close>.\<close>

definition last_dot :: "string \<Rightarrow> nat option" where
  "last_dot s =
     (let is = filter (\<lambda>i. s ! i = CHR ''.'') [0..<length s] in if is = [] then None else Some (last is))"

definition server_dispatch :: "'e reqMsg \<Rightarrow> 's Server \<Rightarrow> 's \<Rightarrow> ('s Server \<times> 's \<times> replyMsg) go" where
  "server_dispatch req rs s =
     (let rs' = rs\<lparr>srv_count := srv_count rs + 1\<rparr> in
      case last_dot (rq_svcMeth req) of
        None \<Rightarrow> Inl IndexOutOfRange
      | Some dot \<Rightarrow>
          let serviceName = take dot (rq_svcMeth req);
              methodName = drop (dot + 1) (rq_svcMeth req)
          in case services rs serviceName of
               Some svc \<Rightarrow> go_bind (service_dispatch svc methodName req s) (\<lambda>(s', r). Inr (rs', s', r))
             | None \<Rightarrow> Inl (LogFatal ''labrpc.Server.dispatch(): unknown service''))"

definition server_GetCount :: "'s Server \<Rightarrow> int" where
  "server_GetCount rs = sint (srv_count rs)"

text \<open>\<open>Network.GetCount\<close> on the heap of servers; a deleted server is a nil pointer.\<close>

definition GetCount :: "(nat \<Rightarrow> 's Server) \<Rightarrow> ('e, 'n) Network \<Rightarrow> 'n \<Rightarrow> int go" where
  "GetCount h rn servername =
     (case servers rn servername of None \<Rightarrow> Inl NilDereference | Some a \<Rightarrow> Inr (server_GetCount (h a)))"

lemma last_dot_append:
  assumes "CHR ''.'' \<notin> set m"
  shows "last_dot (s @ ''.'' @ m) = Some (length s)"
proof -
  let ?t = "s @ ''.'' @ m" and ?P = "\<lambda>i. (s @ ''.'' @ m) ! i = CHR ''.''"
  have "[0..<length ?t] = [0..<length s] @ length s # [Suc (length s)..<length ?t]"
  proof -
    have "length ?t = length s + Suc (length m)" by simp
    then show ?thesis
      using upt_add_eq_append [of 0 "length s" "Suc (length m)"]
        upt_conv_Cons [of "length s" "length s + Suc (length m)"] by (simp del: upt_Suc)
  qed
  moreover have "filter ?P [Suc (length s)..<length ?t] = []"
    unfolding filter_empty_conv
  proof
    fix x assume "x \<in> set [Suc (length s)..<length ?t]"
    then have k: "x - Suc (length s) < length m" "?t ! x = m ! (x - Suc (length s))"
      by (auto simp: nth_append nth_Cons')
    from nth_mem [OF k(1)] assms have "m ! (x - Suc (length s)) \<noteq> CHR ''.''" by metis
    with k(2) show "\<not> ?P x" by simp
  qed
  moreover have "?P (length s)" by simp
  ultimately have "filter ?P [0..<length ?t] = filter ?P [0..<length s] @ [length s]" by (simp only: filter_append filter.simps) simp
  then show ?thesis by (simp add: last_dot_def)
qed

subsection \<open>Facts about requests\<close>

lemma wait_loop_returns:
  assumes "HandlerReturned \<in> set ps \<or> (\<exists>rn. Tick rn \<in> set ps \<and> isServerDead rn endname servername server)"
  shows "\<exists>r. wait_loop endname servername server ps = Some r"
  using assms
proof (induction ps)
  case (Cons p ps)
  then show ?case by (cases p) auto
qed simp

lemma wait_loop_replied:
  "wait_loop endname servername server ps = Some (True, d) \<Longrightarrow> HandlerReturned \<in> set ps"
proof (induction ps)
  case (Cons p ps)
  then show ?case by (cases p) (auto split: if_splits)
qed simp

lemma wait_loop_alive:
  "\<forall>rn. Tick rn \<in> set ps \<longrightarrow> \<not> isServerDead rn endname servername server \<Longrightarrow> HandlerReturned \<in> set ps \<Longrightarrow>
   wait_loop endname servername server ps = Some (True, False)"
proof (induction ps)
  case (Cons p ps)
  then show ?case by (cases p) auto
qed simp

definition reachable_server :: "('e, 'n) Network \<Rightarrow> 'e \<Rightarrow> 'n \<Rightarrow> nat \<Rightarrow> bool" where
  "reachable_server rn endname servername server \<longleftrightarrow>
     enabled rn endname \<and> connections rn endname = Some servername \<and> servers rn servername = Some server"

lemma readEndnameInfo_reachable:
  "reachable_server rn endname servername server \<Longrightarrow>
   readEndnameInfo rn endname = (True, Some servername, Some server, reliable rn, longReordering rn)"
  by (simp add: reachable_server_def readEndnameInfo_def)

lemma readEndnameInfo_cases:
  obtains servername server where "reachable_server rn endname servername server"
  | "\<And>servername server rel reord. readEndnameInfo rn endname \<noteq> (True, Some servername, Some server, rel, reord)"
proof (cases "\<exists>servername server. reachable_server rn endname servername server")
  case False
  then have "readEndnameInfo rn endname \<noteq> (True, Some servername, Some server, rel, reord)"
    for servername server rel reord
    by (auto simp: reachable_server_def readEndnameInfo_def Let_def split: option.splits)
  then show thesis by (rule that(2))
qed (use that(1) in blast)

lemma processReq_unreachable:
  assumes "\<And>servername server rel reord. readEndnameInfo rn0 (rq_endname req) \<noteq> (True, Some servername, Some server, rel, reord)"
  shows "processReq l rn0 dispatch polls rn1 req = Some (Inr \<lparr>o_reply = noReply,
    o_delay = (if longDelays rn0 then l_timeout l mod 7000 else l_timeout l mod 100), o_bytes = 0\<rparr>)"
  using assms unfolding processReq_def
  by (cases "readEndnameInfo rn0 (rq_endname req)") (auto simp: Let_def split: option.splits bool.splits)

lemma processReq_reachable:
  assumes "reachable_server rn0 (rq_endname req) servername server"
  shows "processReq l rn0 dispatch polls rn1 req =
    (let d0 = (if \<not> reliable rn0 then l_delay l mod 27 else 0);
         lost = Some (Inr \<lparr>o_reply = noReply, o_delay = d0, o_bytes = 0\<rparr>)
     in if \<not> reliable rn0 \<and> l_drop_request l mod 1000 < 100 then lost
        else run_bind (Some (dispatch server)) (\<lambda>reply.
          case wait_loop (rq_endname req) servername server polls of
            None \<Rightarrow> None
          | Some (replyOK, _) \<Rightarrow>
              if \<not> replyOK \<or> isServerDead rn1 (rq_endname req) servername server then lost
              else if \<not> reliable rn0 \<and> l_drop_reply l mod 1000 < 100 then lost
              else Some (Inr \<lparr>o_reply = reply,
                o_delay = d0 + (if longReordering rn0 \<and> l_reorder l mod 900 < 600
                  then 200 + l_reorder_ms l mod (1 + l_reorder_span l mod 2000) else 0),
                o_bytes = length (rp_reply reply)\<rparr>)))"
proof -
  have k: "run_bind m f = run_bind m g" if "\<And>x. f x = g x" for m :: "replyMsg go_run" and f g :: "replyMsg \<Rightarrow> outcome go_run"
    using that by (auto simp: run_bind_def split: option.splits sum.splits)
  show ?thesis
    unfolding processReq_def readEndnameInfo_reachable [OF assms] Let_def
    by (auto split: option.splits intro!: k)
qed

subsection \<open>Properties\<close>

text \<open>
  C10. A positive reply reaches the client only if, when the request was read, its end was enabled
  and connected to a server that existed, the server's handler returned this very reply, and at
  the last check the end was still enabled and the same server was still registered: a client never
  gets a positive reply from a server that was deleted or replaced while it worked.
\<close>

theorem positive_reply_from_live_server:
  assumes "processReq l rn0 dispatch polls rn1 req = Some (Inr out)" and "rp_ok (o_reply out)"
  shows "\<exists>servername server. reachable_server rn0 (rq_endname req) servername server \<and>
    dispatch server = Inr (o_reply out) \<and> HandlerReturned \<in> set polls \<and>
    enabled rn1 (rq_endname req) \<and> servers rn1 servername = Some server"
proof (cases rule: readEndnameInfo_cases [of rn0 "rq_endname req"])
  case (1 servername server)
  have nr: "\<not> rp_ok noReply" by (simp add: noReply_def)
  obtain reply where d: "dispatch server = Inr reply"
    using assms nr unfolding processReq_reachable [OF 1]
    by (cases "dispatch server") (auto simp: Let_def split: if_splits)
  obtain r k where w: "wait_loop (rq_endname req) servername server polls = Some (r, k)"
    using assms nr d unfolding processReq_reachable [OF 1]
    by (cases "wait_loop (rq_endname req) servername server polls") (auto simp: Let_def split: if_splits)
  have "r \<and> \<not> isServerDead rn1 (rq_endname req) servername server \<and> o_reply out = reply"
    using assms nr d w unfolding processReq_reachable [OF 1] by (auto simp: Let_def split: if_splits)
  with 1 d w wait_loop_replied [of "rq_endname req" servername server polls k] show ?thesis
    by (auto simp: isServerDead_def)
next
  case 2
  then show ?thesis using assms processReq_unreachable [OF 2, of l dispatch polls rn1] by (auto simp: noReply_def)
qed

definition sample_net :: "(nat, nat) Network" where
  "sample_net = Enable 0 True (Connect 0 7 (AddServer 7 42 (MakeNetwork)))"

definition sample_luck :: luck where
  "sample_luck = \<lparr>l_delay = 0, l_drop_request = 0, l_drop_reply = 0, l_reorder = 0, l_reorder_span = 0,
     l_reorder_ms = 0, l_timeout = 0\<rparr>"

definition sample_req :: "nat reqMsg" where
  "sample_req = \<lparr>rq_endname = 0, rq_svcMeth = ''KV.Get'', rq_args = ''k''\<rparr>"

lemma sample_reachable: "reachable_server sample_net 0 7 42"
  by (simp add: sample_net_def reachable_server_def Enable_def Connect_def AddServer_def MakeNetwork_def)

theorem positive_reply_from_live_server_witness:
  "\<exists>servername server. reachable_server sample_net 0 servername server \<and>
    (\<lambda>_. Inr \<lparr>rp_ok = True, rp_reply = ''v''\<rparr>) server = (Inr \<lparr>rp_ok = True, rp_reply = ''v''\<rparr> :: replyMsg go) \<and>
    servers sample_net servername = Some server"
proof -
  have "processReq sample_luck sample_net (\<lambda>_. Inr \<lparr>rp_ok = True, rp_reply = ''v''\<rparr>) [HandlerReturned] sample_net sample_req =
      Some (Inr \<lparr>o_reply = \<lparr>rp_ok = True, rp_reply = ''v''\<rparr>, o_delay = 0, o_bytes = 1\<rparr>)"
    by (simp add: processReq_def readEndnameInfo_def sample_net_def sample_req_def Enable_def Connect_def
        AddServer_def MakeNetwork_def isServerDead_def Let_def)
  from positive_reply_from_live_server [OF this] show ?thesis by (auto simp: sample_req_def)
qed

text \<open>
  A reliable network loses nothing: when the end can reach a server that stays registered, the
  end stays enabled, and the handler returns, the client gets exactly the handler's reply, whatever
  the random numbers.
\<close>

lemma reliable_delivers:
  assumes "reliable rn0" and "reachable_server rn0 (rq_endname req) servername server"
    and "dispatch server = Inr reply" and "HandlerReturned \<in> set polls"
    and "\<forall>rn. Tick rn \<in> set polls \<longrightarrow> \<not> isServerDead rn (rq_endname req) servername server"
    and "\<not> isServerDead rn1 (rq_endname req) servername server"
  shows "\<exists>ms. processReq l rn0 dispatch polls rn1 req =
      Some (Inr \<lparr>o_reply = reply, o_delay = ms, o_bytes = length (rp_reply reply)\<rparr>) \<and>
    (\<not> longReordering rn0 \<longrightarrow> ms = 0) \<and> ms \<le> 2199"
proof -
  have "l_reorder_ms l mod (1 + l_reorder_span l mod 2000) \<le> l_reorder_span l mod 2000"
    using mod_less_divisor [of "1 + l_reorder_span l mod 2000" "l_reorder_ms l"] by linarith
  moreover have "l_reorder_span l mod 2000 < 2000" by simp
  ultimately have "200 + l_reorder_ms l mod (1 + l_reorder_span l mod 2000) \<le> 2199" by linarith
  then show ?thesis
    using wait_loop_alive [OF assms(5,4)] assms(1,3,6) unfolding processReq_reachable [OF assms(2)] by simp
qed



text \<open>
  Dispatching: a request for method \<open>m\<close> of service \<open>s\<close>, where \<open>m\<close> contains no dot, goes to the
  method registered under that name, the server's counter grows by one, and the reply is
  positive and carries what the method returned.
\<close>

lemma server_dispatch_finds_method:
  assumes "CHR ''.'' \<notin> set m" and "rq_svcMeth req = s @ ''.'' @ m"
    and "services rs s = Some svc" and "svc_methods svc m = Some meth"
  shows "server_dispatch req rs st =
    Inr (rs\<lparr>srv_count := srv_count rs + 1\<rparr>, fst (m_Func meth st (rq_args req)),
         \<lparr>rp_ok = True, rp_reply = snd (m_Func meth st (rq_args req))\<rparr>)"
proof -
  have "last_dot (s @ ''.'' @ m) = Some (length s)" by (rule last_dot_append [OF assms(1)])
  then show ?thesis
    using assms by (simp add: server_dispatch_def service_dispatch_def split_beta Let_def)
qed

definition echo_method :: "nat method_info" where
  "echo_method = \<lparr>m_Name = ''Get'', m_PkgPath = [], m_NumIn = 3, m_In2IsPtr = True, m_NumOut = 0,
     m_Func = (\<lambda>s a. (s + 1, a))\<rparr>"

text \<open>
  The tables of the network: a new end is disabled and unconnected, making it again is fatal; a
  server that is added, connected to an end and enabled is reachable from that end and from no other
  end that was not; deleting it makes it unreachable from every end.
\<close>

lemma network_tables:
  assumes "ends rn e = None"
  shows "\<exists>rn1 ce. MakeEnd e rn = Inr (rn1, ce) \<and> ce_endname ce = e \<and>
    (\<forall>n a. \<not> reachable_server rn1 e n a) \<and> (\<exists>msg. MakeEnd e rn1 = Inl (LogFatal msg)) \<and>
    reachable_server (Enable e True (Connect e n (AddServer n a rn1))) e n a \<and>
    (\<forall>e' n' a'. e' \<noteq> e \<and> n' \<noteq> n \<longrightarrow>
       reachable_server (Enable e True (Connect e n (AddServer n a rn1))) e' n' a' = reachable_server rn e' n' a') \<and>
    (\<forall>e' a'. \<not> reachable_server (DeleteServer n (Enable e True (Connect e n (AddServer n a rn1)))) e' n a')"
  using assms
  by (auto simp: MakeEnd_def reachable_server_def Enable_def Connect_def AddServer_def DeleteServer_def Let_def)

end
