(* ===== verification/Raft_Node.thy ===== *)
theory Raft_Node
  imports Labrpc
begin

text \<open>
  The persister (\<open>raft/persister.go\<close>) and the Raft peer as the repository has it (\<open>raft/raft.go\<close>): the
  state and the functions that are filled in, with the parts marked "your code here" doing
  nothing. Persisters are shared between the tester and the instances of a peer, so they live on a
  heap and are named by addresses.
\<close>

subsection \<open>Persister\<close>

record Persister =
  ps_raftstate :: string
  ps_snapshot :: string

definition MakePersister :: Persister where
  "MakePersister = \<lparr>ps_raftstate = [], ps_snapshot = []\<rparr>"

definition clone_bytes :: "string \<Rightarrow> string" where
  "clone_bytes orig = (let x = replicate (length orig) (CHR 0x00) in copy_slice x orig)"

definition Copy :: "Persister \<Rightarrow> Persister" where
  "Copy ps = MakePersister\<lparr>ps_raftstate := ps_raftstate ps, ps_snapshot := ps_snapshot ps\<rparr>"

definition ReadRaftState :: "Persister \<Rightarrow> string" where
  "ReadRaftState ps = clone_bytes (ps_raftstate ps)"

definition RaftStateSize :: "Persister \<Rightarrow> nat" where
  "RaftStateSize ps = length (ps_raftstate ps)"

definition Save :: "string \<Rightarrow> string \<Rightarrow> Persister \<Rightarrow> Persister" where
  "Save raftstate snapshot ps =
     ps\<lparr>ps_raftstate := clone_bytes raftstate, ps_snapshot := clone_bytes snapshot\<rparr>"

definition ReadSnapshot :: "Persister \<Rightarrow> string" where
  "ReadSnapshot ps = clone_bytes (ps_snapshot ps)"

definition SnapshotSize :: "Persister \<Rightarrow> nat" where
  "SnapshotSize ps = length (ps_snapshot ps)"

lemma clone_bytes_id [simp]: "clone_bytes s = s"
  by (simp add: clone_bytes_def)

lemma Copy_id [simp]: "Copy ps = ps"
  by (simp add: Copy_def MakePersister_def)

subsection \<open>The Raft peer\<close>

record 'c ApplyMsg =
  CommandValid :: bool
  Command :: 'c
  CommandIndex :: int
  SnapshotValid :: bool
  am_Snapshot :: "string option"
  SnapshotTerm :: int
  SnapshotIndex :: int

record Raft =
  rf_peers :: "string ClientEnd list"
  rf_persister :: nat
  rf_me :: int
  rf_dead :: "32 word"

definition GetState :: "Raft \<Rightarrow> int \<times> bool" where
  "GetState rf = (0, False)"

definition persist :: "Raft \<Rightarrow> Raft" where
  "persist rf = rf"

text \<open>Both the bootstrap branch and the rest leave the peer as it is.\<close>

definition readPersist :: "string \<Rightarrow> Raft \<Rightarrow> Raft" where
  "readPersist data rf = (if length data < 1 then rf else rf)"

definition raft_Snapshot :: "int \<Rightarrow> string \<Rightarrow> Raft \<Rightarrow> Raft" where
  "raft_Snapshot index snapshot rf = rf"

definition raft_Start :: "'c \<Rightarrow> Raft \<Rightarrow> int \<times> int \<times> bool" where
  "raft_Start command rf = (let index = -1; term = -1; isLeader = True in (index, term, isLeader))"

definition Kill :: "Raft \<Rightarrow> Raft" where
  "Kill rf = rf\<lparr>rf_dead := 1\<rparr>"

definition killed :: "Raft \<Rightarrow> bool" where
  "killed rf \<longleftrightarrow> rf_dead rf = 1"

text \<open>
  \<open>sendRequestVote\<close>: the arguments and the reply are empty structures; \<open>call\<close> is what \<open>Call\<close> of a
  client end returns.
\<close>

definition sendRequestVote :: "(string ClientEnd \<Rightarrow> string \<Rightarrow> bool go_run) \<Rightarrow> int \<Rightarrow> Raft \<Rightarrow> bool go_run" where
  "sendRequestVote call server rf =
     run_bind (Some (slice_get (rf_peers rf) server)) (\<lambda>e. call e ''Raft.RequestVote'')"

text \<open>
  The ticker: \<open>dead k\<close> is the value of the flag that round \<open>k\<close> reads, \<open>rnd k\<close> its random number. The
  result is the list of pauses in milliseconds; \<open>None\<close> when the loop never ends.
\<close>

partial_function (option) ticker :: "(nat \<Rightarrow> 32 word) \<Rightarrow> (nat \<Rightarrow> nat) \<Rightarrow> nat \<Rightarrow> nat list option" where
  "ticker dead rnd k =
     (if dead k = 1 then Some []
      else Option.bind (ticker dead rnd (Suc k)) (\<lambda>mss. Some ((50 + rnd k mod 300) # mss)))"

definition Make :: "string ClientEnd list \<Rightarrow> int \<Rightarrow> nat \<Rightarrow> Persister \<Rightarrow> Raft" where
  "Make peers me a ps =
     (let rf = \<lparr>rf_peers = peers, rf_persister = a, rf_me = me, rf_dead = 0\<rparr>
      in readPersist (ReadRaftState ps) rf)"

lemma Make_eq: "Make peers me a ps = \<lparr>rf_peers = peers, rf_persister = a, rf_me = me, rf_dead = 0\<rparr>"
  by (simp add: Make_def readPersist_def Let_def)

lemma ticker_stops:
  "(\<forall>i<n. dead (k + i) \<noteq> 1) \<Longrightarrow> dead (k + n) = 1 \<Longrightarrow>
   ticker dead rnd k = Some (map (\<lambda>i. 50 + rnd (k + i) mod 300) [0..<n])"
proof (induction n arbitrary: k)
  case 0
  then show ?case by (simp add: ticker.simps)
next
  case (Suc n)
  have "dead k \<noteq> 1" using Suc.prems(1) by force
  moreover have "ticker dead rnd (Suc k) = Some (map (\<lambda>i. 50 + rnd (Suc k + i) mod 300) [0..<n])"
    using Suc.IH [of "Suc k"] Suc.prems by force
  moreover have "map (\<lambda>i. 50 + rnd (k + i) mod 300) [0..<Suc n] =
      (50 + rnd k mod 300) # map (\<lambda>i. 50 + rnd (Suc k + i) mod 300) [0..<n]"
    by (simp add: map_upt_Suc del: upt_Suc)
  ultimately show ?case by (subst ticker.simps) simp
qed

subsection \<open>Properties\<close>

text \<open>
  The persister keeps exactly what was saved last: reading the state or the snapshot after
  \<open>Save\<close> gives back the bytes that were saved, the sizes agree, and a copy holds the same.
\<close>

lemma persister_round_trip:
  "ReadRaftState (Save st snap ps) = st \<and> ReadSnapshot (Save st snap ps) = snap \<and>
   RaftStateSize (Save st snap ps) = length st \<and> SnapshotSize (Save st snap ps) = length snap \<and>
   ReadRaftState (Copy ps) = ReadRaftState ps \<and> ReadSnapshot (Copy ps) = ReadSnapshot ps"
  by (simp add: Save_def ReadRaftState_def ReadSnapshot_def RaftStateSize_def SnapshotSize_def)

text \<open>
  Killing a peer stops its ticker: if the flag is first seen set in round \<open>n\<close>, the ticker
  returns after exactly \<open>n\<close> pauses, each between 50 and 349 milliseconds.
\<close>

lemma ticker_ends_after_kill:
  assumes "\<forall>i<n. dead i \<noteq> 1" and "dead n = rf_dead (Kill rf)"
  shows "\<exists>mss. ticker dead rnd 0 = Some mss \<and> length mss = n \<and> (\<forall>ms\<in>set mss. 50 \<le> ms \<and> ms < 350)"
proof -
  have "a mod 300 < (300 :: nat)" for a by simp
  then show ?thesis using ticker_stops [of n dead 0 rnd] assms by (auto simp: Kill_def)
qed

end
