(* ===== verification/Harness.thy ===== *)
theory Harness
  imports Raft_Node
begin

text \<open>
  What the test harnesses of the packages \<open>raft\<close>, \<open>kvraft\<close>, \<open>shardctrler\<close> and \<open>shardkv\<close> share: the
  table of end names, the loops that switch ends on and off and that make a fresh row of ends, and
  the heap of persisters. The interface to the network is a locale: what the loops need of
  \<open>Network.Enable\<close>, whichever component provides it.
\<close>

subsection \<open>Switching ends\<close>

text \<open>A loop over \<open>js\<close> that switches, for each index that passes the guard, the end with that index's name.\<close>

definition set_ends ::
    "('e \<Rightarrow> bool \<Rightarrow> 's \<Rightarrow> 's) \<Rightarrow> bool \<Rightarrow> (nat \<Rightarrow> bool go) \<Rightarrow> (nat \<Rightarrow> 'e go) \<Rightarrow> nat list \<Rightarrow> 's \<Rightarrow> 's go" where
  "set_ends turn b guard name js =
     go_fold (\<lambda>j s. go_bind (guard j) (\<lambda>g.
       if g then go_bind (name j) (\<lambda>e. Inr (turn e b s)) else Inr s)) js"

locale switchboard =
  fixes turn :: "'e \<Rightarrow> bool \<Rightarrow> 's \<Rightarrow> 's" and lit :: "'s \<Rightarrow> 'e \<Rightarrow> bool" and rest :: "'s \<Rightarrow> 'r"
  assumes lit_turn: "lit (turn e b s) e' = (if e' = e then b else lit s e')"
    and rest_turn: "rest (turn e b s) = rest s"
begin

lemma set_ends_ok:
  assumes "\<And>j. j \<in> set js \<Longrightarrow> guard j = Inr (g j)"
    and "\<And>j. j \<in> set js \<Longrightarrow> g j \<Longrightarrow> name j = Inr (nm j)"
  shows "\<exists>s'. set_ends turn b guard name js s = Inr s' \<and> rest s' = rest s \<and>
    (\<forall>e. lit s' e = (if e \<in> nm ` {j \<in> set js. g j} then b else lit s e))"
  using assms
proof (induction js arbitrary: s)
  case Nil
  then show ?case by (simp add: set_ends_def)
next
  case (Cons j js)
  let ?s = "if g j then turn (nm j) b s else s"
  have "\<exists>s'. set_ends turn b guard name js ?s = Inr s' \<and> rest s' = rest ?s \<and>
      (\<forall>e. lit s' e = (if e \<in> nm ` {j \<in> set js. g j} then b else lit ?s e))"
    by (rule Cons.IH) (use Cons.prems in simp_all)
  then obtain s' where s': "set_ends turn b guard name js ?s = Inr s'" "rest s' = rest ?s"
      "\<And>e. lit s' e = (if e \<in> nm ` {j \<in> set js. g j} then b else lit ?s e)" by blast
  have "set_ends turn b guard name (j # js) s = set_ends turn b guard name js ?s"
    using Cons.prems by (simp add: set_ends_def)
  with s' show ?case by (auto simp: lit_turn rest_turn)
qed

end

text \<open>The rest of the network: all that \<open>Enable\<close> does not touch.\<close>

definition net_rest :: "('e, 'n) Network \<Rightarrow> ('e, 'n) Network" where
  "net_rest rn = rn\<lparr>enabled := (\<lambda>_. False)\<rparr>"

interpretation net: switchboard Enable enabled net_rest
  by unfold_locales (simp_all add: Enable_def net_rest_def)

lemma net_rest_eq:
  assumes "net_rest rn' = net_rest rn"
  shows "ends rn' = ends rn" "connections rn' = connections rn" "servers rn' = servers rn"
    "net_done rn' = net_done rn" "reliable rn' = reliable rn" "net_count rn' = net_count rn"
  using assms unfolding net_rest_def
  by (metis Network.select_convs Network.surjective Network.update_convs(5))+

subsection \<open>The table of end names\<close>

text \<open>\<open>endnames[i][j]\<close>: row \<open>i\<close> is nil until server \<open>i\<close> was started; indexing a nil slice panics.\<close>

type_synonym endtable = "string list option list"

definition endname_at :: "endtable \<Rightarrow> nat \<Rightarrow> nat \<Rightarrow> string go" where
  "endname_at eds i j =
     go_bind (slice_get eds (int i)) (\<lambda>row. case row of None \<Rightarrow> Inl IndexOutOfRange | Some es \<Rightarrow> slice_get es (int j))"

definition row_exists :: "endtable \<Rightarrow> nat \<Rightarrow> bool go" where
  "row_exists eds i = go_bind (slice_get eds (int i)) (\<lambda>row. Inr (row \<noteq> None))"

text \<open>A fresh set of ends: end \<open>j\<close> is named \<open>names j\<close> and connected to server \<open>j\<close>.\<close>

definition fresh_ends ::
    "(nat \<Rightarrow> string) \<Rightarrow> nat \<Rightarrow> (string, int) Network \<Rightarrow> ((string, int) Network \<times> string ClientEnd list) go" where
  "fresh_ends names n rn =
     go_fold (\<lambda>j (rn, es). go_bind (MakeEnd (names j) rn) (\<lambda>(rn', e). Inr (Connect (names j) (int j) rn', es @ [e])))
       [0..<n] (rn, [])"

definition names_distinct :: "(nat \<Rightarrow> nat \<Rightarrow> string) \<Rightarrow> nat \<Rightarrow> bool" where
  "names_distinct names n \<longleftrightarrow>
     (\<forall>i<n. \<forall>j<n. \<forall>i'<n. \<forall>j'<n. names i j = names i' j' \<longrightarrow> i = i' \<and> j = j')"

lemma endname_at_Inr:
  "endname_at eds i j = Inr e \<longleftrightarrow> i < length eds \<and> (\<exists>es. eds ! i = Some es \<and> j < length es \<and> e = es ! j)"
  by (auto simp: endname_at_def split: option.splits if_splits)

lemma row_exists_Inr [simp]: "i < length eds \<Longrightarrow> row_exists eds i = Inr (eds ! i \<noteq> None)"
  by (simp add: row_exists_def)

lemma endname_at_update:
  "i < length eds \<Longrightarrow> endname_at (eds[i := Some es]) i' j = Inr e \<longleftrightarrow>
    (if i' = i then j < length es \<and> e = es ! j else endname_at eds i' j = Inr e)"
  by (auto simp: endname_at_Inr nth_list_update)

lemma fresh_ends_Suc:
  "fresh_ends names (Suc n) rn = go_bind (fresh_ends names n rn) (\<lambda>(rn', es).
     go_bind (MakeEnd (names n) rn') (\<lambda>(rn'', e). Inr (Connect (names n) (int n) rn'', es @ [e])))"
  unfolding fresh_ends_def by (cases "go_fold (\<lambda>j (rn, es). go_bind (MakeEnd (names j) rn)
    (\<lambda>(rn', e). Inr (Connect (names j) (int j) rn', es @ [e]))) [0..<n] (rn, [])") (auto split: prod.splits)

lemma fresh_ends_facts:
  assumes "fresh_ends names n rn = Inr (rn', es)"
  shows "inj_on names {..<n} \<and> (\<forall>j<n. ends rn (names j) = None) \<and> servers rn' = servers rn \<and>
    net_done rn' = net_done rn \<and> dom (ends rn') = dom (ends rn) \<union> names ` {..<n} \<and>
    es = map (\<lambda>j. \<lparr>ce_endname = names j\<rparr>) [0..<n] \<and>
    (\<forall>j<n. enabled rn' (names j) = False \<and> connections rn' (names j) = Some (int j)) \<and>
    (\<forall>e. e \<notin> names ` {..<n} \<longrightarrow> enabled rn' e = enabled rn e \<and> connections rn' e = connections rn e)"
  using assms
proof (induction n arbitrary: rn' es)
  case 0
  then show ?case by (simp add: fresh_ends_def)
next
  case (Suc n)
  then obtain rn1 es1 where 1: "fresh_ends names n rn = Inr (rn1, es1)"
    and new: "ends rn1 (names n) = None"
    and res: "rn' = Connect (names n) (int n) (rn1\<lparr>ends := (ends rn1)(names n \<mapsto> \<lparr>ce_endname = names n\<rparr>),
        enabled := (enabled rn1)(names n := False), connections := (connections rn1)(names n := None)\<rparr>)"
      "es = es1 @ [\<lparr>ce_endname = names n\<rparr>]"
    by (auto simp: fresh_ends_Suc go_bind_eq_Inr MakeEnd_def Let_def split: if_splits)
  note IH = Suc.IH [OF 1]
  then have nn: "ends rn (names n) = None" and notin: "names n \<notin> names ` {..<n}" using new by (auto simp: domIff)
  have nj: "\<forall>j. names j = names n \<longrightarrow> \<not> j < n" using notin by (metis imageI lessThan_iff)
  moreover have "dom (ends rn') = dom (ends rn) \<union> names ` {..<Suc n}"
    using IH by (simp add: res Connect_def lessThan_Suc)
  moreover have "\<forall>j<Suc n. enabled rn' (names j) = False \<and> connections rn' (names j) = Some (int j)"
    using IH nj by (simp add: res Connect_def less_Suc_eq)
  moreover have "\<forall>e. e \<notin> names ` {..<Suc n} \<longrightarrow> enabled rn' e = enabled rn e \<and> connections rn' e = connections rn e"
    using IH by (simp add: res Connect_def lessThan_Suc)
  moreover have "inj_on names {..<Suc n} \<and> (\<forall>j<Suc n. ends rn (names j) = None)"
    using IH nn notin by (simp add: lessThan_Suc less_Suc_eq)
  moreover have "servers rn' = servers rn \<and> net_done rn' = net_done rn \<and> es = map (\<lambda>j. \<lparr>ce_endname = names j\<rparr>) [0..<Suc n]"
    using IH by (simp add: res Connect_def)
  ultimately show ?case by blast
qed

lemma fresh_ends_ok:
  assumes "inj_on names {..<n}" and "\<forall>j<n. ends rn (names j) = None"
  shows "\<exists>rn' es. fresh_ends names n rn = Inr (rn', es)"
  using assms
proof (induction n)
  case 0
  then show ?case by (simp add: fresh_ends_def)
next
  case (Suc n)
  then obtain rn1 es1 where 1: "fresh_ends names n rn = Inr (rn1, es1)"
    by (auto simp: lessThan_Suc dest: inj_on_subset)
  have "names n \<notin> names ` {..<n}" using Suc.prems(1) by (simp add: lessThan_Suc)
  moreover have "ends rn (names n) = None" using Suc.prems(2) by simp
  ultimately have "ends rn1 (names n) = None" using fresh_ends_facts [OF 1] by (metis Un_iff domIff)
  then show ?case using 1 by (simp add: fresh_ends_Suc MakeEnd_def Let_def)
qed

subsection \<open>The wiring invariant\<close>

text \<open>
  The ends of the table are distinct, registered, and end \<open>(i, j)\<close> is connected to server \<open>j\<close> and
  enabled exactly when \<open>on i j\<close>; any other enabled end is in \<open>X\<close>, whose ends are not in the table.
\<close>

definition wired :: "endtable \<Rightarrow> (nat \<Rightarrow> nat \<Rightarrow> bool) \<Rightarrow> string set \<Rightarrow> (string, int) Network \<Rightarrow> bool" where
  "wired eds on X rn \<longleftrightarrow>
     (\<forall>i j i' j' e. endname_at eds i j = Inr e \<longrightarrow> endname_at eds i' j' = Inr e \<longrightarrow> i = i' \<and> j = j') \<and>
     (\<forall>i j e. endname_at eds i j = Inr e \<longrightarrow> ends rn e \<noteq> None \<and> connections rn e = Some (int j) \<and>
        (enabled rn e \<longleftrightarrow> on i j) \<and> e \<notin> X) \<and>
     (\<forall>e. enabled rn e \<longrightarrow> (\<exists>i j. endname_at eds i j = Inr e) \<or> e \<in> X) \<and>
     (\<forall>e\<in>X. ends rn e \<noteq> None)"

lemma wired_enable:
  assumes "wired eds on X rn" and "net_rest rn' = net_rest rn"
    and "\<And>e. enabled rn' e = (if \<exists>i j. endname_at eds i j = Inr e \<and> S i j then b else enabled rn e)"
    and "\<And>i j e. endname_at eds i j = Inr e \<Longrightarrow> on' i j = (if S i j then b else on i j)"
  shows "wired eds on' X rn'"
proof -
  have inj: "endname_at eds i j = Inr e \<Longrightarrow> endname_at eds i' j' = Inr e \<Longrightarrow> i = i' \<and> j = j'" for i j i' j' e
    using assms(1) by (auto simp: wired_def)
  have "enabled rn' e = on' i j" if "endname_at eds i j = Inr e" for i j e
  proof -
    have "(\<exists>i j. endname_at eds i j = Inr e \<and> S i j) \<longleftrightarrow> S i j" using inj that by blast
    moreover have "enabled rn e = on i j" using assms(1) that by (auto simp: wired_def)
    ultimately show ?thesis using assms(3,4) that by simp
  qed
  moreover have "(\<exists>i j. endname_at eds i j = Inr e) \<or> e \<in> X" if "enabled rn' e" for e
    using assms(1,3) that by (auto simp: wired_def split: if_splits)
  ultimately show ?thesis
    using assms(1) by (simp add: wired_def net_rest_eq [OF assms(2)])
qed

text \<open>A switching loop keeps the wiring, for the switches it has set.\<close>

lemma wired_set_ends:
  assumes "wired eds on X rn" and "\<And>j. j \<in> set js \<Longrightarrow> guard j = Inr (g j)"
    and "\<And>j. j \<in> set js \<Longrightarrow> g j \<Longrightarrow> \<exists>e. endname_at eds (r j) (c j) = Inr e"
  shows "\<exists>rn'. set_ends Enable b guard (\<lambda>j. endname_at eds (r j) (c j)) js rn = Inr rn' \<and> net_rest rn' = net_rest rn \<and>
    wired eds (\<lambda>p q. if \<exists>j\<in>set js. g j \<and> p = r j \<and> q = c j then b else on p q) X rn'"
proof -
  from assms(3) obtain nm where nm: "\<And>j. j \<in> set js \<Longrightarrow> g j \<Longrightarrow> endname_at eds (r j) (c j) = Inr (nm j)" by metis
  obtain rn' where 1: "set_ends Enable b guard (\<lambda>j. endname_at eds (r j) (c j)) js rn = Inr rn'" "net_rest rn' = net_rest rn"
      "\<And>e. enabled rn' e = (if e \<in> nm ` {j \<in> set js. g j} then b else enabled rn e)"
    using net.set_ends_ok [of js guard g "\<lambda>j. endname_at eds (r j) (c j)" nm b rn] assms(2) nm by blast
  have "e \<in> nm ` {j \<in> set js. g j} \<longleftrightarrow>
      (\<exists>p q. endname_at eds p q = Inr e \<and> (\<exists>j\<in>set js. g j \<and> p = r j \<and> q = c j))" for e
    using nm by auto
  with 1 wired_enable [OF assms(1) 1(2)] show ?thesis by auto
qed

lemma wired_cong:
  "wired eds on X rn \<Longrightarrow> (\<And>i j e. endname_at eds i j = Inr e \<Longrightarrow> on i j = on' i j) \<Longrightarrow> wired eds on' X rn"
  unfolding wired_def by blast

lemma set_ends_named:
  assumes "set_ends turn b guard name js s = Inr s'" and "j \<in> set js" and "guard j = Inr True"
  shows "\<exists>e. name j = Inr e"
  using assms
proof (induction js arbitrary: s)
  case (Cons k js)
  show ?case
  proof (cases "k = j")
    case True
    with Cons.prems show ?thesis by (auto simp: set_ends_def go_bind_eq_Inr)
  next
    case False
    with Cons.prems obtain t where "set_ends turn b guard name js t = Inr s'"
      by (auto simp: set_ends_def go_bind_eq_Inr)
    with Cons.IH Cons.prems False show ?thesis by auto
  qed
qed simp

lemma wired_new_row:
  assumes "wired eds on X rn" and "i < length eds"
    and off: "\<And>j e. endname_at eds i j = Inr e \<Longrightarrow> \<not> on i j"
    and "fresh_ends names n rn = Inr (rn', es)"
    and on': "\<And>i' j. on' i' j = (i' \<noteq> i \<and> on i' j)"
  shows "wired (eds[i := Some (map names [0..<n])]) on' X rn'"
proof -
  note F = fresh_ends_facts [OF assms(4)]
  have at: "endname_at (eds[i := Some (map names [0..<n])]) i' j = Inr e \<longleftrightarrow>
      (if i' = i then j < n \<and> e = names j else endname_at eds i' j = Inr e)" for i' j e
    using assms(2) by (auto simp: endname_at_update)
  have old: "e \<notin> names ` {..<n}" if "ends rn e \<noteq> None" for e using F that by auto
  have inn: "names j = names j' \<Longrightarrow> j < n \<Longrightarrow> j' < n \<Longrightarrow> j = j'" for j j' using F by (auto dest: inj_onD)
  have W: "endname_at eds i' j = Inr e \<Longrightarrow> ends rn e \<noteq> None \<and> connections rn e = Some (int j) \<and>
      (enabled rn e \<longleftrightarrow> on i' j) \<and> e \<notin> X" for i' j e
    using assms(1) by (auto simp: wired_def)
  have neq: "endname_at eds i' j = Inr e \<Longrightarrow> e \<notin> names ` {..<n}" for i' j e using W old by blast
  have oldends: "ends rn e \<noteq> None \<Longrightarrow> ends rn' e \<noteq> None" and newends: "j < n \<Longrightarrow> ends rn' (names j) \<noteq> None" for e j
    using F by (metis Un_iff domIff, metis Un_iff domIff imageI lessThan_iff)
  show ?thesis
    unfolding wired_def at
  proof (intro conjI allI ballI impI)
    fix a j a' j' e
    assume "if a = i then j < n \<and> e = names j else endname_at eds a j = Inr e"
      and "if a' = i then j' < n \<and> e = names j' else endname_at eds a' j' = Inr e"
    then show "a = a'" and "j = j'"
      using assms(1) neq inn unfolding wired_def by (auto split: if_splits)
  next
    fix a j e assume a: "if a = i then j < n \<and> e = names j else endname_at eds a j = Inr e"
    then show "ends rn' e \<noteq> None" using W oldends newends by (auto split: if_splits)
    show "connections rn' e = Some (int j)" using a W neq F by (auto split: if_splits)
    show "enabled rn' e = on' a j" using a W neq F on' by (auto split: if_splits)
    show "e \<notin> X" using a W assms(1) F unfolding wired_def by (auto split: if_splits)
  next
    fix e assume e: "enabled rn' e"
    then have "e \<notin> names ` {..<n}" using F by auto
    then have "enabled rn e" using e F by simp
    then show "(\<exists>a j. if a = i then j < n \<and> e = names j else endname_at eds a j = Inr e) \<or> e \<in> X"
      using assms(1) off W unfolding wired_def by metis
  next
    fix e assume "e \<in> X"
    then show "ends rn' e \<noteq> None" using assms(1) oldends by (auto simp: wired_def)
  qed
qed

text \<open>Adding and deleting servers does not change the wiring.\<close>

lemma wired_servers [simp]:
  "wired eds on X (AddServer k a rn) = wired eds on X rn" "wired eds on X (DeleteServer k rn) = wired eds on X rn"
  by (simp_all add: wired_def AddServer_def DeleteServer_def)

lemma wired_reachable:
  assumes "wired eds on {} rn"
  shows "reachable_server rn e k a \<longleftrightarrow>
    (\<exists>i j. endname_at eds i j = Inr e \<and> on i j \<and> k = int j \<and> servers rn (int j) = Some a)"
  using assms unfolding wired_def reachable_server_def by (metis empty_iff option.inject)

end
