(* ===== verification/Shard_Clients.thy ===== *)
theory Shard_Clients
  imports Raft_Node
begin

text \<open>
  The clients and servers of \<open>kvraft\<close>, \<open>shardctrler\<close> and \<open>shardkv\<close> (\<open>client.go\<close>, \<open>common.go\<close>, \<open>server.go\<close>).
  The clients of the shard controller and of the sharded store are complete in the repository; the
  bodies the assignment leaves open are empty in the source and here. What a call to a server
  returns may differ from round to round, so it is a function of the round; \<open>None\<close> stands for a call
  that is not answered.
\<close>

subsection \<open>The shard controller's client\<close>

definition NShards :: nat where
  "NShards = 10"

record Config =
  cf_Num :: int
  cf_Shards :: "int list"
  cf_Groups :: "int \<rightharpoonup> string list"

definition zero_Config :: Config where
  "zero_Config = \<lparr>cf_Num = 0, cf_Shards = replicate NShards 0, cf_Groups = Map.empty\<rparr>"

record QueryArgs =
  qa_Num :: int

record JoinArgs =
  ja_Servers :: "int \<rightharpoonup> string list"

record LeaveArgs =
  la_GIDs :: "int list"

record MoveArgs =
  ma_Shard :: int
  ma_GID :: int

text \<open>A reply of the controller; only \<open>Query\<close> uses the configuration.\<close>

record ctrler_reply =
  WrongLeader :: bool
  cr_Err :: string
  cr_Config :: Config

record 'e ctrler_Clerk =
  ck_servers :: "'e list"

definition ctrler_MakeClerk :: "'e list \<Rightarrow> 'e ctrler_Clerk" where
  "ctrler_MakeClerk srvs = \<lparr>ck_servers = srvs\<rparr>"

text \<open>One round: each known server is tried until one answers as the leader.\<close>

fun try_each :: "('e \<Rightarrow> ctrler_reply option) \<Rightarrow> 'e list \<Rightarrow> ctrler_reply option" where
  "try_each call [] = None"
| "try_each call (srv # srvs) =
     (case call srv of
        Some reply \<Rightarrow> if \<not> WrongLeader reply then Some reply else try_each call srvs
      | None \<Rightarrow> try_each call srvs)"

text \<open>The endless loop around it, from round \<open>k\<close>; \<open>None\<close> when no round succeeds.\<close>

partial_function (option) ask_ctrler :: "(nat \<Rightarrow> 'e \<Rightarrow> ctrler_reply option) \<Rightarrow> 'e list \<Rightarrow> nat \<Rightarrow> ctrler_reply option" where
  "ask_ctrler call srvs k =
     (case try_each (call k) srvs of
        Some reply \<Rightarrow> Some reply
      | None \<Rightarrow> ask_ctrler call srvs (Suc k))"

definition Query :: "(nat \<Rightarrow> 'e \<Rightarrow> QueryArgs \<Rightarrow> ctrler_reply option) \<Rightarrow> int \<Rightarrow> 'e ctrler_Clerk \<Rightarrow> Config option" where
  "Query call num ck =
     (let args = \<lparr>qa_Num = num\<rparr> in map_option cr_Config (ask_ctrler (\<lambda>k srv. call k srv args) (ck_servers ck) 0))"

definition Join :: "(nat \<Rightarrow> 'e \<Rightarrow> JoinArgs \<Rightarrow> ctrler_reply option) \<Rightarrow> (int \<rightharpoonup> string list) \<Rightarrow> 'e ctrler_Clerk \<Rightarrow> unit option" where
  "Join call srvs ck =
     (let args = \<lparr>ja_Servers = srvs\<rparr> in map_option (\<lambda>_. ()) (ask_ctrler (\<lambda>k srv. call k srv args) (ck_servers ck) 0))"

definition Leave :: "(nat \<Rightarrow> 'e \<Rightarrow> LeaveArgs \<Rightarrow> ctrler_reply option) \<Rightarrow> int list \<Rightarrow> 'e ctrler_Clerk \<Rightarrow> unit option" where
  "Leave call gids ck =
     (let args = \<lparr>la_GIDs = gids\<rparr> in map_option (\<lambda>_. ()) (ask_ctrler (\<lambda>k srv. call k srv args) (ck_servers ck) 0))"

definition Move :: "(nat \<Rightarrow> 'e \<Rightarrow> MoveArgs \<Rightarrow> ctrler_reply option) \<Rightarrow> int \<Rightarrow> int \<Rightarrow> 'e ctrler_Clerk \<Rightarrow> unit option" where
  "Move call shard gid ck =
     (let args = \<lparr>ma_Shard = shard, ma_GID = gid\<rparr>
      in map_option (\<lambda>_. ()) (ask_ctrler (\<lambda>k srv. call k srv args) (ck_servers ck) 0))"

subsection \<open>The sharded store's client\<close>

definition key2shard :: "string \<Rightarrow> nat" where
  "key2shard key =
     (let shard = (if length key > 0 then of_char (key ! 0) else 0) in shard mod NShards)"

text \<open>The clerk of the sharded store: its client of the controller and the configuration it has.\<close>

record 'e shardkv_Clerk =
  sck_sm :: "'e ctrler_Clerk"
  sck_config :: Config

definition shardkv_MakeClerk :: "'e list \<Rightarrow> 'e shardkv_Clerk" where
  "shardkv_MakeClerk ctrlers = \<lparr>sck_sm = ctrler_MakeClerk ctrlers, sck_config = zero_Config\<rparr>"

record kv_reply =
  kr_Err :: string
  kr_Value :: string

record GetArgs =
  ga_Key :: string

record PutAppendArgs =
  pa_Key :: string
  pa_Value :: string
  pa_Op :: string

text \<open>
  One pass over the servers of a group: the first reply that is accepted ends the search with it,
  a reply \<open>ErrWrongGroup\<close> ends it without.
\<close>

fun try_group :: "(string \<Rightarrow> bool) \<Rightarrow> (string \<Rightarrow> kv_reply option) \<Rightarrow> string list \<Rightarrow> kv_reply option" where
  "try_group accept call [] = None"
| "try_group accept call (srv # srvs) =
     (case call srv of
        Some reply \<Rightarrow>
          if accept (kr_Err reply) then Some reply
          else if kr_Err reply = ''ErrWrongGroup'' then None
          else try_group accept call srvs
      | None \<Rightarrow> try_group accept call srvs)"

definition ask_group :: "(string \<Rightarrow> bool) \<Rightarrow> (string \<Rightarrow> kv_reply option) \<Rightarrow> string \<Rightarrow> Config \<Rightarrow> kv_reply option" where
  "ask_group accept call key cfg =
     (let gid = cf_Shards cfg ! key2shard key in
      case cf_Groups cfg gid of None \<Rightarrow> None | Some srvs \<Rightarrow> try_group accept call srvs)"

text \<open>
  The loop of \<open>Get\<close> and of \<open>PutAppend\<close> from round \<open>k\<close>: \<open>call k srv\<close> is what the call to a server returns in
  round \<open>k\<close>, \<open>query k\<close> what \<open>ck.sm.Query(-1)\<close> returns after it. The result is the accepted reply and the
  clerk's configuration at that time.
\<close>

partial_function (option) shard_loop ::
    "(string \<Rightarrow> bool) \<Rightarrow> (nat \<Rightarrow> string \<Rightarrow> kv_reply option) \<Rightarrow> (nat \<Rightarrow> Config option) \<Rightarrow> string \<Rightarrow> nat \<Rightarrow> Config
     \<Rightarrow> (kv_reply \<times> Config) option" where
  "shard_loop accept call query key k cfg =
     (case ask_group accept (call k) key cfg of
        Some reply \<Rightarrow> Some (reply, cfg)
      | None \<Rightarrow> Option.bind (query k) (shard_loop accept call query key (Suc k)))"

definition accept_get :: "string \<Rightarrow> bool" where
  "accept_get err \<longleftrightarrow> err = ''OK'' \<or> err = ''ErrNoKey''"

text \<open>
  \<open>Get\<close> and \<open>PutAppend\<close>: \<open>call k srv args\<close> is what the call to a server of a group returns in round \<open>k\<close>,
  \<open>scall k\<close> what the controllers answer, round by round, to the \<open>Query\<close> after round \<open>k\<close>. The call goes
  to the end that \<open>make_end\<close> gives for the server's name.
\<close>

definition shardkv_Get ::
    "(nat \<Rightarrow> string \<Rightarrow> GetArgs \<Rightarrow> kv_reply option) \<Rightarrow> (nat \<Rightarrow> nat \<Rightarrow> 'e \<Rightarrow> QueryArgs \<Rightarrow> ctrler_reply option) \<Rightarrow> string \<Rightarrow> 'e shardkv_Clerk
     \<Rightarrow> (string \<times> 'e shardkv_Clerk) option" where
  "shardkv_Get call scall key ck =
     map_option (\<lambda>(reply, cfg). (kr_Value reply, ck\<lparr>sck_config := cfg\<rparr>))
       (shard_loop accept_get (\<lambda>k srv. call k srv \<lparr>ga_Key = key\<rparr>) (\<lambda>k. Query (scall k) (-1) (sck_sm ck)) key 0 (sck_config ck))"

definition shardkv_PutAppend ::
    "(nat \<Rightarrow> string \<Rightarrow> PutAppendArgs \<Rightarrow> kv_reply option) \<Rightarrow> (nat \<Rightarrow> nat \<Rightarrow> 'e \<Rightarrow> QueryArgs \<Rightarrow> ctrler_reply option)
     \<Rightarrow> string \<Rightarrow> string \<Rightarrow> string \<Rightarrow> 'e shardkv_Clerk \<Rightarrow> 'e shardkv_Clerk option" where
  "shardkv_PutAppend call scall key val op ck =
     map_option (\<lambda>(_, cfg). ck\<lparr>sck_config := cfg\<rparr>)
       (shard_loop (\<lambda>err. err = ''OK'') (\<lambda>k srv. call k srv \<lparr>pa_Key = key, pa_Value = val, pa_Op = op\<rparr>)
         (\<lambda>k. Query (scall k) (-1) (sck_sm ck)) key 0 (sck_config ck))"

definition shardkv_Put where
  "shardkv_Put call scall key val = shardkv_PutAppend call scall key val ''Put''"

definition shardkv_Append where
  "shardkv_Append call scall key val = shardkv_PutAppend call scall key val ''Append''"

subsection \<open>The client of \<open>kvraft\<close>\<close>

text \<open>Its operations are empty: \<open>Get\<close> returns the empty string and \<open>PutAppend\<close> does nothing.\<close>

record 'e kv_Clerk =
  kck_servers :: "'e list"

definition kv_MakeClerk :: "'e list \<Rightarrow> 'e kv_Clerk" where
  "kv_MakeClerk srvs = \<lparr>kck_servers = srvs\<rparr>"

definition kvc_Get :: "string \<Rightarrow> 'e kv_Clerk \<Rightarrow> string \<times> 'e kv_Clerk" where
  "kvc_Get key ck = ([], ck)"

definition kvc_PutAppend :: "string \<Rightarrow> string \<Rightarrow> string \<Rightarrow> 'e kv_Clerk \<Rightarrow> 'e kv_Clerk" where
  "kvc_PutAppend key val op ck = ck"

definition kvc_Put :: "string \<Rightarrow> string \<Rightarrow> 'e kv_Clerk \<Rightarrow> 'e kv_Clerk" where
  "kvc_Put key val = kvc_PutAppend key val ''Put''"

definition kvc_Append :: "string \<Rightarrow> string \<Rightarrow> 'e kv_Clerk \<Rightarrow> 'e kv_Clerk" where
  "kvc_Append key val = kvc_PutAppend key val ''Append''"

subsection \<open>The servers\<close>

text \<open>
  The servers hold a Raft peer, which the harness also reaches, so it is an address; starting a
  server makes the peer. The handlers are empty: they leave the reply as they get it.
\<close>

definition kv_Get_handler :: "GetArgs \<Rightarrow> kv_reply \<Rightarrow> kv_reply" where
  "kv_Get_handler args reply = reply"

definition kv_PutAppend_handler :: "PutAppendArgs \<Rightarrow> kv_reply \<Rightarrow> kv_reply" where
  "kv_PutAppend_handler args reply = reply"

definition sc_Join_handler :: "JoinArgs \<Rightarrow> ctrler_reply \<Rightarrow> ctrler_reply" where
  "sc_Join_handler args reply = reply"

definition sc_Leave_handler :: "LeaveArgs \<Rightarrow> ctrler_reply \<Rightarrow> ctrler_reply" where
  "sc_Leave_handler args reply = reply"

definition sc_Move_handler :: "MoveArgs \<Rightarrow> ctrler_reply \<Rightarrow> ctrler_reply" where
  "sc_Move_handler args reply = reply"

definition sc_Query_handler :: "QueryArgs \<Rightarrow> ctrler_reply \<Rightarrow> ctrler_reply" where
  "sc_Query_handler args reply = reply"

definition skv_Get_handler :: "GetArgs \<Rightarrow> kv_reply \<Rightarrow> kv_reply" where
  "skv_Get_handler args reply = reply"

definition skv_PutAppend_handler :: "PutAppendArgs \<Rightarrow> kv_reply \<Rightarrow> kv_reply" where
  "skv_PutAppend_handler args reply = reply"

text \<open>The replies that clients send along are zero values.\<close>

definition zero_kv_reply :: kv_reply where
  "zero_kv_reply = \<lparr>kr_Err = [], kr_Value = []\<rparr>"

definition zero_ctrler_reply :: ctrler_reply where
  "zero_ctrler_reply = \<lparr>WrongLeader = False, cr_Err = [], cr_Config = zero_Config\<rparr>"

record KVServer =
  kv_me :: int
  kv_rf :: nat
  kv_dead :: "32 word"
  kv_maxraftstate :: int

definition StartKVServer ::
    "string ClientEnd list \<Rightarrow> int \<Rightarrow> nat \<Rightarrow> Persister \<Rightarrow> int \<Rightarrow> Raft list \<Rightarrow> KVServer \<times> Raft list" where
  "StartKVServer srvs me a ps maxraftstate h =
     (let kv = \<lparr>kv_me = me, kv_rf = length h, kv_dead = 0, kv_maxraftstate = maxraftstate\<rparr>
      in (kv, h @ [Make srvs me a ps]))"

definition kv_Kill :: "KVServer \<Rightarrow> Raft list \<Rightarrow> KVServer \<times> Raft list" where
  "kv_Kill kv h = (kv\<lparr>kv_dead := 1\<rparr>, h[kv_rf kv := Kill (h ! kv_rf kv)])"

definition kv_killed :: "KVServer \<Rightarrow> bool" where
  "kv_killed kv \<longleftrightarrow> kv_dead kv = 1"

record ShardCtrler =
  sc_me :: int
  sc_rf :: nat
  sc_configs :: "Config list"

definition sc_StartServer ::
    "string ClientEnd list \<Rightarrow> int \<Rightarrow> nat \<Rightarrow> Persister \<Rightarrow> Raft list \<Rightarrow> ShardCtrler \<times> Raft list" where
  "sc_StartServer srvs me a ps h =
     (\<lparr>sc_me = me, sc_rf = length h, sc_configs = [zero_Config\<lparr>cf_Groups := Map.empty\<rparr>]\<rparr>, h @ [Make srvs me a ps])"

definition sc_Kill :: "ShardCtrler \<Rightarrow> Raft list \<Rightarrow> Raft list" where
  "sc_Kill sc h = h[sc_rf sc := Kill (h ! sc_rf sc)]"

definition sc_Raft :: "ShardCtrler \<Rightarrow> nat" where
  "sc_Raft sc = sc_rf sc"

record 'e ShardKV =
  skv_me :: int
  skv_rf :: nat
  skv_gid :: int
  skv_ctrlers :: "'e list"
  skv_maxraftstate :: int

definition skv_StartServer ::
    "string ClientEnd list \<Rightarrow> int \<Rightarrow> nat \<Rightarrow> Persister \<Rightarrow> int \<Rightarrow> int \<Rightarrow> 'e list \<Rightarrow> Raft list \<Rightarrow> 'e ShardKV \<times> Raft list" where
  "skv_StartServer srvs me a ps maxraftstate gid ctrlers h =
     (\<lparr>skv_me = me, skv_rf = length h, skv_gid = gid, skv_ctrlers = ctrlers, skv_maxraftstate = maxraftstate\<rparr>,
      h @ [Make srvs me a ps])"

definition skv_Kill :: "'e ShardKV \<Rightarrow> Raft list \<Rightarrow> Raft list" where
  "skv_Kill kv h = h[skv_rf kv := Kill (h ! skv_rf kv)]"

subsection \<open>Facts about the loops\<close>

lemma try_each_Some: "try_each call srvs = Some r \<Longrightarrow> \<exists>srv\<in>set srvs. call srv = Some r \<and> \<not> WrongLeader r"
  by (induction srvs) (auto split: option.splits if_splits)

lemma try_each_finds: "srv \<in> set srvs \<Longrightarrow> call srv = Some r \<Longrightarrow> \<not> WrongLeader r \<Longrightarrow> \<exists>r. try_each call srvs = Some r"
  by (induction srvs) (auto split: option.splits)

lemma ask_ctrler_sound:
  "ask_ctrler call srvs k = Some r \<Longrightarrow> \<exists>m\<ge>k. \<exists>srv\<in>set srvs. call m srv = Some r \<and> \<not> WrongLeader r"
proof (induction rule: ask_ctrler.raw_induct [rotated, consumes 1])
  case (1 rec call srvs k r)
  show ?case
  proof (cases "try_each (call k) srvs")
    case None
    then have "rec call srvs (Suc k) = Some r" using 1(2) by simp
    from 1(1) [OF this] show ?thesis using Suc_leD by blast
  next
    case (Some x)
    then show ?thesis using 1(2) try_each_Some [OF Some] by auto
  qed
qed

lemma ask_ctrler_first:
  assumes "\<forall>i<m. try_each (call (k + i)) srvs = None" and "try_each (call (k + m)) srvs = Some r"
  shows "ask_ctrler call srvs k = Some r"
  using assms
proof (induction m arbitrary: k)
  case 0
  then show ?case by (simp add: ask_ctrler.simps)
next
  case (Suc m)
  have "try_each (call k) srvs = None" using Suc.prems(1) [rule_format, of 0] by simp
  moreover have "ask_ctrler call srvs (Suc k) = Some r"
    using Suc.IH [of "Suc k"] Suc.prems by force
  ultimately show ?case by (simp add: ask_ctrler.simps [of call srvs k])
qed

lemma Query_sound:
  "Query call num ck = Some c \<Longrightarrow>
   \<exists>m. \<exists>srv\<in>set (ck_servers ck). \<exists>r. call m srv \<lparr>qa_Num = num\<rparr> = Some r \<and> \<not> WrongLeader r \<and> c = cr_Config r"
  using ask_ctrler_sound [of "\<lambda>k srv. call k srv \<lparr>qa_Num = num\<rparr>" "ck_servers ck" 0] try_each_Some by (fastforce simp: Query_def)

lemma try_group_Some: "try_group accept call srvs = Some r \<Longrightarrow> \<exists>srv\<in>set srvs. call srv = Some r \<and> accept (kr_Err r)"
  by (induction srvs) (auto split: option.splits if_splits)

lemma key2shard_bound: "key2shard key < NShards"
  by (simp add: key2shard_def NShards_def)

lemma shard_loop_sound:
  "shard_loop accept call query key k cfg = Some p \<Longrightarrow>
   \<exists>m\<ge>k. ask_group accept (call m) key (snd p) = Some (fst p) \<and> (snd p = cfg \<or> (\<exists>j<m. query j = Some (snd p)))"
proof (induction rule: shard_loop.raw_induct [rotated, consumes 1])
  case (1 rec accept call query key k cfg p)
  show ?case
  proof (cases "ask_group accept (call k) key cfg")
    case None
    then obtain c1 where c1: "query k = Some c1" "rec accept call query key (Suc k) c1 = Some p"
      using 1(2) by (auto simp: bind_eq_Some_conv)
    from 1(1) [OF c1(2)] obtain m where m: "m \<ge> Suc k" "ask_group accept (call m) key (snd p) = Some (fst p)"
        "snd p = c1 \<or> (\<exists>j<m. query j = Some (snd p))" by auto
    have "\<exists>j<m. query j = Some (snd p)" using m(1,3) c1(1) by (metis Suc_le_eq)
    then show ?thesis using m by (intro exI [of _ m]) auto
  next
    case (Some x)
    then show ?thesis using 1(2) by (intro exI [of _ k]) auto
  qed
qed

lemma shard_loop_returns:
  assumes "cfgs k = cfg" and "\<forall>i<m. query (k + i) = Some (cfgs (k + Suc i))"
    and "ask_group accept (call (k + m)) key (cfgs (k + m)) = Some r"
  shows "\<exists>p. shard_loop accept call query key k cfg = Some p"
  using assms
proof (induction m arbitrary: k cfg)
  case 0
  then show ?case by (simp add: shard_loop.simps)
next
  case (Suc m)
  have q: "query k = Some (cfgs (Suc k))" using Suc.prems(2) [rule_format, of 0] by simp
  have "\<exists>p. shard_loop accept call query key (Suc k) (cfgs (Suc k)) = Some p"
    using Suc.IH [of "Suc k" "cfgs (Suc k)"] Suc.prems by force
  then show ?case using q by (simp add: shard_loop.simps [of accept call query key k] split: option.splits)
qed

subsection \<open>Properties\<close>

text \<open>
  A client of the shard controller gets an answer as soon as any known server answers it as the
  leader, in whatever round, and the configuration that \<open>Query\<close> returns is one that a known server
  sent, as the leader, no later than that.
\<close>

lemma Query_answered:
  assumes "srv \<in> set (ck_servers ck)" and "call m srv \<lparr>qa_Num = num\<rparr> = Some r" and "\<not> WrongLeader r"
  shows "\<exists>c. Query call num ck = Some c \<and>
    (\<exists>m'\<le>m. \<exists>srv'\<in>set (ck_servers ck). \<exists>r'. call m' srv' \<lparr>qa_Num = num\<rparr> = Some r' \<and> \<not> WrongLeader r' \<and> c = cr_Config r')"
proof -
  let ?round = "\<lambda>k. try_each (\<lambda>srv. call k srv \<lparr>qa_Num = num\<rparr>) (ck_servers ck)"
  have ex: "\<exists>r. ?round m = Some r" using try_each_finds [of srv "ck_servers ck" "\<lambda>srv. call m srv \<lparr>qa_Num = num\<rparr>"] assms by blast
  define n where "n = (LEAST k. ?round k \<noteq> None)"
  have n: "?round n \<noteq> None" and le: "n \<le> m" using ex unfolding n_def by (auto intro: LeastI Least_le)
  have less: "\<forall>i<n. ?round i = None" unfolding n_def using not_less_Least by blast
  obtain x where x: "?round n = Some x" using n by auto
  have "ask_ctrler (\<lambda>k srv. call k srv \<lparr>qa_Num = num\<rparr>) (ck_servers ck) 0 = Some x"
    by (rule ask_ctrler_first [of n]) (use less x in simp_all)
  then show ?thesis using try_each_Some [OF x] le by (auto simp: Query_def)
qed

text \<open>
  With the handlers as they are: a query that a controller answers returns the zero configuration,
  and the operations of the sharded store never return, whichever calls are answered.
\<close>

lemma unfinished_Query:
  assumes "srv \<in> set (ck_servers ck)" and "answered m srv"
  shows "Query (\<lambda>k srv args. if answered k srv then Some (sc_Query_handler args zero_ctrler_reply) else None) num ck = Some zero_Config"
  using Query_answered [of srv ck "\<lambda>k srv args. if answered k srv then Some (sc_Query_handler args zero_ctrler_reply) else None" m num zero_ctrler_reply] assms
  by (auto simp: sc_Query_handler_def zero_ctrler_reply_def split: if_splits)

lemma shard_loop_never:
  assumes "\<And>m srv r. call m srv = Some r \<Longrightarrow> \<not> accept (kr_Err r)"
  shows "shard_loop accept call query key k cfg = None"
proof (rule ccontr)
  assume "shard_loop accept call query key k cfg \<noteq> None"
  then obtain reply cfg' where "shard_loop accept call query key k cfg = Some (reply, cfg')" by auto
  from shard_loop_sound [OF this] obtain m where "ask_group accept (call m) key cfg' = Some reply" by auto
  then obtain srvs where "try_group accept (call m) srvs = Some reply" by (auto simp: ask_group_def split: option.splits)
  then show False using try_group_Some assms by blast
qed

lemma unfinished_shardkv:
  "shardkv_Get (\<lambda>k srv args. if answered k srv then Some (skv_Get_handler args zero_kv_reply) else None) scall key ck = None"
  "shardkv_PutAppend (\<lambda>k srv args. if answered k srv then Some (skv_PutAppend_handler args zero_kv_reply) else None) scall key val op ck = None"
  unfolding shardkv_Get_def shardkv_PutAppend_def
  by (subst shard_loop_never; auto simp: skv_Get_handler_def skv_PutAppend_handler_def zero_kv_reply_def accept_get_def split: if_splits)+


definition sample_Config :: Config where
  "sample_Config = \<lparr>cf_Num = 1, cf_Shards = replicate 10 7, cf_Groups = [7 \<mapsto> [''s'']]\<rparr>"


end
