(* ===== verification/Go_Strings.thy ===== *)
theory Go_Strings
  imports Prelude "HOL-Library.List_Lexorder" "HOL-Library.Char_ord"
begin

text \<open>
  The string functions of the Go standard library that the map/reduce code calls: decimal
  formatting, UTF-8 decoding, \<open>strings.FieldsFunc\<close>, \<open>strings.Join\<close> and \<open>strings.Contains\<close>. A Go string
  is the list of its bytes. Nothing here models a file of the repository.
\<close>

subsection \<open>Decimal formatting\<close>

definition digit :: "nat \<Rightarrow> char" where
  "digit n = char_of (48 + n)"

fun digits :: "nat \<Rightarrow> string" where
  "digits n = (if n < 10 then [digit n] else digits (n div 10) @ [digit (n mod 10)])"

declare digits.simps [simp del]

text \<open>\<open>strconv.Itoa\<close> and the verb \<open>%d\<close>.\<close>

definition itoa :: "int \<Rightarrow> string" where
  "itoa i = (if i < 0 then CHR ''-'' # digits (nat (- i)) else digits (nat i))"

definition undigits :: "string \<Rightarrow> nat" where
  "undigits s = foldl (\<lambda>a c. 10 * a + (of_char c - 48)) 0 s"

lemma of_char_digit: "n < 10 \<Longrightarrow> of_char (digit n) = 48 + n"
  by (simp add: digit_def of_char_of)

lemma undigits_digits: "undigits (digits n) = n"
proof (induction n rule: digits.induct)
  case (1 n)
  show ?case
  proof (cases "n < 10")
    case True
    then show ?thesis by (subst digits.simps) (simp add: undigits_def of_char_digit)
  next
    case False
    then have "undigits (digits (n div 10)) = n div 10" using 1 by simp
    with False show ?thesis
      by (subst digits.simps) (simp add: undigits_def of_char_digit)
  qed
qed

lemma digits_chars: "c \<in> set (digits n) \<Longrightarrow> 48 \<le> (of_char c :: nat) \<and> (of_char c :: nat) \<le> 57"
proof (induction n rule: digits.induct)
  case (1 n)
  have d: "48 \<le> (of_char (digit k) :: nat) \<and> (of_char (digit k) :: nat) \<le> 57" if "k < 10" for k
    using that by (simp add: of_char_digit)
  show ?case
  proof (cases "n < 10")
    case True
    with 1(2) d [OF True] show ?thesis by (subst (asm) digits.simps) auto
  next
    case False
    with 1(2) have "c \<in> set (digits (n div 10)) \<or> c = digit (n mod 10)" by (subst (asm) digits.simps) auto
    with 1(1) [OF False] d [of "n mod 10"] show ?thesis by auto
  qed
qed

lemma digits_inject [simp]: "digits m = digits n \<longleftrightarrow> m = n"
  by (metis undigits_digits)

lemma digits_no_dash: "CHR ''-'' \<notin> set (digits n)"
  using digits_chars [of "CHR ''-''" n] by auto

lemma digits_nonempty [simp]: "digits n \<noteq> []"
  by (subst digits.simps) simp

lemma itoa_inject [simp]: "itoa i = itoa j \<longleftrightarrow> i = j"
proof -
  have "digits n \<noteq> CHR ''-'' # xs" for n xs using digits_no_dash [of n] by auto
  then show ?thesis by (auto simp: itoa_def) metis+
qed

lemma itoa_int: "itoa (int n) = digits n"
  by (simp add: itoa_def)

subsection \<open>UTF-8\<close>

text \<open>
  \<open>utf8.DecodeRuneInString\<close>: the code point at the front of a string and its width in bytes; a byte
  sequence that is not well formed yields the replacement character and consumes one byte.
\<close>

definition is_cont :: "nat \<Rightarrow> nat \<Rightarrow> nat \<Rightarrow> bool" where
  "is_cont lo hi b \<longleftrightarrow> lo \<le> b \<and> b \<le> hi"

definition RuneError :: nat where
  "RuneError = 0xFFFD"

definition decode2 :: "nat \<Rightarrow> nat list \<Rightarrow> nat \<times> nat" where
  "decode2 b0 bs =
     (case bs of b1 # _ \<Rightarrow> if is_cont 0x80 0xBF b1 then ((b0 - 0xC0) * 64 + (b1 - 0x80), 2) else (RuneError, 1)
      | [] \<Rightarrow> (RuneError, 1))"

definition decode3 :: "nat \<Rightarrow> nat \<Rightarrow> nat \<Rightarrow> nat list \<Rightarrow> nat \<times> nat" where
  "decode3 b0 lo hi bs =
     (case bs of b1 # b2 # _ \<Rightarrow>
        if is_cont lo hi b1 \<and> is_cont 0x80 0xBF b2
        then ((b0 - 0xE0) * 4096 + (b1 - 0x80) * 64 + (b2 - 0x80), 3) else (RuneError, 1)
      | _ \<Rightarrow> (RuneError, 1))"

definition decode4 :: "nat \<Rightarrow> nat \<Rightarrow> nat \<Rightarrow> nat list \<Rightarrow> nat \<times> nat" where
  "decode4 b0 lo hi bs =
     (case bs of b1 # b2 # b3 # _ \<Rightarrow>
        if is_cont lo hi b1 \<and> is_cont 0x80 0xBF b2 \<and> is_cont 0x80 0xBF b3
        then ((b0 - 0xF0) * 262144 + (b1 - 0x80) * 4096 + (b2 - 0x80) * 64 + (b3 - 0x80), 4)
        else (RuneError, 1)
      | _ \<Rightarrow> (RuneError, 1))"

fun decode_rune :: "nat list \<Rightarrow> nat \<times> nat" where
  "decode_rune [] = (RuneError, 0)"
| "decode_rune (b0 # bs) =
     (if b0 < 0x80 then (b0, 1)
      else if b0 < 0xC2 then (RuneError, 1)
      else if b0 < 0xE0 then decode2 b0 bs
      else if b0 = 0xE0 then decode3 b0 0xA0 0xBF bs
      else if b0 = 0xED then decode3 b0 0x80 0x9F bs
      else if b0 < 0xF0 then decode3 b0 0x80 0xBF bs
      else if b0 = 0xF0 then decode4 b0 0x90 0xBF bs
      else if b0 < 0xF4 then decode4 b0 0x80 0xBF bs
      else if b0 = 0xF4 then decode4 b0 0x80 0x8F bs
      else (RuneError, 1))"

lemma decode_rune_width:
  "bs \<noteq> [] \<Longrightarrow> 1 \<le> snd (decode_rune bs) \<and> snd (decode_rune bs) \<le> length bs"
  by (cases bs) (auto simp: decode2_def decode3_def decode4_def split: list.splits)

text \<open>Ranging over a string: each code point with the bytes it was decoded from.\<close>

function runes :: "string \<Rightarrow> (nat \<times> string) list" where
  "runes [] = []"
| "runes (c # cs) =
     (let (r, w) = decode_rune (map of_char (c # cs))
      in (r, take w (c # cs)) # runes (drop w (c # cs)))"
  by pat_completeness auto
termination
proof (relation "measure length")
  fix c cs x r w assume "x = decode_rune (map of_char (c # cs))" and "(r, w) = x"
  then have "1 \<le> w" using decode_rune_width [of "map of_char (c # cs)"] by (metis list.simps(9) neq_Nil_conv snd_conv)
  then show "(drop w (c # cs), c # cs) \<in> measure length" by simp
qed simp

lemma concat_runes: "concat (map snd (runes s)) = s"
proof (induction s rule: runes.induct)
  case (2 c cs)
  obtain r w where d: "decode_rune (map of_char (c # cs)) = (r, w)" by fastforce
  from 2 [OF refl d [symmetric]] have "concat (map snd (runes (drop w (c # cs)))) = drop w (c # cs)" .
  then show ?case
    unfolding runes.simps d by (simp only: case_prod_conv Let_def list.map concat.simps snd_conv append_take_drop_id)
qed simp

subsection \<open>Functions on strings\<close>

text \<open>
  \<open>strings.FieldsFunc\<close>: the maximal runs of code points that do not satisfy the predicate. The
  accumulator holds the field being read.
\<close>

fun fields_loop :: "(nat \<Rightarrow> bool) \<Rightarrow> string \<Rightarrow> (nat \<times> string) list \<Rightarrow> string list" where
  "fields_loop f cur [] = (if cur = [] then [] else [cur])"
| "fields_loop f cur ((r, bs) # rs) =
     (if f r then (if cur = [] then [] else [cur]) @ fields_loop f [] rs
      else fields_loop f (cur @ bs) rs)"

definition FieldsFunc :: "string \<Rightarrow> (nat \<Rightarrow> bool) \<Rightarrow> string list" where
  "FieldsFunc s f = fields_loop f [] (runes s)"

text \<open>\<open>strings.Join\<close>.\<close>

fun join :: "string list \<Rightarrow> string \<Rightarrow> string" where
  "join [] sep = []"
| "join [x] sep = x"
| "join (x # xs) sep = x @ sep @ join xs sep"

text \<open>\<open>strings.Contains\<close> and \<open>strings.HasPrefix\<close>.\<close>

fun has_prefix :: "string \<Rightarrow> string \<Rightarrow> bool" where
  "has_prefix s [] = True"
| "has_prefix [] (c # cs) = False"
| "has_prefix (x # xs) (c # cs) = (x = c \<and> has_prefix xs cs)"

fun contains :: "string \<Rightarrow> string \<Rightarrow> bool" where
  "contains [] sub = (sub = [])"
| "contains (x # xs) sub = (has_prefix (x # xs) sub \<or> contains xs sub)"

end
