(* ===== verification/Shard_Config.thy ===== *)
theory Shard_Config
  imports Harness Shard_Clients Go_Strings
begin

text \<open>
  The test harness of \<open>shardkv\<close> (\<open>shardkv/config.go\<close>): three controllers, three groups of servers, and
  clients, on a network whose servers have string names. The random names are drawn from a
  sequence \<open>rnd\<close>; \<open>gh_rand\<close> counts how many were drawn. Group and server indices are natural numbers;
  clock readings, method tables and what servers answer are arguments.
\<close>

subsection \<open>State\<close>

record shard_group =
  gg_gid :: int
  gg_servers :: "string ClientEnd ShardKV option list"
  gg_saved :: "nat option list"
  gg_endnames :: endtable
  gg_mendnames :: endtable

record shard_config =
  g_net :: "(string, string) Network"
  g_start :: int
  g_nctrlers :: nat
  g_ctrlerservers :: "ShardCtrler option list"
  g_mck :: "string ClientEnd ctrler_Clerk"
  g_ngroups :: nat
  g_n :: nat
  g_groups :: "shard_group list"
  g_clerks :: "nat \<rightharpoonup> string list"
  g_nextClientId :: int
  g_maxraftstate :: int
  gh_rand :: nat
  gh_persisters :: "Persister list"
  gh_rafts :: "Raft list"
  gh_servers :: "Raft list Server list"
  gh_clerks :: "string ClientEnd shardkv_Clerk list"

definition ctrlername :: "nat \<Rightarrow> string" where
  "ctrlername i = ''ctrler'' @ itoa (int i)"

definition servername :: "int \<Rightarrow> nat \<Rightarrow> string" where
  "servername gid i = ''server-'' @ itoa gid @ ''-'' @ itoa (int i)"

subsection \<open>Ends\<close>

text \<open>A new end, connected to a server and enabled; the function that \<open>make_end\<close> stands for draws its name.\<close>

definition live_end :: "string \<Rightarrow> string \<Rightarrow> (string, string) Network \<Rightarrow> ((string, string) Network \<times> string ClientEnd) go" where
  "live_end name target rn =
     go_bind (MakeEnd name rn) (\<lambda>(rn', e). Inr (Enable name True (Connect name target rn'), e))"

definition make_end :: "(nat \<Rightarrow> string) \<Rightarrow> string \<Rightarrow> shard_config \<Rightarrow> (string ClientEnd \<times> shard_config) go" where
  "make_end rnd target cfg =
     go_bind (live_end (rnd (gh_rand cfg)) target (g_net cfg)) (\<lambda>(rn, e).
     Inr (e, cfg\<lparr>g_net := rn, gh_rand := gh_rand cfg + 1\<rparr>))"

text \<open>The loops that make \<open>n\<close> such ends: their names and the ends.\<close>

definition live_ends ::
    "(nat \<Rightarrow> string) \<Rightarrow> (nat \<Rightarrow> string) \<Rightarrow> nat \<Rightarrow> (string, string) Network \<Rightarrow> ((string, string) Network \<times> string ClientEnd list) go" where
  "live_ends names target n rn =
     go_fold (\<lambda>j (rn, es). go_bind (live_end (names j) (target j) rn) (\<lambda>(rn', e). Inr (rn', es @ [e]))) [0..<n] (rn, [])"

subsection \<open>Starting and stopping servers\<close>

definition StartCtrlerserver ::
    "Raft list method_info list \<Rightarrow> Raft list method_info list \<Rightarrow> (nat \<Rightarrow> string) \<Rightarrow> nat \<Rightarrow> shard_config \<Rightarrow> shard_config go" where
  "StartCtrlerserver sc_ms rf_ms rnd i cfg =
     go_bind (live_ends (\<lambda>j. rnd (gh_rand cfg + j)) ctrlername (g_nctrlers cfg) (g_net cfg)) (\<lambda>(rn, es).
     let a = length (gh_persisters cfg);
         (sc, h) = sc_StartServer es (int i) a MakePersister (gh_rafts cfg);
         srv = AddService (MakeService ''Raft'' rf_ms) (AddService (MakeService ''ShardCtrler'' sc_ms) MakeServer)
     in go_bind (slice_set (g_ctrlerservers cfg) (int i) (Some sc)) (\<lambda>scs.
        Inr (cfg\<lparr>g_net := AddServer (ctrlername i) (length (gh_servers cfg)) rn, gh_rand := gh_rand cfg + g_nctrlers cfg,
                 g_ctrlerservers := scs, gh_persisters := gh_persisters cfg @ [MakePersister], gh_rafts := h,
                 gh_servers := gh_servers cfg @ [srv]\<rparr>)))"

definition shardclerk :: "(nat \<Rightarrow> string) \<Rightarrow> shard_config \<Rightarrow> (string ClientEnd ctrler_Clerk \<times> shard_config) go" where
  "shardclerk rnd cfg =
     go_bind (live_ends (\<lambda>j. rnd (gh_rand cfg + j)) ctrlername (g_nctrlers cfg) (g_net cfg)) (\<lambda>(rn, es).
     Inr (ctrler_MakeClerk es, cfg\<lparr>g_net := rn, gh_rand := gh_rand cfg + g_nctrlers cfg\<rparr>))"

text \<open>A fresh persister with a copy of the old one's content, or an empty one.\<close>

definition gg_copy_persister :: "nat \<Rightarrow> shard_group \<Rightarrow> Persister list \<Rightarrow> (shard_group \<times> Persister list) go" where
  "gg_copy_persister i gg ps =
     go_bind (slice_get (gg_saved gg) (int i)) (\<lambda>s. case s of
       None \<Rightarrow> Inr (gg, ps)
     | Some a \<Rightarrow> Inr (gg\<lparr>gg_saved := (gg_saved gg)[i := Some (length ps)]\<rparr>, ps @ [Copy (ps ! a)]))"

definition gg_load_persister :: "nat \<Rightarrow> shard_group \<Rightarrow> Persister list \<Rightarrow> (shard_group \<times> Persister list) go" where
  "gg_load_persister i gg ps =
     go_bind (slice_get (gg_saved gg) (int i)) (\<lambda>s. case s of
       None \<Rightarrow> Inr (gg\<lparr>gg_saved := (gg_saved gg)[i := Some (length ps)]\<rparr>, ps @ [MakePersister])
     | Some _ \<Rightarrow> gg_copy_persister i gg ps)"

definition sk_ShutdownServer :: "nat \<Rightarrow> nat \<Rightarrow> shard_config \<Rightarrow> shard_config go" where
  "sk_ShutdownServer gi i cfg =
     go_bind (slice_get (g_groups cfg) (int gi)) (\<lambda>gg.
     go_bind (set_ends Enable False (\<lambda>_. Inr True) (\<lambda>j. endname_at (gg_endnames gg) i j) [0..<length (gg_servers gg)] (g_net cfg)) (\<lambda>rn1.
     go_bind (slice_get (gg_mendnames gg) (int i)) (\<lambda>mrow.
     let ms = (case mrow of None \<Rightarrow> [] | Some ms \<Rightarrow> ms) in
     go_bind (set_ends Enable False (\<lambda>_. Inr True) (\<lambda>j. slice_get ms (int j)) [0..<length ms] rn1) (\<lambda>rn2.
     go_bind (gg_copy_persister i gg (gh_persisters cfg)) (\<lambda>(gg1, ps).
     let c1 = cfg\<lparr>g_net := DeleteServer (servername (gg_gid gg) i) rn2, gh_persisters := ps\<rparr> in
     go_bind (slice_get (gg_servers gg1) (int i)) (\<lambda>kv. case kv of
       None \<Rightarrow> Inr (c1\<lparr>g_groups := (g_groups cfg)[gi := gg1]\<rparr>)
     | Some kv \<Rightarrow> Inr (c1\<lparr>gh_rafts := skv_Kill kv (gh_rafts cfg),
                          g_groups := (g_groups cfg)[gi := gg1\<lparr>gg_servers := (gg_servers gg1)[i := None]\<rparr>]\<rparr>)))))))"

definition ShutdownGroup :: "nat \<Rightarrow> shard_config \<Rightarrow> shard_config go" where
  "ShutdownGroup gi cfg = go_fold (sk_ShutdownServer gi) [0..<g_n cfg] cfg"

definition sk_StartServer ::
    "Raft list method_info list \<Rightarrow> Raft list method_info list \<Rightarrow> (nat \<Rightarrow> string) \<Rightarrow> nat \<Rightarrow> nat \<Rightarrow> shard_config \<Rightarrow> shard_config go" where
  "sk_StartServer kv_ms rf_ms rnd gi i cfg =
     go_bind (slice_get (g_groups cfg) (int gi)) (\<lambda>gg.
     let k = gh_rand cfg; names = (\<lambda>j. rnd (k + j)); mnames = (\<lambda>j. rnd (k + g_n cfg + j)) in
     go_bind (slice_set (gg_endnames gg) (int i) (Some (map names [0..<g_n cfg]))) (\<lambda>eds.
     go_bind (live_ends names (servername (gg_gid gg)) (g_n cfg) (g_net cfg)) (\<lambda>(rn1, es).
     go_bind (slice_set (gg_mendnames gg) (int i) (Some (map mnames [0..<g_nctrlers cfg]))) (\<lambda>meds.
     go_bind (live_ends mnames ctrlername (g_nctrlers cfg) rn1) (\<lambda>(rn2, mends).
     go_bind (gg_load_persister i (gg\<lparr>gg_endnames := eds, gg_mendnames := meds\<rparr>) (gh_persisters cfg)) (\<lambda>(gg1, ps).
     let a = length ps - 1;
         (kv, h) = skv_StartServer es (int i) a (ps ! a) (g_maxraftstate cfg) (gg_gid gg) mends (gh_rafts cfg);
         srv = AddService (MakeService ''Raft'' rf_ms) (AddService (MakeService ''ShardKV'' kv_ms) MakeServer)
     in go_bind (slice_set (gg_servers gg1) (int i) (Some kv)) (\<lambda>svs.
        Inr (cfg\<lparr>g_net := AddServer (servername (gg_gid gg) i) (length (gh_servers cfg)) rn2,
                 gh_rand := k + g_n cfg + g_nctrlers cfg, gh_persisters := ps, gh_rafts := h, gh_servers := gh_servers cfg @ [srv],
                 g_groups := (g_groups cfg)[gi := gg1\<lparr>gg_servers := svs\<rparr>]\<rparr>))))))))"

definition StartGroup ::
    "Raft list method_info list \<Rightarrow> Raft list method_info list \<Rightarrow> (nat \<Rightarrow> string) \<Rightarrow> nat \<Rightarrow> shard_config \<Rightarrow> shard_config go" where
  "StartGroup kv_ms rf_ms rnd gi cfg = go_fold (sk_StartServer kv_ms rf_ms rnd gi) [0..<g_n cfg] cfg"

subsection \<open>Clients and tests\<close>

text \<open>\<open>makeClient\<close>: the slice of names has one place per server of a group, but is filled for every controller.\<close>

definition client_step :: "(nat \<Rightarrow> string) \<Rightarrow> nat \<Rightarrow> (string, string) Network \<times> string list \<times> string ClientEnd list \<Rightarrow>
    ((string, string) Network \<times> string list \<times> string ClientEnd list) go" where
  "client_step names j = (\<lambda>(rn, nms, es). go_bind (slice_set nms (int j) (names j)) (\<lambda>nms'.
     go_bind (live_end (names j) (ctrlername j) rn) (\<lambda>(rn', e). Inr (rn', nms', es @ [e]))))"

definition sk_makeClient :: "(nat \<Rightarrow> string) \<Rightarrow> shard_config \<Rightarrow> (nat \<times> shard_config) go" where
  "sk_makeClient rnd cfg =
     go_bind (go_fold (client_step (\<lambda>j. rnd (gh_rand cfg + j))) [0..<g_nctrlers cfg] (g_net cfg, replicate (g_n cfg) [], [])) (\<lambda>(rn, names, es).
     let ck = length (gh_clerks cfg) in
     Inr (ck, cfg\<lparr>g_net := rn, gh_rand := gh_rand cfg + g_nctrlers cfg, gh_clerks := gh_clerks cfg @ [shardkv_MakeClerk es],
                  g_clerks := (g_clerks cfg)(ck \<mapsto> names), g_nextClientId := g_nextClientId cfg + 1\<rparr>))"

definition sk_deleteClient :: "nat \<Rightarrow> shard_config \<Rightarrow> shard_config" where
  "sk_deleteClient ck cfg = cfg\<lparr>g_clerks := (g_clerks cfg)(ck := None)\<rparr>"

definition sk_checkTimeout :: "bool \<Rightarrow> int \<Rightarrow> shard_config \<Rightarrow> unit go" where
  "sk_checkTimeout failed now cfg =
     (if \<not> failed \<and> now - g_start cfg > 120000 then Inl (TestFatal ''test took longer than 120 seconds'') else Inr ())"

definition sk_cleanup :: "bool \<Rightarrow> int \<Rightarrow> shard_config \<Rightarrow> shard_config go" where
  "sk_cleanup failed now cfg =
     go_bind (go_fold ShutdownGroup [0..<g_ngroups cfg] cfg) (\<lambda>c1.
     go_bind (go_fold (\<lambda>i c. go_bind (slice_get (g_ctrlerservers c) (int i)) (\<lambda>sc. case sc of
         None \<Rightarrow> Inl NilDereference
       | Some sc \<Rightarrow> Inr (c\<lparr>gh_rafts := sc_Kill sc (gh_rafts c)\<rparr>))) [0..<g_nctrlers c1] c1) (\<lambda>c2.
     go_bind (Cleanup (g_net c2)) (\<lambda>rn.
     go_bind (sk_checkTimeout failed now c2) (\<lambda>_. Inr (c2\<lparr>g_net := rn\<rparr>)))))"

definition check_log :: "shard_config \<Rightarrow> Persister \<Rightarrow> unit go" where
  "check_log cfg ps =
     (let raft = int (RaftStateSize ps); snap = length (ReadSnapshot ps) in
      if g_maxraftstate cfg \<ge> 0 \<and> raft > 8 * g_maxraftstate cfg then Inl (TestFatal ''persister.RaftStateSize() exceeds maxraftstate'')
      else if g_maxraftstate cfg < 0 \<and> snap > 0 then Inl (TestFatal ''maxraftstate is -1, but snapshot is non-empty!'')
      else Inr ())"

definition checklogs :: "shard_config \<Rightarrow> unit go" where
  "checklogs cfg =
     go_fold (\<lambda>gi _. go_fold (\<lambda>i _.
       go_bind (slice_get (g_groups cfg) (int gi)) (\<lambda>gg.
       go_bind (slice_get (gg_saved gg) (int i)) (\<lambda>s. case s of
         None \<Rightarrow> Inl NilDereference
       | Some a \<Rightarrow> check_log cfg (gh_persisters cfg ! a)))) [0..<g_n cfg] ()) [0..<g_ngroups cfg] ()"

text \<open>What \<open>joinm\<close> sends to the controller, and what \<open>leavem\<close> does; \<open>call\<close> is what the controllers answer.\<close>

definition join_map :: "nat list \<Rightarrow> shard_config \<Rightarrow> (int \<rightharpoonup> string list) go" where
  "join_map gis cfg =
     go_fold (\<lambda>g m. go_bind (slice_get (g_groups cfg) (int g)) (\<lambda>gg.
       Inr (m(gg_gid gg \<mapsto> map (servername (gg_gid gg)) [0..<g_n cfg])))) gis Map.empty"

definition joinm ::
    "(nat \<Rightarrow> string ClientEnd \<Rightarrow> JoinArgs \<Rightarrow> ctrler_reply option) \<Rightarrow> nat list \<Rightarrow> shard_config \<Rightarrow> unit go_run" where
  "joinm call gis cfg =
     run_bind (Some (join_map gis cfg)) (\<lambda>m. map_option Inr (Join call m (g_mck cfg)))"

definition leavem ::
    "(nat \<Rightarrow> string ClientEnd \<Rightarrow> LeaveArgs \<Rightarrow> ctrler_reply option) \<Rightarrow> nat list \<Rightarrow> shard_config \<Rightarrow> unit go_run" where
  "leavem call gis cfg =
     run_bind (Some (go_fold (\<lambda>g gids. go_bind (slice_get (g_groups cfg) (int g)) (\<lambda>gg. Inr (gids @ [gg_gid gg]))) gis []))
       (\<lambda>gids. map_option Inr (Leave call gids (g_mck cfg)))"

definition sk_join where
  "sk_join call gi = joinm call [gi]"

definition sk_leave where
  "sk_leave call gi = leavem call [gi]"

definition sk_new_config :: "int \<Rightarrow> int \<Rightarrow> shard_config" where
  "sk_new_config now maxraftstate =
     \<lparr>g_net = MakeNetwork, g_start = now, g_nctrlers = 3, g_ctrlerservers = replicate 3 None, g_mck = \<lparr>ck_servers = []\<rparr>,
      g_ngroups = 0, g_n = 0, g_groups = [], g_clerks = Map.empty, g_nextClientId = 0, g_maxraftstate = maxraftstate,
      gh_rand = 0, gh_persisters = [], gh_rafts = [], gh_servers = [], gh_clerks = []\<rparr>"

text \<open>
  The groups of \<open>make_config\<close>. The slice \<open>cfg.groups\<close> has all its places before the first group is
  filled in; here it grows with the groups. The rows of \<open>mendnames\<close> are as many as the controllers.
\<close>

definition new_group :: "nat \<Rightarrow> nat \<Rightarrow> nat \<Rightarrow> shard_group" where
  "new_group gi n nctrlers =
     \<lparr>gg_gid = 100 + int gi, gg_servers = replicate n None, gg_saved = replicate n None, gg_endnames = replicate n None,
      gg_mendnames = replicate nctrlers None\<rparr>"

definition add_group ::
    "Raft list method_info list \<Rightarrow> Raft list method_info list \<Rightarrow> (nat \<Rightarrow> string) \<Rightarrow> nat \<Rightarrow> shard_config \<Rightarrow> shard_config go" where
  "add_group kv_ms rf_ms rnd gi cfg =
     StartGroup kv_ms rf_ms rnd gi (cfg\<lparr>g_groups := g_groups cfg @ [new_group gi (g_n cfg) (g_nctrlers cfg)]\<rparr>)"

definition sk_make_config ::
    "Raft list method_info list \<Rightarrow> Raft list method_info list \<Rightarrow> Raft list method_info list \<Rightarrow> (nat \<Rightarrow> string) \<Rightarrow> int \<Rightarrow> nat \<Rightarrow> bool \<Rightarrow> int
     \<Rightarrow> shard_config go" where
  "sk_make_config sc_ms kv_ms rf_ms rnd now n unreliable maxraftstate =
     go_bind (go_fold (StartCtrlerserver sc_ms rf_ms rnd) [0..<3] (sk_new_config now maxraftstate)) (\<lambda>c1.
     go_bind (shardclerk rnd c1) (\<lambda>(mck, c2).
     go_bind (go_fold (add_group kv_ms rf_ms rnd) [0..<3] (c2\<lparr>g_mck := mck, g_ngroups := 3, g_n := n\<rparr>)) (\<lambda>c3.
     Inr (c3\<lparr>g_clerks := Map.empty, g_nextClientId := int n + 1000, g_net := Reliable (\<not> unreliable) (g_net c3)\<rparr>))))"

subsection \<open>Names\<close>

lemma servername_inject: "servername (int g) i = servername (int g') i' \<longleftrightarrow> g = g' \<and> i = i'"
  using append_Cons_eq_iff [of "CHR ''-''" "digits g" "digits i" "digits g'" "digits i'"] digits_no_dash
  by (auto simp: servername_def itoa_int)

lemma servername_ctrlername: "servername gid i \<noteq> ctrlername j" "ctrlername j \<noteq> servername gid i" "ctrlername i = ctrlername j \<longleftrightarrow> i = j"
  by (simp_all add: servername_def ctrlername_def)

subsection \<open>Ends that are made\<close>

lemma live_ends_Suc:
  "live_ends names target (Suc n) rn = go_bind (live_ends names target n rn) (\<lambda>(rn', es).
     go_bind (live_end (names n) (target n) rn') (\<lambda>(rn'', e). Inr (rn'', es @ [e])))"
  unfolding live_ends_def by (cases "go_fold (\<lambda>j (rn, es). go_bind (live_end (names j) (target j) rn) (\<lambda>(rn', e). Inr (rn', es @ [e])))
    [0..<n] (rn, [])") (auto split: prod.splits)

definition ends_added ::
    "(nat \<Rightarrow> string) \<Rightarrow> (nat \<Rightarrow> string) \<Rightarrow> nat \<Rightarrow> (string, string) Network \<Rightarrow> (string, string) Network \<Rightarrow> bool" where
  "ends_added names target n rn rn' \<longleftrightarrow> (\<forall>j<n. ends rn (names j) = None) \<and> inj_on names {..<n} \<and> servers rn' = servers rn \<and>
     net_done rn' = net_done rn \<and> dom (ends rn') = dom (ends rn) \<union> names ` {..<n} \<and>
     (\<forall>j<n. enabled rn' (names j) \<and> connections rn' (names j) = Some (target j)) \<and>
     (\<forall>e. e \<notin> names ` {..<n} \<longrightarrow> enabled rn' e = enabled rn e \<and> connections rn' e = connections rn e)"

lemma live_ends_added: "live_ends names target n rn = Inr (rn', es) \<Longrightarrow> ends_added names target n rn rn'"
proof (induction n arbitrary: rn' es)
  case 0
  then show ?case by (simp add: live_ends_def ends_added_def)
next
  case (Suc n)
  then obtain rn1 es1 where 1: "live_ends names target n rn = Inr (rn1, es1)" and new: "ends rn1 (names n) = None"
    and rn': "rn' = Enable (names n) True (Connect (names n) (target n) (rn1\<lparr>ends := (ends rn1)(names n \<mapsto> \<lparr>ce_endname = names n\<rparr>),
        enabled := (enabled rn1)(names n := False), connections := (connections rn1)(names n := None)\<rparr>))"
    by (auto simp: live_ends_Suc live_end_def go_bind_eq_Inr MakeEnd_def Let_def split: if_splits)
  note IH = Suc.IH [OF 1, unfolded ends_added_def]
  then have nn: "ends rn (names n) = None" and notin: "names n \<notin> names ` {..<n}" using new by (auto simp: domIff)
  have nj: "names j \<noteq> names n" if "j < n" for j using notin that by (metis imageI lessThan_iff)
  show ?case
    unfolding ends_added_def
  proof (intro conjI)
    show "dom (ends rn') = dom (ends rn) \<union> names ` {..<Suc n}" using IH by (simp add: rn' Connect_def Enable_def lessThan_Suc)
    show "\<forall>j<Suc n. enabled rn' (names j) \<and> connections rn' (names j) = Some (target j)"
      using IH nj by (simp add: rn' Connect_def Enable_def less_Suc_eq)
    show "\<forall>e. e \<notin> names ` {..<Suc n} \<longrightarrow> enabled rn' e = enabled rn e \<and> connections rn' e = connections rn e"
      using IH by (simp add: rn' Connect_def Enable_def lessThan_Suc)
    show "inj_on names {..<Suc n}" "\<forall>j<Suc n. ends rn (names j) = None" using IH nn notin by (simp_all add: lessThan_Suc less_Suc_eq)
    show "servers rn' = servers rn" "net_done rn' = net_done rn" using IH by (simp_all add: rn' Connect_def Enable_def)
  qed
qed

lemma live_ends_succeed:
  assumes "inj_on names {..<n}" and "\<forall>j<n. ends rn (names j) = None"
  shows "\<exists>rn' es. live_ends names target n rn = Inr (rn', es)"
  using assms
proof (induction n)
  case 0
  then show ?case by (simp add: live_ends_def)
next
  case (Suc n)
  then obtain rn1 es1 where 1: "live_ends names target n rn = Inr (rn1, es1)"
    by (auto simp: lessThan_Suc dest: inj_on_subset)
  have "names n \<notin> names ` {..<n}" using Suc.prems(1) by (simp add: lessThan_Suc)
  moreover have "ends rn (names n) = None" using Suc.prems(2) by simp
  ultimately have "ends rn1 (names n) = None" using live_ends_added [OF 1, unfolded ends_added_def] by (metis Un_iff domIff)
  then show ?case using 1 by (simp add: live_ends_Suc live_end_def MakeEnd_def Let_def)
qed

text \<open>Names that were not drawn yet are fresh.\<close>

lemma drawn_fresh:
  fixes rnd :: "nat \<Rightarrow> string"
  assumes "inj rnd" and "dom (ends rn) \<subseteq> rnd ` {..<k}"
  shows "inj_on (\<lambda>j. rnd (k + j)) {..<n} \<and> (\<forall>j<n. ends rn (rnd (k + j)) = None)"
proof -
  have "rnd (k + j) \<notin> rnd ` {..<k}" for j using assms(1) by (auto simp: inj_eq)
  then show ?thesis using assms by (fastforce simp: inj_on_def dest: injD)
qed

lemma drawn_dom:
  fixes rnd :: "nat \<Rightarrow> string"
  assumes "dom (ends rn) \<subseteq> rnd ` {..<k}" and "ends_added (\<lambda>j. rnd (k + j)) target n rn rn'"
  shows "dom (ends rn') \<subseteq> rnd ` {..<k + n}"
proof -
  have "rnd ` {..<k} \<subseteq> rnd ` {..<k + n}" "(\<lambda>j. rnd (k + j)) ` {..<n} \<subseteq> rnd ` {..<k + n}" by auto
  then show ?thesis using assms by (auto simp: ends_added_def)
qed

lemma ends_added_keeps:
  assumes "ends_added names target n rn rn'" and "ends rn e \<noteq> None"
  shows "enabled rn' e = enabled rn e \<and> connections rn' e = connections rn e \<and> ends rn' e \<noteq> None"
proof -
  have "e \<notin> names ` {..<n}" using assms by (auto simp: ends_added_def)
  moreover have "e \<in> dom (ends rn')" using assms by (auto simp: ends_added_def)
  ultimately show ?thesis using assms(1) by (auto simp: ends_added_def)
qed

subsection \<open>Effects of starting and stopping\<close>

lemma gg_load_persister_ok:
  assumes "i < length (gg_saved gg)"
  shows "\<exists>sv ps'. gg_load_persister i gg ps = Inr (gg\<lparr>gg_saved := sv\<rparr>, ps') \<and> length sv = length (gg_saved gg)"
  using assms by (cases "gg_saved gg ! i") (auto simp: gg_load_persister_def gg_copy_persister_def)

lemma gg_copy_persister_ok:
  assumes "i < length (gg_saved gg)"
  shows "\<exists>sv ps'. gg_copy_persister i gg ps = Inr (gg\<lparr>gg_saved := sv\<rparr>, ps') \<and> length sv = length (gg_saved gg)"
proof (cases "gg_saved gg ! i")
  case None
  then show ?thesis using assms by (intro exI [of _ "gg_saved gg"] exI [of _ ps]) (simp add: gg_copy_persister_def)
next
  case (Some a)
  then show ?thesis using assms by (auto simp: gg_copy_persister_def)
qed

text \<open>The relation between the states before and after a server was started, or was shut down.\<close>

definition server_started :: "(nat \<Rightarrow> string) \<Rightarrow> nat \<Rightarrow> nat \<Rightarrow> shard_config \<Rightarrow> shard_config \<Rightarrow> bool" where
  "server_started rnd gi i c c' \<longleftrightarrow>
     (let gg = g_groups c ! gi; k = gh_rand c; n = g_n c in
      \<exists>rn1 rn2 a kv sv.
        ends_added (\<lambda>j. rnd (k + j)) (servername (gg_gid gg)) n (g_net c) rn1 \<and>
        ends_added (\<lambda>j. rnd (k + n + j)) ctrlername (g_nctrlers c) rn1 rn2 \<and>
        length sv = length (gg_saved gg) \<and>
        g_net c' = AddServer (servername (gg_gid gg) i) a rn2 \<and> gh_rand c' = k + n + g_nctrlers c \<and>
        g_n c' = n \<and> g_nctrlers c' = g_nctrlers c \<and> g_ctrlerservers c' = g_ctrlerservers c \<and>
        g_groups c' = (g_groups c)[gi := gg\<lparr>gg_servers := (gg_servers gg)[i := Some kv], gg_saved := sv,
           gg_endnames := (gg_endnames gg)[i := Some (map (\<lambda>j. rnd (k + j)) [0..<n])],
           gg_mendnames := (gg_mendnames gg)[i := Some (map (\<lambda>j. rnd (k + n + j)) [0..<g_nctrlers c])]\<rparr>])"

definition in_range :: "nat \<Rightarrow> nat \<Rightarrow> shard_config \<Rightarrow> bool" where
  "in_range gi i c \<longleftrightarrow> gi < length (g_groups c) \<and> i < length (gg_servers (g_groups c ! gi)) \<and> i < length (gg_saved (g_groups c ! gi)) \<and>
     i < length (gg_endnames (g_groups c ! gi)) \<and> i < length (gg_mendnames (g_groups c ! gi))"

lemma sk_StartServer_run:
  assumes r: "in_range gi i c"
    and l1: "live_ends (\<lambda>j. rnd (gh_rand c + j)) (servername (gg_gid (g_groups c ! gi))) (g_n c) (g_net c) = Inr (rn1, es)"
    and l2: "live_ends (\<lambda>j. rnd (gh_rand c + g_n c + j)) ctrlername (g_nctrlers c) rn1 = Inr (rn2, mes)"
  shows "\<exists>c'. sk_StartServer kv_ms rf_ms rnd gi i c = Inr c' \<and> server_started rnd gi i c c'"
proof -
  let ?gg = "g_groups c ! gi"
  let ?gg1 = "?gg\<lparr>gg_endnames := (gg_endnames ?gg)[i := Some (map (\<lambda>j. rnd (gh_rand c + j)) [0..<g_n c])],
    gg_mendnames := (gg_mendnames ?gg)[i := Some (map (\<lambda>j. rnd (gh_rand c + g_n c + j)) [0..<g_nctrlers c])]\<rparr>"
  obtain sv ps where p: "gg_load_persister i ?gg1 (gh_persisters c) = Inr (?gg1\<lparr>gg_saved := sv\<rparr>, ps)" "length sv = length (gg_saved ?gg)"
    using gg_load_persister_ok [of i ?gg1 "gh_persisters c"] r by (auto simp: in_range_def)
  let ?gg2 = "\<lambda>kv. ?gg1\<lparr>gg_saved := sv, gg_servers := (gg_servers ?gg)[i := Some kv]\<rparr>"
  obtain c' kv where c': "sk_StartServer kv_ms rf_ms rnd gi i c = Inr c'" "g_groups c' = (g_groups c)[gi := ?gg2 kv]"
      "g_net c' = AddServer (servername (gg_gid ?gg) i) (length (gh_servers c)) rn2" "gh_rand c' = gh_rand c + g_n c + g_nctrlers c"
      "g_n c' = g_n c" "g_nctrlers c' = g_nctrlers c" "g_ctrlerservers c' = g_ctrlerservers c"
    using r l1 l2 p(1) by (simp add: sk_StartServer_def in_range_def skv_StartServer_def Let_def)
  have "?gg2 kv = ?gg\<lparr>gg_servers := (gg_servers ?gg)[i := Some kv], gg_saved := sv,
      gg_endnames := (gg_endnames ?gg)[i := Some (map (\<lambda>j. rnd (gh_rand c + j)) [0..<g_n c])],
      gg_mendnames := (gg_mendnames ?gg)[i := Some (map (\<lambda>j. rnd (gh_rand c + g_n c + j)) [0..<g_nctrlers c])]\<rparr>" by simp
  with c' p(2) live_ends_added [OF l1] live_ends_added [OF l2] show ?thesis unfolding server_started_def Let_def by metis
qed

lemma sk_StartServer_started:
  assumes "sk_StartServer kv_ms rf_ms rnd gi i c = Inr c'"
  shows "in_range gi i c \<and> server_started rnd gi i c c'"
proof -
  have ranges: "gi < length (g_groups c)" "i < length (gg_endnames (g_groups c ! gi))" "i < length (gg_mendnames (g_groups c ! gi))"
    and "\<exists>rn1 es. live_ends (\<lambda>j. rnd (gh_rand c + j)) (servername (gg_gid (g_groups c ! gi))) (g_n c) (g_net c) = Inr (rn1, es) \<and>
      (\<exists>rn2 mes. live_ends (\<lambda>j. rnd (gh_rand c + g_n c + j)) ctrlername (g_nctrlers c) rn1 = Inr (rn2, mes))"
    using assms by (auto simp: sk_StartServer_def go_bind_eq_Inr Let_def split: if_splits)
  then obtain rn1 es rn2 mes where
    l: "live_ends (\<lambda>j. rnd (gh_rand c + j)) (servername (gg_gid (g_groups c ! gi))) (g_n c) (g_net c) = Inr (rn1, es)"
      "live_ends (\<lambda>j. rnd (gh_rand c + g_n c + j)) ctrlername (g_nctrlers c) rn1 = Inr (rn2, mes)" by blast
  have saved: "i < length (gg_saved (g_groups c ! gi))"
    using assms ranges l by (auto simp: sk_StartServer_def gg_load_persister_def slice_get_Inr go_bind_eq_Inr Let_def split: if_splits)
  have "i < length (gg_servers (g_groups c ! gi))"
    using assms ranges l saved
    by (auto simp: sk_StartServer_def gg_load_persister_def gg_copy_persister_def go_bind_eq_Inr skv_StartServer_def Let_def
        split: if_splits option.splits)
  with saved ranges have r: "in_range gi i c" by (simp add: in_range_def)
  from sk_StartServer_run [OF r l, of kv_ms rf_ms] assms r show ?thesis by auto
qed

text \<open>The names of the ends of server \<open>i\<close> of a group.\<close>

definition own_ends :: "shard_group \<Rightarrow> nat \<Rightarrow> string set" where
  "own_ends gg i = {e. \<exists>j<length (gg_servers gg). endname_at (gg_endnames gg) i j = Inr e} \<union> {e. \<exists>j. endname_at (gg_mendnames gg) i j = Inr e}"

definition server_stopped :: "nat \<Rightarrow> nat \<Rightarrow> shard_config \<Rightarrow> shard_config \<Rightarrow> bool" where
  "server_stopped gi i c c' \<longleftrightarrow>
     (let gg = g_groups c ! gi in
      \<exists>rn sv. net_rest rn = net_rest (g_net c) \<and> (\<forall>e. enabled rn e = (e \<notin> own_ends gg i \<and> enabled (g_net c) e)) \<and>
        g_net c' = DeleteServer (servername (gg_gid gg) i) rn \<and> length sv = length (gg_saved gg) \<and>
        gh_rand c' = gh_rand c \<and> g_n c' = g_n c \<and> g_nctrlers c' = g_nctrlers c \<and> g_ctrlerservers c' = g_ctrlerservers c \<and>
        g_groups c' = (g_groups c)[gi := gg\<lparr>gg_servers := (gg_servers gg)[i := None], gg_saved := sv\<rparr>])"

lemma switched_off:
  assumes "set_ends Enable False (\<lambda>_. Inr True) name js rn = Inr rn'"
  shows "net_rest rn' = net_rest rn \<and> (\<forall>e. enabled rn' e = ((\<nexists>j. j \<in> set js \<and> name j = Inr e) \<and> enabled rn e))"
proof -
  have "\<exists>nm. \<forall>j\<in>set js. name j = Inr (nm j)" using set_ends_named [OF assms] by metis
  then obtain nm where nm: "\<And>j. j \<in> set js \<Longrightarrow> name j = Inr (nm j)" by blast
  obtain s where s: "set_ends Enable False (\<lambda>_. Inr True) name js rn = Inr s" "net_rest s = net_rest rn"
      "\<And>e. enabled s e = (if e \<in> nm ` {j \<in> set js. True} then False else enabled rn e)"
    using net.set_ends_ok [of js "\<lambda>_. Inr True" "\<lambda>_. True" name nm False rn] nm by auto
  moreover have "(\<exists>j. j \<in> set js \<and> name j = Inr e) \<longleftrightarrow> e \<in> nm ` {j \<in> set js. True}" for e using nm by auto
  ultimately show ?thesis using assms by auto
qed

lemma sk_ShutdownServer_stopped:
  assumes "sk_ShutdownServer gi i c = Inr c'"
  shows "gi < length (g_groups c) \<and> i < length (gg_servers (g_groups c ! gi)) \<and> server_stopped gi i c c'"
proof -
  let ?gg = "g_groups c ! gi"
  have gi: "gi < length (g_groups c)" using assms by (auto simp: sk_ShutdownServer_def split: if_splits)
  then have g: "slice_get (g_groups c) (int gi) = Inr ?gg" by simp
  from assms obtain rn1 mrow rn2 gg1 ps kv where
    rn1: "set_ends Enable False (\<lambda>_. Inr True) (\<lambda>j. endname_at (gg_endnames ?gg) i j) [0..<length (gg_servers ?gg)] (g_net c) = Inr rn1"
    and m: "slice_get (gg_mendnames ?gg) (int i) = Inr mrow"
    and rn2: "set_ends Enable False (\<lambda>_. Inr True) (\<lambda>j. slice_get (case mrow of None \<Rightarrow> [] | Some ms \<Rightarrow> ms) (int j))
      [0..<length (case mrow of None \<Rightarrow> [] | Some ms \<Rightarrow> ms)] rn1 = Inr rn2"
    and p: "gg_copy_persister i ?gg (gh_persisters c) = Inr (gg1, ps)"
    and kv: "slice_get (gg_servers gg1) (int i) = Inr kv"
    and c': "(case kv of
       None \<Rightarrow> Inr (c\<lparr>g_net := DeleteServer (servername (gg_gid ?gg) i) rn2, gh_persisters := ps, g_groups := (g_groups c)[gi := gg1]\<rparr>)
     | Some kv \<Rightarrow> Inr (c\<lparr>g_net := DeleteServer (servername (gg_gid ?gg) i) rn2, gh_persisters := ps, gh_rafts := skv_Kill kv (gh_rafts c),
         g_groups := (g_groups c)[gi := gg1\<lparr>gg_servers := (gg_servers gg1)[i := None]\<rparr>]\<rparr>)) = (Inr c' :: shard_config go)"
    unfolding sk_ShutdownServer_def g go_bind_Inr go_bind_eq_Inr Let_def by (auto simp: go_bind_eq_Inr simp del: slice_get_nat)
  have i: "i < length (gg_saved ?gg)" using p by (auto simp: gg_copy_persister_def split: if_splits)
  obtain sv where sv: "gg1 = ?gg\<lparr>gg_saved := sv\<rparr>" "length sv = length (gg_saved ?gg)"
    using gg_copy_persister_ok [OF i, of "gh_persisters c"] p by auto
  have srv: "i < length (gg_servers ?gg)" "kv = gg_servers ?gg ! i" using kv sv(1) by (auto split: if_splits)
  have "(\<exists>j. j \<in> set [0..<length (case mrow of None \<Rightarrow> [] | Some ms \<Rightarrow> ms)] \<and> slice_get (case mrow of None \<Rightarrow> [] | Some ms \<Rightarrow> ms) (int j) = Inr e) \<longleftrightarrow>
      (\<exists>j. endname_at (gg_mendnames ?gg) i j = Inr e)" for e
    using m by (auto simp: endname_at_Inr slice_get_Inr split: option.splits if_splits)
  then have "enabled rn2 e = (e \<notin> own_ends ?gg i \<and> enabled (g_net c) e)" for e
    using switched_off [OF rn1] switched_off [OF rn2] by (auto simp: own_ends_def)
  moreover have "net_rest rn2 = net_rest (g_net c)" using switched_off [OF rn1] switched_off [OF rn2] by simp
  moreover have "g_groups c' = (g_groups c)[gi := ?gg\<lparr>gg_servers := (gg_servers ?gg)[i := None], gg_saved := sv\<rparr>]"
  proof (cases "gg_servers ?gg ! i")
    case None
    then have "(gg_servers ?gg)[i := None] = gg_servers ?gg" using srv(1) by (metis list_update_id)
    then show ?thesis using c' srv(2) None by (auto simp: sv(1))
  next
    case (Some a)
    have "?gg\<lparr>gg_saved := sv, gg_servers := (gg_servers ?gg)[i := None]\<rparr> =
        ?gg\<lparr>gg_servers := (gg_servers ?gg)[i := None], gg_saved := sv\<rparr>" by simp
    moreover have "g_groups c' = (g_groups c)[gi := ?gg\<lparr>gg_saved := sv, gg_servers := (gg_servers ?gg)[i := None]\<rparr>]"
      using c' srv(2) Some by (auto simp: sv(1))
    ultimately show ?thesis by (simp only:)
  qed
  moreover have "g_net c' = DeleteServer (servername (gg_gid ?gg) i) rn2" "gh_rand c' = gh_rand c" "g_n c' = g_n c"
      "g_nctrlers c' = g_nctrlers c" "g_ctrlerservers c' = g_ctrlerservers c"
    using c' by (cases kv; auto)+
  ultimately show ?thesis using gi srv(1) sv(2) unfolding server_stopped_def Let_def by metis
qed

subsection \<open>Registration\<close>

lemma servername_group: "servername (100 + int g) i = servername (100 + int g') i' \<longleftrightarrow> g = g' \<and> i = i'"
  using servername_inject [of "100 + g" i "100 + g'" i'] by simp

definition group_ok :: "nat \<Rightarrow> nat \<Rightarrow> (string, string) Network \<Rightarrow> shard_group \<Rightarrow> bool" where
  "group_ok n gi rn gg \<longleftrightarrow> gg_gid gg = 100 + int gi \<and> length (gg_servers gg) = n \<and> length (gg_saved gg) = n \<and>
     length (gg_endnames gg) = n \<and> length (gg_mendnames gg) = 3 \<and>
     (\<forall>i<n. servers rn (servername (100 + int gi) i) \<noteq> None \<longleftrightarrow> gg_servers gg ! i \<noteq> None)"

definition sk_inv :: "nat \<Rightarrow> shard_config \<Rightarrow> bool" where
  "sk_inv n c \<longleftrightarrow> g_n c = n \<and> g_nctrlers c = 3 \<and> (\<forall>gi<length (g_groups c). group_ok n gi (g_net c) (g_groups c ! gi)) \<and>
     (\<forall>gi\<ge>length (g_groups c). \<forall>i. servers (g_net c) (servername (100 + int gi) i) = None) \<and>
     (\<forall>i<3. servers (g_net c) (ctrlername i) \<noteq> None)"

text \<open>An update of one server's registration, with the corresponding change in its group.\<close>

lemma sk_inv_update:
  assumes inv: "sk_inv n c" and gi: "gi < length (g_groups c)" "i < n"
    and c': "g_n c' = n" "g_nctrlers c' = 3" "g_groups c' = (g_groups c)[gi := gg']"
    and sv: "servers (g_net c') = (servers (g_net c))(servername (gg_gid (g_groups c ! gi)) i := a)"
    and gg': "gg_gid gg' = gg_gid (g_groups c ! gi)" "gg_servers gg' = (gg_servers (g_groups c ! gi))[i := kv]"
      "length (gg_saved gg') = n" "length (gg_endnames gg') = n" "length (gg_mendnames gg') = 3" "a = None \<longleftrightarrow> kv = None"
  shows "sk_inv n c'"
proof -
  have ok: "group_ok n g (g_net c) (g_groups c ! g)" if "g < length (g_groups c)" for g using inv that by (simp add: sk_inv_def)
  have gid: "gg_gid (g_groups c ! gi) = 100 + int gi" using ok [OF gi(1)] by (simp add: group_ok_def)
  have "group_ok n g (g_net c') (g_groups c' ! g)" if "g < length (g_groups c')" for g
    using ok [of g] that gi c'(3) sv gg' by (cases "g = gi") (auto simp: group_ok_def gid servername_group nth_list_update)
  moreover have "servers (g_net c') (servername (100 + int g) j) = None" if "g \<ge> length (g_groups c')" for g j
    using inv that gi c'(3) sv by (auto simp: sk_inv_def gid servername_group)
  moreover have "servers (g_net c') (ctrlername j) \<noteq> None" if "j < 3" for j
    using inv that sv by (auto simp: sk_inv_def servername_ctrlername)
  ultimately show ?thesis using c' by (simp add: sk_inv_def)
qed

lemma sk_inv_started:
  assumes "sk_inv n c" and "in_range gi i c" and "server_started rnd gi i c c'"
  shows "sk_inv n c'"
proof -
  let ?gg = "g_groups c ! gi"
  have r: "gi < length (g_groups c)" "i < n" "group_ok n gi (g_net c) ?gg" "g_nctrlers c = 3" "g_n c = n"
    using assms(1,2) by (auto simp: in_range_def sk_inv_def group_ok_def)
  from assms(3) obtain rn1 rn2 a kv sv where S:
    "ends_added (\<lambda>j. rnd (gh_rand c + j)) (servername (gg_gid ?gg)) (g_n c) (g_net c) rn1"
    "ends_added (\<lambda>j. rnd (gh_rand c + g_n c + j)) ctrlername (g_nctrlers c) rn1 rn2" "length sv = length (gg_saved ?gg)"
    "g_net c' = AddServer (servername (gg_gid ?gg) i) a rn2" "g_n c' = g_n c" "g_nctrlers c' = g_nctrlers c"
    "g_groups c' = (g_groups c)[gi := ?gg\<lparr>gg_servers := (gg_servers ?gg)[i := Some kv], gg_saved := sv,
       gg_endnames := (gg_endnames ?gg)[i := Some (map (\<lambda>j. rnd (gh_rand c + j)) [0..<g_n c])],
       gg_mendnames := (gg_mendnames ?gg)[i := Some (map (\<lambda>j. rnd (gh_rand c + g_n c + j)) [0..<g_nctrlers c])]\<rparr>]"
    unfolding server_started_def Let_def by blast
  have "servers rn2 = servers (g_net c)" using S(1,2) by (simp add: ends_added_def)
  then show ?thesis
    using r S(3-7) by (intro sk_inv_update [OF assms(1) r(1,2) _ _ S(7), of "Some a" "Some kv"]) (simp_all add: AddServer_def group_ok_def)
qed

lemma sk_inv_stopped:
  assumes "sk_inv n c" and "gi < length (g_groups c)" and "i < length (gg_servers (g_groups c ! gi))" and "server_stopped gi i c c'"
  shows "sk_inv n c'"
proof -
  let ?gg = "g_groups c ! gi"
  have r: "i < n" "group_ok n gi (g_net c) ?gg" "g_nctrlers c = 3" "g_n c = n"
    using assms(1-3) by (auto simp: sk_inv_def group_ok_def)
  from assms(4) obtain rn sv where S: "net_rest rn = net_rest (g_net c)"
    "g_net c' = DeleteServer (servername (gg_gid ?gg) i) rn" "length sv = length (gg_saved ?gg)" "g_n c' = g_n c" "g_nctrlers c' = g_nctrlers c"
    "g_groups c' = (g_groups c)[gi := ?gg\<lparr>gg_servers := (gg_servers ?gg)[i := None], gg_saved := sv\<rparr>]"
    unfolding server_stopped_def Let_def by blast
  show ?thesis
    using r S(2-6) net_rest_eq(3) [OF S(1)]
    by (intro sk_inv_update [OF assms(1,2) r(1) _ _ S(6), of None None]) (simp_all add: DeleteServer_def group_ok_def)
qed

datatype shard_op = Op_start nat nat | Op_shutdown nat nat | Op_client | Op_make_end string

fun do_shard_op ::
    "Raft list method_info list \<Rightarrow> Raft list method_info list \<Rightarrow> (nat \<Rightarrow> string) \<Rightarrow> shard_op \<Rightarrow> shard_config \<Rightarrow> shard_config go" where
  "do_shard_op kv_ms rf_ms rnd (Op_start gi i) c = sk_StartServer kv_ms rf_ms rnd gi i c"
| "do_shard_op kv_ms rf_ms rnd (Op_shutdown gi i) c = sk_ShutdownServer gi i c"
| "do_shard_op kv_ms rf_ms rnd Op_client c = go_bind (sk_makeClient rnd c) (\<lambda>(_, c'). Inr c')"
| "do_shard_op kv_ms rf_ms rnd (Op_make_end target) c = go_bind (make_end rnd target c) (\<lambda>(_, c'). Inr c')"

lemma live_end_servers: "live_end name target rn = Inr (rn', e) \<Longrightarrow> servers rn' = servers rn"
  by (auto simp: live_end_def MakeEnd_def Let_def Enable_def Connect_def split: if_splits)

lemma sk_inv_net: "sk_inv n c \<Longrightarrow> servers (g_net c') = servers (g_net c) \<Longrightarrow> g_n c' = g_n c \<Longrightarrow> g_nctrlers c' = g_nctrlers c \<Longrightarrow>
    g_groups c' = g_groups c \<Longrightarrow> sk_inv n c'"
  by (simp add: sk_inv_def group_ok_def)

lemma sk_makeClient_servers:
  assumes "sk_makeClient rnd c = Inr (ck, c')"
  shows "servers (g_net c') = servers (g_net c) \<and> g_n c' = g_n c \<and> g_nctrlers c' = g_nctrlers c \<and> g_groups c' = g_groups c"
proof -
  let ?f = "client_step (\<lambda>j. rnd (gh_rand c + j))"
  obtain rn names es where f: "go_fold ?f [0..<g_nctrlers c] (g_net c, replicate (g_n c) [], []) = Inr (rn, names, es)"
    and c': "g_net c' = rn" "g_n c' = g_n c" "g_nctrlers c' = g_nctrlers c" "g_groups c' = g_groups c"
    using assms by (auto simp: sk_makeClient_def go_bind_eq_Inr Let_def)
  have "case (rn, names, es) of (rn, _, _) \<Rightarrow> servers rn = servers (g_net c)"
    by (rule go_fold_invariant [OF f]) (auto simp: client_step_def go_bind_eq_Inr live_end_servers split: prod.splits)
  then show ?thesis using c' by simp
qed

lemma do_shard_op_inv:
  assumes "sk_inv n c" and "do_shard_op kv_ms rf_ms rnd op c = Inr c'"
  shows "sk_inv n c' \<and> length (g_groups c') = length (g_groups c)"
proof (cases op)
  case (Op_start gi i)
  then have s: "in_range gi i c" "server_started rnd gi i c c'" using sk_StartServer_started assms(2) by auto
  then show ?thesis using sk_inv_started [OF assms(1)] by (auto simp: server_started_def Let_def)
next
  case (Op_shutdown gi i)
  then have s: "gi < length (g_groups c)" "i < length (gg_servers (g_groups c ! gi))" "server_stopped gi i c c'"
    using sk_ShutdownServer_stopped assms(2) by auto
  then show ?thesis using sk_inv_stopped [OF assms(1)] by (auto simp: server_stopped_def Let_def)
next
  case Op_client
  then show ?thesis using assms sk_makeClient_servers sk_inv_net by (auto simp: go_bind_eq_Inr)
next
  case (Op_make_end target)
  then show ?thesis using assms by (auto simp: make_end_def go_bind_eq_Inr live_end_servers intro: sk_inv_net)
qed

lemma do_shard_ops_inv:
  assumes "sk_inv n c" and "go_fold (do_shard_op kv_ms rf_ms rnd) ops c = Inr c'"
  shows "sk_inv n c' \<and> length (g_groups c') = length (g_groups c)"
  using go_fold_invariant [OF assms(2), of "\<lambda>d. sk_inv n d \<and> length (g_groups d) = length (g_groups c)"] assms(1) do_shard_op_inv
  by (metis (no_types, lifting))

subsection \<open>A new configuration\<close>

lemma go_fold_upt_Suc: "go_fold f [0..<Suc k] s = Inr t \<longleftrightarrow> (\<exists>u. go_fold f [0..<k] s = Inr u \<and> f k u = Inr t)"
  by (simp add: go_bind_eq_Inr)

definition ctrler_started :: "(nat \<Rightarrow> string) \<Rightarrow> nat \<Rightarrow> shard_config \<Rightarrow> shard_config \<Rightarrow> bool" where
  "ctrler_started rnd i c c' \<longleftrightarrow>
     (\<exists>rn a sc. ends_added (\<lambda>j. rnd (gh_rand c + j)) ctrlername (g_nctrlers c) (g_net c) rn \<and>
       g_net c' = AddServer (ctrlername i) a rn \<and> gh_rand c' = gh_rand c + g_nctrlers c \<and> g_n c' = g_n c \<and>
       g_nctrlers c' = g_nctrlers c \<and> g_groups c' = g_groups c \<and> g_ctrlerservers c' = (g_ctrlerservers c)[i := Some sc])"

lemma StartCtrlerserver_run:
  assumes "live_ends (\<lambda>j. rnd (gh_rand c + j)) ctrlername (g_nctrlers c) (g_net c) = Inr (rn, es)" and "i < length (g_ctrlerservers c)"
  shows "\<exists>c'. StartCtrlerserver sc_ms rf_ms rnd i c = Inr c' \<and> ctrler_started rnd i c c'"
  using assms live_ends_added [OF assms(1)]
  by (auto simp: StartCtrlerserver_def sc_StartServer_def ctrler_started_def Let_def)

lemma StartCtrlerserver_started:
  assumes "StartCtrlerserver sc_ms rf_ms rnd i c = Inr c'"
  shows "ctrler_started rnd i c c'"
proof -
  obtain rn es where "live_ends (\<lambda>j. rnd (gh_rand c + j)) ctrlername (g_nctrlers c) (g_net c) = Inr (rn, es)"
    and "i < length (g_ctrlerservers c)"
    using assms by (auto simp: StartCtrlerserver_def sc_StartServer_def go_bind_eq_Inr Let_def split: if_splits)
  from StartCtrlerserver_run [OF this, of sc_ms rf_ms] assms show ?thesis by auto
qed

lemma shardclerk_added:
  assumes "shardclerk rnd c = Inr (mck, c')"
  shows "\<exists>rn. ends_added (\<lambda>j. rnd (gh_rand c + j)) ctrlername (g_nctrlers c) (g_net c) rn \<and>
    c' = c\<lparr>g_net := rn, gh_rand := gh_rand c + g_nctrlers c\<rparr>"
  using assms by (auto simp: shardclerk_def go_bind_eq_Inr dest: live_ends_added)

text \<open>What holds of the registrations after \<open>k\<close> controllers were started.\<close>

definition ctrlers_inv :: "nat \<Rightarrow> shard_config \<Rightarrow> bool" where
  "ctrlers_inv k c \<longleftrightarrow> g_nctrlers c = 3 \<and> g_groups c = [] \<and> length (g_ctrlerservers c) = 3 \<and>
     (\<forall>i<k. servers (g_net c) (ctrlername i) \<noteq> None) \<and> (\<forall>gid i. servers (g_net c) (servername gid i) = None)"

lemma ctrlers_inv_Suc:
  assumes "ctrlers_inv k c" and "ctrler_started rnd k c c'"
  shows "ctrlers_inv (Suc k) c'"
proof -
  obtain rn a where "servers rn = servers (g_net c)" "g_net c' = AddServer (ctrlername k) a rn" "g_nctrlers c' = g_nctrlers c"
      "g_groups c' = g_groups c" "length (g_ctrlerservers c') = length (g_ctrlerservers c)"
    using assms(2) by (auto simp: ctrler_started_def ends_added_def)
  then show ?thesis using assms(1) by (auto simp: ctrlers_inv_def AddServer_def servername_ctrlername less_Suc_eq)
qed

lemma ctrlers_started:
  assumes "go_fold (StartCtrlerserver sc_ms rf_ms rnd) [0..<k] (sk_new_config now m) = Inr c"
  shows "ctrlers_inv k c"
  using assms
proof (induction k arbitrary: c)
  case 0
  then show ?case by (auto simp: ctrlers_inv_def sk_new_config_def MakeNetwork_def)
next
  case (Suc k)
  then obtain d where "go_fold (StartCtrlerserver sc_ms rf_ms rnd) [0..<k] (sk_new_config now m) = Inr d"
    "StartCtrlerserver sc_ms rf_ms rnd k d = Inr c" unfolding go_fold_upt_Suc by blast
  then show ?case using Suc.IH ctrlers_inv_Suc StartCtrlerserver_started by blast
qed

lemma StartGroup_inv:
  assumes "sk_inv n c" and "go_fold (sk_StartServer kv_ms rf_ms rnd gi) is c = Inr c'"
  shows "sk_inv n c' \<and> length (g_groups c') = length (g_groups c)"
  using go_fold_invariant [OF assms(2), of "\<lambda>d. sk_inv n d \<and> length (g_groups d) = length (g_groups c)"] assms(1)
    do_shard_op_inv [of n _ kv_ms rf_ms rnd "Op_start gi i" for i]
  by (metis (no_types, lifting) do_shard_op.simps(1))

lemma sk_inv_new_group:
  assumes "sk_inv n c" and "length (g_groups c) = gi"
  shows "sk_inv n (c\<lparr>g_groups := g_groups c @ [new_group gi n 3]\<rparr>)"
  using assms by (auto simp: sk_inv_def group_ok_def new_group_def nth_append less_Suc_eq)

lemma groups_started:
  assumes "sk_inv n c" and "g_groups c = []" and "go_fold (add_group kv_ms rf_ms rnd) [0..<k] c = Inr c'"
  shows "sk_inv n c' \<and> length (g_groups c') = k"
  using assms(3)
proof (induction k arbitrary: c')
  case 0
  then show ?case using assms(1,2) by simp
next
  case (Suc k)
  then obtain d where d: "go_fold (add_group kv_ms rf_ms rnd) [0..<k] c = Inr d" "add_group kv_ms rf_ms rnd k d = Inr c'"
    unfolding go_fold_upt_Suc by blast
  note inv = Suc.IH [OF d(1)]
  have "g_n d = n" "g_nctrlers d = 3" using inv by (simp_all add: sk_inv_def)
  then have "go_fold (sk_StartServer kv_ms rf_ms rnd k) [0..<n] (d\<lparr>g_groups := g_groups d @ [new_group k n 3]\<rparr>) = Inr c'"
    using d(2) by (simp add: add_group_def StartGroup_def)
  from StartGroup_inv [OF _ this] sk_inv_new_group [of n d k] inv show ?case by simp
qed

lemma sk_make_config_inv:
  assumes "sk_make_config sc_ms kv_ms rf_ms rnd now n unreliable m = Inr c"
  shows "sk_inv n c \<and> length (g_groups c) = 3"
proof -
  obtain c1 mck c2 c3 where 1: "go_fold (StartCtrlerserver sc_ms rf_ms rnd) [0..<3] (sk_new_config now m) = Inr c1"
    and 2: "shardclerk rnd c1 = Inr (mck, c2)"
    and 3: "go_fold (add_group kv_ms rf_ms rnd) [0..<3] (c2\<lparr>g_mck := mck, g_ngroups := 3, g_n := n\<rparr>) = Inr c3"
    and c: "c = c3\<lparr>g_clerks := Map.empty, g_nextClientId := int n + 1000, g_net := Reliable (\<not> unreliable) (g_net c3)\<rparr>"
    using assms by (auto simp: sk_make_config_def go_bind_eq_Inr)
  have i1: "ctrlers_inv 3 c1" by (rule ctrlers_started [OF 1])
  then have "sk_inv n (c2\<lparr>g_mck := mck, g_ngroups := 3, g_n := n\<rparr>)" "g_groups (c2\<lparr>g_mck := mck, g_ngroups := 3, g_n := n\<rparr>) = []"
    using shardclerk_added [OF 2] by (auto simp: ctrlers_inv_def sk_inv_def ends_added_def)
  from groups_started [OF this 3] show ?thesis by (simp add: c sk_inv_def group_ok_def Reliable_def)
qed

subsection \<open>How many servers a group may have\<close>

text \<open>All ends that exist have names that were drawn, and all ends in the tables are live.\<close>

definition group_live :: "(string, string) Network \<Rightarrow> int \<Rightarrow> shard_group \<Rightarrow> bool" where
  "group_live rn gid gg \<longleftrightarrow>
     (\<forall>i j e. endname_at (gg_endnames gg) i j = Inr e \<longrightarrow> ends rn e \<noteq> None \<and> enabled rn e \<and> connections rn e = Some (servername gid j)) \<and>
     (\<forall>i j e. endname_at (gg_mendnames gg) i j = Inr e \<longrightarrow> ends rn e \<noteq> None \<and> enabled rn e \<and> connections rn e = Some (ctrlername j))"

definition full_inv :: "(nat \<Rightarrow> string) \<Rightarrow> nat \<Rightarrow> shard_config \<Rightarrow> bool" where
  "full_inv rnd n c \<longleftrightarrow> sk_inv n c \<and> dom (ends (g_net c)) \<subseteq> rnd ` {..<gh_rand c} \<and>
     (\<forall>gi<length (g_groups c). group_live (g_net c) (100 + int gi) (g_groups c ! gi))"

lemma group_live_added:
  assumes "ends_added names target n rn rn'" and "group_live rn gid gg"
  shows "group_live rn' gid gg"
  using assms(2) ends_added_keeps [OF assms(1)] unfolding group_live_def by metis

lemma group_live_AddServer [simp]: "group_live (AddServer s a rn) gid gg = group_live rn gid gg"
  by (simp add: group_live_def AddServer_def)

lemma full_inv_started:
  assumes inv: "full_inv rnd n c" and r: "in_range gi i c" and st: "server_started rnd gi i c c'"
  shows "full_inv rnd n c'"
proof -
  let ?gg = "g_groups c ! gi" and ?k = "gh_rand c"
  have b: "g_n c = n" "g_nctrlers c = 3" "sk_inv n c" "gi < length (g_groups c)" "gg_gid ?gg = 100 + int gi"
      "i < length (gg_endnames ?gg)" "i < length (gg_mendnames ?gg)"
    using inv r by (auto simp: full_inv_def sk_inv_def in_range_def group_ok_def)
  from st obtain rn1 rn2 a kv sv where S:
    "ends_added (\<lambda>j. rnd (?k + j)) (servername (100 + int gi)) n (g_net c) rn1"
    "ends_added (\<lambda>j. rnd (?k + n + j)) ctrlername 3 rn1 rn2"
    "g_net c' = AddServer (servername (100 + int gi) i) a rn2" "gh_rand c' = ?k + n + 3"
    "g_groups c' = (g_groups c)[gi := ?gg\<lparr>gg_servers := (gg_servers ?gg)[i := Some kv], gg_saved := sv,
       gg_endnames := (gg_endnames ?gg)[i := Some (map (\<lambda>j. rnd (?k + j)) [0..<n])],
       gg_mendnames := (gg_mendnames ?gg)[i := Some (map (\<lambda>j. rnd (?k + n + j)) [0..<3])]\<rparr>]"
    unfolding server_started_def Let_def b by blast
  have keep: "group_live rn2 gid gg" if "group_live (g_net c) gid gg" for gid gg
    using group_live_added [OF S(2) group_live_added [OF S(1) that]] .
  have new1: "ends rn2 (rnd (?k + j)) \<noteq> None \<and> enabled rn2 (rnd (?k + j)) \<and> connections rn2 (rnd (?k + j)) = Some (servername (100 + int gi) j)"
    if "j < n" for j
  proof -
    have "ends rn1 (rnd (?k + j)) \<noteq> None" "enabled rn1 (rnd (?k + j))" "connections rn1 (rnd (?k + j)) = Some (servername (100 + int gi) j)"
      using S(1) that unfolding ends_added_def by blast+
    then show ?thesis using ends_added_keeps [OF S(2)] by metis
  qed
  have new2: "ends rn2 (rnd (?k + n + j)) \<noteq> None \<and> enabled rn2 (rnd (?k + n + j)) \<and> connections rn2 (rnd (?k + n + j)) = Some (ctrlername j)"
    if "j < 3" for j using S(2) that unfolding ends_added_def by blast
  have "group_live rn2 (100 + int g) (g_groups c' ! g)" if "g < length (g_groups c)" for g
  proof (cases "g = gi")
    case True
    have "group_live rn2 (100 + int gi) ?gg" using keep inv b(4) by (simp add: full_inv_def)
    then show ?thesis using True b(4,6,7) new1 new2 by (auto simp: S(5) group_live_def endname_at_update)
  next
    case False
    then show ?thesis using keep inv that by (simp add: full_inv_def S(5))
  qed
  moreover have "dom (ends rn2) \<subseteq> rnd ` {..<?k + n + 3}"
    using drawn_dom [OF drawn_dom [OF _ S(1)] S(2)] inv by (simp add: full_inv_def)
  ultimately show ?thesis using sk_inv_started [OF b(3) r st] by (simp add: full_inv_def S(3,4,5) AddServer_def group_live_def)
qed

lemma start_succeeds:
  assumes "inj rnd" and inv: "full_inv rnd n c" and "gi < length (g_groups c)" and "i < n" and "i < 3"
  shows "\<exists>c'. sk_StartServer kv_ms rf_ms rnd gi i c = Inr c' \<and> server_started rnd gi i c c' \<and> full_inv rnd n c'"
proof -
  have d: "dom (ends (g_net c)) \<subseteq> rnd ` {..<gh_rand c}" and r: "in_range gi i c" and b: "g_n c = n" "g_nctrlers c = 3"
    using inv assms(3-5) by (auto simp: full_inv_def sk_inv_def group_ok_def in_range_def)
  obtain rn1 es where l1: "live_ends (\<lambda>j. rnd (gh_rand c + j)) (servername (gg_gid (g_groups c ! gi))) (g_n c) (g_net c) = Inr (rn1, es)"
    using live_ends_succeed drawn_fresh [OF assms(1) d] by blast
  have d1: "dom (ends rn1) \<subseteq> rnd ` {..<gh_rand c + g_n c}" by (rule drawn_dom [OF d live_ends_added [OF l1]])
  obtain rn2 mes where l2: "live_ends (\<lambda>j. rnd (gh_rand c + g_n c + j)) ctrlername (g_nctrlers c) rn1 = Inr (rn2, mes)"
    using live_ends_succeed drawn_fresh [OF assms(1) d1] by blast
  from sk_StartServer_run [OF r l1 l2] show ?thesis using full_inv_started [OF inv r] by blast
qed

lemma start_panics:
  assumes "inj rnd" and inv: "full_inv rnd n c" and "gi < length (g_groups c)" and "i < n" and "3 \<le> i"
  shows "sk_StartServer kv_ms rf_ms rnd gi i c = Inl IndexOutOfRange"
proof -
  have d: "dom (ends (g_net c)) \<subseteq> rnd ` {..<gh_rand c}"
    and r: "i < length (gg_endnames (g_groups c ! gi))" "\<not> i < length (gg_mendnames (g_groups c ! gi))"
    using inv assms(3-5) by (auto simp: full_inv_def sk_inv_def group_ok_def)
  obtain rn1 es where "live_ends (\<lambda>j. rnd (gh_rand c + j)) (servername (gg_gid (g_groups c ! gi))) (g_n c) (g_net c) = Inr (rn1, es)"
    using live_ends_succeed drawn_fresh [OF assms(1) d] by blast
  then show ?thesis using r assms(3) by (simp add: sk_StartServer_def Let_def)
qed

end
