(* ===== verification/Shard_Harness.thy ===== *)
theory Shard_Harness
  imports Shard_Config
begin

text \<open>
  What the test harness of \<open>shardkv\<close> promises to the tests: for which group sizes it works at all, under
  which names the servers of the groups are registered and announced to the controllers, and what
  shutting a server down cuts off.
\<close>

subsection \<open>Starting all servers\<close>

text \<open>Server \<open>i\<close> of a group runs and has its full rows of ends.\<close>

definition member_up :: "nat \<Rightarrow> shard_config \<Rightarrow> nat \<Rightarrow> nat \<Rightarrow> bool" where
  "member_up n c gi i \<longleftrightarrow> gi < length (g_groups c) \<and> gg_servers (g_groups c ! gi) ! i \<noteq> None \<and>
     (\<exists>es. gg_endnames (g_groups c ! gi) ! i = Some es \<and> length es = n) \<and> (\<exists>ms. gg_mendnames (g_groups c ! gi) ! i = Some ms \<and> length ms = 3)"

lemma started_up:
  assumes inv: "full_inv rnd n c" and r: "in_range gi i c" and st: "server_started rnd gi i c c'"
  shows "member_up n c' gi i \<and> (\<forall>g j. member_up n c g j \<longrightarrow> member_up n c' g j) \<and> length (g_groups c') = length (g_groups c)"
proof -
  have b: "g_n c = n" "g_nctrlers c = 3" using inv by (auto simp: full_inv_def sk_inv_def)
  from st obtain kv sv where g: "g_groups c' = (g_groups c)[gi := (g_groups c ! gi)\<lparr>gg_servers := (gg_servers (g_groups c ! gi))[i := Some kv],
       gg_saved := sv, gg_endnames := (gg_endnames (g_groups c ! gi))[i := Some (map (\<lambda>j. rnd (gh_rand c + j)) [0..<n])],
       gg_mendnames := (gg_mendnames (g_groups c ! gi))[i := Some (map (\<lambda>j. rnd (gh_rand c + n + j)) [0..<3])]\<rparr>]"
    unfolding server_started_def Let_def b by blast
  have "member_up n c' gi i" using r by (simp add: member_up_def g in_range_def)
  moreover have "member_up n c' p j" if "member_up n c p j" for p j
  proof (cases "p = gi")
    case True
    show ?thesis
    proof (cases "j = i")
      case True
      then show ?thesis using \<open>member_up n c' gi i\<close> \<open>p = gi\<close> by simp
    next
      case False
      then show ?thesis using that True by (simp add: member_up_def g)
    qed
  next
    case False
    then show ?thesis using that by (simp add: member_up_def g)
  qed
  ultimately show ?thesis by (simp add: g)
qed

lemma group_starts:
  assumes "inj rnd" and "full_inv rnd n c" and "gi < length (g_groups c)" and "k \<le> n" and "k \<le> 3"
  shows "\<exists>c'. go_fold (sk_StartServer kv_ms rf_ms rnd gi) [0..<k] c = Inr c' \<and> full_inv rnd n c' \<and> length (g_groups c') = length (g_groups c) \<and>
    (\<forall>i<k. member_up n c' gi i) \<and> (\<forall>g j. member_up n c g j \<longrightarrow> member_up n c' g j)"
  using assms(4,5)
proof (induction k)
  case 0
  then show ?case using assms(2) by simp
next
  case (Suc k)
  then obtain d where d: "go_fold (sk_StartServer kv_ms rf_ms rnd gi) [0..<k] c = Inr d" "full_inv rnd n d"
      "length (g_groups d) = length (g_groups c)" "\<forall>i<k. member_up n d gi i" "\<forall>g j. member_up n c g j \<longrightarrow> member_up n d g j" by auto
  have l: "gi < length (g_groups d)" "k < n" "k < 3" using d(3) assms(3) Suc.prems by auto
  obtain c' where c': "sk_StartServer kv_ms rf_ms rnd gi k d = Inr c'" "server_started rnd gi k d c'" "full_inv rnd n c'"
    using start_succeeds [OF assms(1) d(2) l] by blast
  note up = started_up [OF d(2) conjunct1 [OF sk_StartServer_started [OF c'(1)]] c'(2)]
  have "go_fold (sk_StartServer kv_ms rf_ms rnd gi) [0..<Suc k] c = Inr c'" using d(1) c'(1) by simp
  then show ?case using c'(3) up d(3-5) by (metis less_Suc_eq)
qed

lemma upt_split_at: "k < n \<Longrightarrow> [0..<n] = [0..<k] @ k # [Suc k..<n]"
  using upt_add_eq_append [of 0 k "n - k"] by (simp add: upt_conv_Cons)

lemma group_panics:
  assumes "inj rnd" and "full_inv rnd n c" and "gi < length (g_groups c)" and "3 < n"
  shows "go_fold (sk_StartServer kv_ms rf_ms rnd gi) [0..<n] c = Inl IndexOutOfRange"
proof -
  obtain d where "go_fold (sk_StartServer kv_ms rf_ms rnd gi) [0..<3] c = Inr d" "full_inv rnd n d" "length (g_groups d) = length (g_groups c)"
    using group_starts [OF assms(1-3), of 3 kv_ms rf_ms] assms(4) by auto
  then show ?thesis using start_panics [OF assms(1), of n d gi 3] assms(3,4) by (simp add: upt_split_at [OF assms(4)])
qed

lemma full_inv_new_group:
  assumes "full_inv rnd n c"
  shows "full_inv rnd n (c\<lparr>g_groups := g_groups c @ [new_group (length (g_groups c)) n 3]\<rparr>)"
proof -
  have "group_live rn gid (new_group g n 3)" for rn gid g by (auto simp: group_live_def new_group_def endname_at_Inr)
  then show ?thesis using assms sk_inv_new_group [of n c] by (auto simp: full_inv_def nth_append less_Suc_eq)
qed

lemma add_group_fold:
  "full_inv rnd n c \<Longrightarrow> gi = length (g_groups c) \<Longrightarrow> add_group kv_ms rf_ms rnd gi c =
    go_fold (sk_StartServer kv_ms rf_ms rnd gi) [0..<n] (c\<lparr>g_groups := g_groups c @ [new_group (length (g_groups c)) n 3]\<rparr>)"
  by (simp add: add_group_def StartGroup_def full_inv_def sk_inv_def)

lemma groups_start:
  assumes "inj rnd" and "full_inv rnd n c" and "g_groups c = []" and "n \<le> 3"
  shows "\<exists>c'. go_fold (add_group kv_ms rf_ms rnd) [0..<k] c = Inr c' \<and> full_inv rnd n c' \<and> length (g_groups c') = k \<and>
    (\<forall>gi<k. \<forall>i<n. member_up n c' gi i)"
proof (induction k)
  case 0
  then show ?case using assms(2,3) by simp
next
  case (Suc k)
  then obtain d where d: "go_fold (add_group kv_ms rf_ms rnd) [0..<k] c = Inr d" "full_inv rnd n d" "length (g_groups d) = k"
      "\<forall>gi<k. \<forall>i<n. member_up n d gi i" by blast
  let ?d = "d\<lparr>g_groups := g_groups d @ [new_group (length (g_groups d)) n 3]\<rparr>"
  have up: "member_up n ?d gi i" if "gi < k" "i < n" for gi i using d(3,4) that by (simp add: member_up_def nth_append)
  obtain c' where c': "go_fold (sk_StartServer kv_ms rf_ms rnd k) [0..<n] ?d = Inr c'" "full_inv rnd n c'" "length (g_groups c') = Suc k"
      "\<forall>i<n. member_up n c' k i" "\<forall>g j. member_up n ?d g j \<longrightarrow> member_up n c' g j"
    using group_starts [OF assms(1) full_inv_new_group [OF d(2)], of k n kv_ms rf_ms] d(3) assms(4) by auto
  have "go_fold (add_group kv_ms rf_ms rnd) [0..<Suc k] c = Inr c'" using d(1,3) c'(1) add_group_fold [OF d(2)] by simp
  then show ?case using c'(2-5) up by (metis less_Suc_eq)
qed

lemma groups_panic:
  assumes "inj rnd" and "full_inv rnd n c" and "g_groups c = []" and "3 < n"
  shows "go_fold (add_group kv_ms rf_ms rnd) [0..<3] c = Inl IndexOutOfRange"
  using add_group_fold [OF assms(2), of 0 kv_ms rf_ms] group_panics [OF assms(1) full_inv_new_group [OF assms(2)], of 0] assms(3,4)
  by (simp add: upt_rec)

lemma ctrlers_start:
  assumes "inj rnd" and "k \<le> 3"
  shows "\<exists>c. go_fold (StartCtrlerserver sc_ms rf_ms rnd) [0..<k] (sk_new_config now m) = Inr c \<and> dom (ends (g_net c)) \<subseteq> rnd ` {..<gh_rand c}"
  using assms(2)
proof (induction k)
  case 0
  then show ?case by (simp add: sk_new_config_def MakeNetwork_def)
next
  case (Suc k)
  then obtain d where d: "go_fold (StartCtrlerserver sc_ms rf_ms rnd) [0..<k] (sk_new_config now m) = Inr d"
    "dom (ends (g_net d)) \<subseteq> rnd ` {..<gh_rand d}" by auto
  have i: "ctrlers_inv k d" by (rule ctrlers_started [OF d(1)])
  obtain rn es where l: "live_ends (\<lambda>j. rnd (gh_rand d + j)) ctrlername (g_nctrlers d) (g_net d) = Inr (rn, es)"
    using live_ends_succeed drawn_fresh [OF assms(1) d(2)] by blast
  obtain c where c: "StartCtrlerserver sc_ms rf_ms rnd k d = Inr c" "ctrler_started rnd k d c"
    using StartCtrlerserver_run [OF l, of k sc_ms rf_ms] i Suc.prems by (auto simp: ctrlers_inv_def)
  then have "dom (ends (g_net c)) \<subseteq> rnd ` {..<gh_rand c}" using drawn_dom [OF d(2)] unfolding ctrler_started_def AddServer_def by fastforce
  then show ?case using d(1) c(1) by auto
qed

text \<open>The part of \<open>make_config\<close> before the groups succeeds.\<close>

lemma sk_make_config_groups:
  assumes "inj rnd"
  shows "\<exists>c. full_inv rnd n c \<and> g_groups c = [] \<and> sk_make_config sc_ms kv_ms rf_ms rnd now n unreliable m =
    go_bind (go_fold (add_group kv_ms rf_ms rnd) [0..<3] c) (\<lambda>c3.
      Inr (c3\<lparr>g_clerks := Map.empty, g_nextClientId := int n + 1000, g_net := Reliable (\<not> unreliable) (g_net c3)\<rparr>))"
proof -
  obtain c1 where c1: "go_fold (StartCtrlerserver sc_ms rf_ms rnd) [0..<3] (sk_new_config now m) = Inr c1" "dom (ends (g_net c1)) \<subseteq> rnd ` {..<gh_rand c1}"
    using ctrlers_start [OF assms, of 3 sc_ms rf_ms now m] by auto
  have i: "ctrlers_inv 3 c1" by (rule ctrlers_started [OF c1(1)])
  obtain rn es where l: "live_ends (\<lambda>j. rnd (gh_rand c1 + j)) ctrlername (g_nctrlers c1) (g_net c1) = Inr (rn, es)"
    using live_ends_succeed drawn_fresh [OF assms c1(2)] by blast
  note A = live_ends_added [OF l]
  let ?c = "c1\<lparr>g_net := rn, gh_rand := gh_rand c1 + g_nctrlers c1, g_mck := ctrler_MakeClerk es, g_ngroups := 3, g_n := n\<rparr>"
  have "full_inv rnd n ?c" using i A drawn_dom [OF c1(2) A] by (simp add: full_inv_def sk_inv_def ctrlers_inv_def ends_added_def)
  moreover have "g_groups ?c = []" using i by (simp add: ctrlers_inv_def)
  ultimately show ?thesis using c1(1) l by (intro exI [of _ ?c] conjI) (simp_all add: sk_make_config_def shardclerk_def)
qed

lemma sk_make_config_panics:
  assumes "inj rnd" and "3 < n"
  shows "sk_make_config sc_ms kv_ms rf_ms rnd now n unreliable m = Inl IndexOutOfRange"
proof -
  obtain c where "full_inv rnd n c" "g_groups c = []" "sk_make_config sc_ms kv_ms rf_ms rnd now n unreliable m =
    go_bind (go_fold (add_group kv_ms rf_ms rnd) [0..<3] c) (\<lambda>c3.
      Inr (c3\<lparr>g_clerks := Map.empty, g_nextClientId := int n + 1000, g_net := Reliable (\<not> unreliable) (g_net c3)\<rparr>))"
    using sk_make_config_groups [OF assms(1)] by blast
  then show ?thesis using groups_panic [OF assms(1) _ _ assms(2)] by simp
qed

lemma sk_make_config_starts:
  assumes "inj rnd" and "n \<le> 3"
  shows "\<exists>c. sk_make_config sc_ms kv_ms rf_ms rnd now n unreliable m = Inr c \<and> full_inv rnd n c \<and> (\<forall>gi<3. \<forall>i<n. member_up n c gi i)"
proof -
  obtain c where c: "full_inv rnd n c" "g_groups c = []" "sk_make_config sc_ms kv_ms rf_ms rnd now n unreliable m =
    go_bind (go_fold (add_group kv_ms rf_ms rnd) [0..<3] c) (\<lambda>c3.
      Inr (c3\<lparr>g_clerks := Map.empty, g_nextClientId := int n + 1000, g_net := Reliable (\<not> unreliable) (g_net c3)\<rparr>))"
    using sk_make_config_groups [OF assms(1)] by blast
  obtain c3 where c3: "go_fold (add_group kv_ms rf_ms rnd) [0..<3] c = Inr c3" "full_inv rnd n c3" "\<forall>gi<3. \<forall>i<n. member_up n c3 gi i"
    using groups_start [OF assms(1) c(1,2) assms(2), of kv_ms rf_ms 3] by blast
  let ?c = "c3\<lparr>g_clerks := Map.empty, g_nextClientId := int n + 1000, g_net := Reliable (\<not> unreliable) (g_net c3)\<rparr>"
  have "full_inv rnd n ?c" "\<forall>gi<3. \<forall>i<n. member_up n ?c gi i"
    using c3(2,3) by (simp_all add: full_inv_def sk_inv_def group_ok_def group_live_def member_up_def Reliable_def)
  then show ?thesis using c(3) c3(1) by simp
qed

lemma member_reaches:
  assumes "full_inv rnd n c" and "member_up n c gi i" and "i < n" and "n \<le> 3"
  shows "j < n \<Longrightarrow> member_up n c gi j \<Longrightarrow> \<exists>e a. endname_at (gg_endnames (g_groups c ! gi)) i j = Inr e \<and>
      reachable_server (g_net c) e (servername (100 + int gi) j) a"
    and "j < 3 \<Longrightarrow> \<exists>e a. endname_at (gg_mendnames (g_groups c ! gi)) i j = Inr e \<and> reachable_server (g_net c) e (ctrlername j) a"
proof -
  let ?gg = "g_groups c ! gi"
  have ok: "group_ok n gi (g_net c) ?gg" "group_live (g_net c) (100 + int gi) ?gg" "\<forall>j<3. servers (g_net c) (ctrlername j) \<noteq> None"
    using assms(1,2) by (auto simp: full_inv_def sk_inv_def member_up_def)
  show "\<exists>e a. endname_at (gg_endnames ?gg) i j = Inr e \<and> reachable_server (g_net c) e (servername (100 + int gi) j) a"
    if j: "j < n" "member_up n c gi j"
  proof -
    obtain e where e: "endname_at (gg_endnames ?gg) i j = Inr e" using assms(2,3) ok(1) j(1) by (auto simp: member_up_def endname_at_Inr group_ok_def)
    moreover have "servers (g_net c) (servername (100 + int gi) j) \<noteq> None" using ok(1) j by (simp add: group_ok_def member_up_def)
    ultimately show ?thesis using ok(2) unfolding group_live_def reachable_server_def by blast
  qed
  show "\<exists>e a. endname_at (gg_mendnames ?gg) i j = Inr e \<and> reachable_server (g_net c) e (ctrlername j) a" if j: "j < 3"
  proof -
    obtain e where e: "endname_at (gg_mendnames ?gg) i j = Inr e" using assms(2-4) ok(1) j by (auto simp: member_up_def endname_at_Inr group_ok_def)
    then show ?thesis using ok(2,3) j unfolding group_live_def reachable_server_def by blast
  qed
qed

lemma client_fold:
  assumes "k \<le> n" and "live_ends names ctrlername k rn = Inr (rn', es)"
  shows "go_fold (client_step names) [0..<k] (rn, replicate n [], []) = Inr (rn', map names [0..<k] @ replicate (n - k) [], es)"
  using assms
proof (induction k arbitrary: rn' es)
  case 0
  then show ?case by (simp add: live_ends_def)
next
  case (Suc k)
  then obtain rn1 es1 e where 1: "live_ends names ctrlername k rn = Inr (rn1, es1)" "live_end (names k) (ctrlername k) rn1 = Inr (rn', e)" "es = es1 @ [e]"
    by (auto simp: live_ends_Suc go_bind_eq_Inr)
  have "n - k = Suc (n - Suc k)" using Suc.prems(1) by simp
  then show ?case using Suc.IH [OF _ 1(1)] Suc.prems(1) 1(2,3) by (simp add: client_step_def list_update_append)
qed

lemma sk_makeClient_sizes:
  assumes "inj rnd" and "full_inv rnd n c"
  shows "if n < 3 then sk_makeClient rnd c = Inl IndexOutOfRange else (\<exists>ck c'. sk_makeClient rnd c = Inr (ck, c'))"
proof -
  let ?names = "\<lambda>j. rnd (gh_rand c + j)"
  have b: "g_n c = n" "g_nctrlers c = 3" "dom (ends (g_net c)) \<subseteq> rnd ` {..<gh_rand c}" using assms(2) by (auto simp: full_inv_def sk_inv_def)
  have ex: "\<exists>rn es. live_ends ?names ctrlername k (g_net c) = Inr (rn, es)" for k
    using live_ends_succeed drawn_fresh [OF assms(1) b(3)] by blast
  have mk: "sk_makeClient rnd c = go_bind (go_fold (client_step ?names) [0..<3] (g_net c, replicate n [], [])) (\<lambda>(rn, names, es).
     let ck = length (gh_clerks c) in
     Inr (ck, c\<lparr>g_net := rn, gh_rand := gh_rand c + 3, gh_clerks := gh_clerks c @ [shardkv_MakeClerk es],
                  g_clerks := (g_clerks c)(ck \<mapsto> names), g_nextClientId := g_nextClientId c + 1\<rparr>))"
    by (simp add: sk_makeClient_def b)
  show ?thesis
  proof (cases "n < 3")
    case True
    obtain rn es where "live_ends ?names ctrlername n (g_net c) = Inr (rn, es)" using ex by blast
    from client_fold [OF order_refl this] have "go_fold (client_step ?names) [0..<3] (g_net c, replicate n [], []) = Inl IndexOutOfRange"
      by (simp add: upt_split_at [OF True]) (simp add: client_step_def)
    then show ?thesis using True by (simp add: mk)
  next
    case False
    obtain rn es where "live_ends ?names ctrlername 3 (g_net c) = Inr (rn, es)" using ex by blast
    from client_fold [OF _ this, of n] False show ?thesis by (simp add: mk Let_def)
  qed
qed


lemma join_map_groups:
  assumes "sk_inv n c" and "set gis \<subseteq> {..<length (g_groups c)}"
  shows "\<exists>groups. join_map gis c = Inr groups \<and>
    (\<forall>gid srvs. groups gid = Some srvs \<longleftrightarrow> (\<exists>gi\<in>set gis. gid = 100 + int gi \<and> srvs = map (servername gid) [0..<n]))"
  using assms(2)
proof (induction gis rule: rev_induct)
  case Nil
  then show ?case by (simp add: join_map_def)
next
  case (snoc g gis)
  then obtain ms where ms: "join_map gis c = Inr ms"
      "\<And>gid srvs. ms gid = Some srvs \<longleftrightarrow> (\<exists>gi\<in>set gis. gid = 100 + int gi \<and> srvs = map (servername gid) [0..<n])" by auto
  have "g < length (g_groups c)" "gg_gid (g_groups c ! g) = 100 + int g" "g_n c = n"
    using assms(1) snoc.prems by (auto simp: sk_inv_def group_ok_def)
  then have "join_map (gis @ [g]) c = Inr (ms(100 + int g \<mapsto> map (servername (100 + int g)) [0..<n]))"
    using ms(1) by (simp add: join_map_def)
  then show ?case using ms(2) by auto
qed

subsection \<open>Stopping any server\<close>

text \<open>Every server has its rows of names in the tables, and the ends so named exist.\<close>

definition group_rows :: "nat \<Rightarrow> (string, string) Network \<Rightarrow> shard_group \<Rightarrow> bool" where
  "group_rows n rn gg \<longleftrightarrow>
     (\<forall>i<n. (\<exists>es. gg_endnames gg ! i = Some es \<and> length es = n) \<and> gg_mendnames gg ! i \<noteq> None) \<and>
     (\<forall>i j e. endname_at (gg_endnames gg) i j = Inr e \<or> endname_at (gg_mendnames gg) i j = Inr e \<longrightarrow> ends rn e \<noteq> None)"

definition rows_inv :: "nat \<Rightarrow> shard_config \<Rightarrow> bool" where
  "rows_inv n c \<longleftrightarrow> n \<le> 3 \<and> sk_inv n c \<and> (\<forall>gi<length (g_groups c). group_rows n (g_net c) (g_groups c ! gi))"

lemma group_rows_mono: "group_rows n rn gg \<Longrightarrow> dom (ends rn) \<subseteq> dom (ends rn') \<Longrightarrow> group_rows n rn' gg"
  unfolding group_rows_def by blast

lemma full_inv_rows:
  assumes "full_inv rnd n c" and "n \<le> 3" and "\<forall>gi<length (g_groups c). \<forall>i<n. member_up n c gi i"
  shows "rows_inv n c"
proof -
  have "group_rows n (g_net c) (g_groups c ! gi)" if "gi < length (g_groups c)" for gi
  proof -
    have "group_live (g_net c) (100 + int gi) (g_groups c ! gi)" "\<forall>i<n. member_up n c gi i" using assms that by (simp_all add: full_inv_def)
    then show ?thesis by (fastforce simp: group_rows_def group_live_def member_up_def)
  qed
  then show ?thesis using assms(1,2) by (simp add: rows_inv_def full_inv_def)
qed

lemma rows_inv_started:
  assumes inv: "rows_inv n c" and r: "in_range gi i c" and st: "server_started rnd gi i c c'"
  shows "rows_inv n c'"
proof -
  let ?gg = "g_groups c ! gi" and ?k = "gh_rand c"
  have b: "g_n c = n" "g_nctrlers c = 3" "sk_inv n c" "gi < length (g_groups c)" "i < length (gg_endnames ?gg)" "i < length (gg_mendnames ?gg)"
    using inv r by (auto simp: rows_inv_def sk_inv_def in_range_def)
  from st obtain rn1 rn2 a kv sv where S:
    "ends_added (\<lambda>j. rnd (?k + j)) (servername (gg_gid ?gg)) n (g_net c) rn1" "ends_added (\<lambda>j. rnd (?k + n + j)) ctrlername 3 rn1 rn2"
    "g_net c' = AddServer (servername (gg_gid ?gg) i) a rn2"
    "g_groups c' = (g_groups c)[gi := ?gg\<lparr>gg_servers := (gg_servers ?gg)[i := Some kv], gg_saved := sv,
       gg_endnames := (gg_endnames ?gg)[i := Some (map (\<lambda>j. rnd (?k + j)) [0..<n])],
       gg_mendnames := (gg_mendnames ?gg)[i := Some (map (\<lambda>j. rnd (?k + n + j)) [0..<3])]\<rparr>]"
    unfolding server_started_def Let_def b by blast
  have d: "dom (ends (g_net c')) = dom (ends (g_net c)) \<union> (\<lambda>j. rnd (?k + j)) ` {..<n} \<union> (\<lambda>j. rnd (?k + n + j)) ` {..<3}"
    using S(1-3) by (simp add: ends_added_def AddServer_def)
  have new: "ends (g_net c') (rnd (?k + j)) \<noteq> None" if "j < n" for j using d that by blast
  have mnew: "ends (g_net c') (rnd (?k + n + j)) \<noteq> None" if "j < 3" for j using d that by blast
  have keep: "group_rows n (g_net c') (g_groups c ! g)" if "g < length (g_groups c)" for g
  proof (rule group_rows_mono)
    show "group_rows n (g_net c) (g_groups c ! g)" using inv that by (simp add: rows_inv_def)
    show "dom (ends (g_net c)) \<subseteq> dom (ends (g_net c'))" unfolding d by blast
  qed
  have "group_rows n (g_net c') (g_groups c' ! g)" if "g < length (g_groups c)" for g
  proof (cases "g = gi")
    case True
    then show ?thesis using keep [OF that] b(4-6) new mnew by (auto simp: S(4) group_rows_def endname_at_update nth_list_update)
  next
    case False
    then show ?thesis using keep [OF that] by (simp add: S(4))
  qed
  then show ?thesis using inv sk_inv_started [OF b(3) r st] by (simp add: rows_inv_def S(4))
qed

lemma rows_inv_stopped:
  assumes "rows_inv n c" and "gi < length (g_groups c)" and "i < length (gg_servers (g_groups c ! gi))" and "server_stopped gi i c c'"
  shows "rows_inv n c'"
proof -
  let ?gg = "g_groups c ! gi"
  from assms(4) obtain rn sv where S: "net_rest rn = net_rest (g_net c)" "g_net c' = DeleteServer (servername (gg_gid ?gg) i) rn"
    "g_groups c' = (g_groups c)[gi := ?gg\<lparr>gg_servers := (gg_servers ?gg)[i := None], gg_saved := sv\<rparr>]"
    unfolding server_stopped_def Let_def by blast
  have "ends (g_net c') = ends (g_net c)" using net_rest_eq(1) [OF S(1)] by (simp add: S(2) DeleteServer_def)
  then have "group_rows n (g_net c') (g_groups c' ! g)" if "g < length (g_groups c)" for g
    using assms(1,2) that by (cases "g = gi") (auto simp: rows_inv_def group_rows_def S(3))
  then show ?thesis using assms(1) sk_inv_stopped [OF _ assms(2-4)] by (simp add: rows_inv_def S(3))
qed

lemma live_end_ends: "live_end name target rn = Inr (rn', e) \<Longrightarrow> dom (ends rn') = insert name (dom (ends rn))"
  by (auto simp: live_end_def MakeEnd_def Let_def Enable_def Connect_def split: if_splits)

lemma sk_makeClient_ends:
  assumes "sk_makeClient rnd c = Inr (ck, c')"
  shows "dom (ends (g_net c)) \<subseteq> dom (ends (g_net c'))"
proof -
  obtain rn names es where f: "go_fold (client_step (\<lambda>j. rnd (gh_rand c + j))) [0..<g_nctrlers c] (g_net c, replicate (g_n c) [], []) = Inr (rn, names, es)"
    and c': "g_net c' = rn" using assms by (auto simp: sk_makeClient_def go_bind_eq_Inr Let_def)
  have "case (rn, names, es) of (rn, _, _) \<Rightarrow> dom (ends (g_net c)) \<subseteq> dom (ends rn)"
    by (rule go_fold_invariant [OF f]) (auto simp: client_step_def go_bind_eq_Inr dest!: live_end_ends split: prod.splits)
  then show ?thesis using c' by simp
qed

lemma rows_inv_op:
  assumes "rows_inv n c" and "do_shard_op kv_ms rf_ms rnd op c = Inr c'"
  shows "rows_inv n c'"
proof -
  have grown: ?thesis if "g_groups c' = g_groups c" "dom (ends (g_net c)) \<subseteq> dom (ends (g_net c'))"
    using assms do_shard_op_inv [OF _ assms(2)] group_rows_mono that by (auto simp: rows_inv_def)
  show ?thesis
  proof (cases op)
    case (Op_start gi i)
    then show ?thesis using assms sk_StartServer_started rows_inv_started by (metis do_shard_op.simps(1))
  next
    case (Op_shutdown gi i)
    then show ?thesis using assms sk_ShutdownServer_stopped rows_inv_stopped by (metis do_shard_op.simps(2))
  next
    case Op_client
    then show ?thesis using assms(2) by (intro grown) (auto simp: go_bind_eq_Inr sk_makeClient_servers dest: sk_makeClient_ends [THEN subsetD])
  next
    case (Op_make_end target)
    then obtain rn e where "live_end (rnd (gh_rand c)) target (g_net c) = Inr (rn, e)" "g_net c' = rn" "g_groups c' = g_groups c"
      using assms(2) by (auto simp: make_end_def go_bind_eq_Inr)
    then show ?thesis using live_end_ends by (intro grown) blast+
  qed
qed

lemma rows_inv_reached:
  assumes "inj rnd" and "sk_make_config sc_ms kv_ms rf_ms rnd now n unreliable m = Inr c0"
    and "go_fold (do_shard_op kv_ms rf_ms rnd) ops c0 = Inr c"
  shows "rows_inv n c \<and> length (g_groups c) = 3"
proof -
  have n: "n \<le> 3" using sk_make_config_panics [OF assms(1), of n] assms(2) by (metis Inr_not_Inl not_less)
  then have "rows_inv n c0"
    using sk_make_config_starts [OF assms(1) n, of sc_ms kv_ms rf_ms now unreliable m] full_inv_rows assms(2) sk_make_config_inv [OF assms(2)] by auto
  then have "rows_inv n c" using go_fold_invariant [OF assms(3), of "rows_inv n"] rows_inv_op by blast
  moreover have "length (g_groups c) = 3" using do_shard_ops_inv [OF _ assms(3), of n] sk_make_config_inv [OF assms(2)] by simp
  ultimately show ?thesis by blast
qed

lemma shutdown_succeeds:
  assumes "rows_inv n c" and "gi < length (g_groups c)" and "i < n"
  shows "\<exists>c'. sk_ShutdownServer gi i c = Inr c'"
proof -
  let ?gg = "g_groups c ! gi"
  have ok: "group_ok n gi (g_net c) ?gg" "n \<le> 3" "group_rows n (g_net c) ?gg" using assms(1,2) by (auto simp: rows_inv_def sk_inv_def)
  then obtain es ms where rows: "gg_endnames ?gg ! i = Some es" "length es = n" "gg_mendnames ?gg ! i = Some ms"
    using assms(3) by (auto simp: group_rows_def)
  have r: "i < length (gg_saved ?gg)" "i < length (gg_servers ?gg)" "i < length (gg_endnames ?gg)" "i < length (gg_mendnames ?gg)" "length (gg_servers ?gg) = n"
    using ok assms(3) by (auto simp: group_ok_def)
  have "\<exists>rn1. set_ends Enable False (\<lambda>_. Inr True) (\<lambda>j. endname_at (gg_endnames ?gg) i j) [0..<length (gg_servers ?gg)] (g_net c) = Inr rn1"
    using net.set_ends_ok [of "[0..<n]" "\<lambda>_. Inr True" "\<lambda>_. True" "\<lambda>j. endname_at (gg_endnames ?gg) i j" "\<lambda>j. es ! j" False "g_net c"] r rows
    by (auto simp: endname_at_def)
  then obtain rn1 where rn1: "set_ends Enable False (\<lambda>_. Inr True) (\<lambda>j. endname_at (gg_endnames ?gg) i j) [0..<length (gg_servers ?gg)] (g_net c) = Inr rn1" by blast
  have "\<exists>rn2. set_ends Enable False (\<lambda>_. Inr True) (\<lambda>j. slice_get ms (int j)) [0..<length ms] rn1 = Inr rn2"
    using net.set_ends_ok [of "[0..<length ms]" "\<lambda>_. Inr True" "\<lambda>_. True" "\<lambda>j. slice_get ms (int j)" "\<lambda>j. ms ! j" False rn1] by auto
  then obtain rn2 where rn2: "set_ends Enable False (\<lambda>_. Inr True) (\<lambda>j. slice_get ms (int j)) [0..<length ms] rn1 = Inr rn2" by blast
  obtain sv ps where "gg_copy_persister i ?gg (gh_persisters c) = Inr (?gg\<lparr>gg_saved := sv\<rparr>, ps)"
    using gg_copy_persister_ok [OF r(1)] by blast
  then show ?thesis using assms(2) r rows rn1 rn2 by (simp add: sk_ShutdownServer_def Let_def split: option.splits)
qed

lemma shutdown_reach:
  assumes "rows_inv n c" and "gi < length (g_groups c)" and "sk_ShutdownServer gi i c = Inr c'"
  shows "reachable_server (g_net c') e nm a \<longleftrightarrow> reachable_server (g_net c) e nm a \<and> nm \<noteq> servername (100 + int gi) i \<and>
    (\<forall>j. endname_at (gg_endnames (g_groups c ! gi)) i j \<noteq> Inr e) \<and> (\<forall>j. endname_at (gg_mendnames (g_groups c ! gi)) i j \<noteq> Inr e)"
proof -
  let ?gg = "g_groups c ! gi"
  have s: "i < length (gg_servers ?gg)" "server_stopped gi i c c'" using sk_ShutdownServer_stopped [OF assms(3)] by auto
  have ok: "group_ok n gi (g_net c) ?gg" "group_rows n (g_net c) ?gg" using assms(1,2) by (auto simp: rows_inv_def sk_inv_def)
  have g: "gg_gid ?gg = 100 + int gi" "length (gg_servers ?gg) = n" "i < n" using ok(1) s(1) by (auto simp: group_ok_def)
  obtain rn where rn: "net_rest rn = net_rest (g_net c)" "\<forall>e. enabled rn e = (e \<notin> own_ends ?gg i \<and> enabled (g_net c) e)"
     "g_net c' = DeleteServer (servername (100 + int gi) i) rn" using s(2) unfolding server_stopped_def Let_def g by blast
  obtain es where "gg_endnames ?gg ! i = Some es" "length es = n" using ok(2) g(3) by (auto simp: group_rows_def)
  then have "e \<notin> own_ends ?gg i \<longleftrightarrow>
      (\<forall>j. endname_at (gg_endnames ?gg) i j \<noteq> Inr e) \<and> (\<forall>j. endname_at (gg_mendnames ?gg) i j \<noteq> Inr e)"
    by (auto simp: own_ends_def g endname_at_Inr)
  then show ?thesis using rn(2) net_rest_eq [OF rn(1)] by (auto simp: reachable_server_def rn(3) DeleteServer_def)
qed

text \<open>
  An end that a server got from \<open>make_end\<close> is in no table, so shutting a server down, the one that
  holds the end included, does not take the end away.
\<close>

lemma make_end_survives_shutdown:
  assumes "rows_inv n c" and "make_end rnd target c = Inr (e, c1)" and "gi < length (g_groups c)"
    and "sk_ShutdownServer gi i c1 = Inr c2" and "target \<noteq> servername (100 + int gi) i"
  shows "reachable_server (g_net c2) (ce_endname e) target a \<longleftrightarrow> servers (g_net c) target = Some a"
proof -
  obtain rn where l: "live_end (rnd (gh_rand c)) target (g_net c) = Inr (rn, e)" and c1: "c1 = c\<lparr>g_net := rn, gh_rand := gh_rand c + 1\<rparr>"
    using assms(2) by (auto simp: make_end_def go_bind_eq_Inr)
  have e: "ce_endname e = rnd (gh_rand c)" "ends (g_net c) (rnd (gh_rand c)) = None" "enabled rn (rnd (gh_rand c))"
      "connections rn (rnd (gh_rand c)) = Some target" "servers rn = servers (g_net c)"
    using l by (auto simp: live_end_def MakeEnd_def Let_def Enable_def Connect_def split: if_splits)
  have inv1: "rows_inv n c1" using rows_inv_op [OF assms(1), of _ _ rnd "Op_make_end target"] assms(2) by simp
  have "group_rows n (g_net c) (g_groups c ! gi)" using assms(1,3) by (simp add: rows_inv_def)
  then have "endname_at (gg_endnames (g_groups c1 ! gi)) i j \<noteq> Inr (ce_endname e)" "endname_at (gg_mendnames (g_groups c1 ! gi)) i j \<noteq> Inr (ce_endname e)"
    for j using e(1,2) unfolding group_rows_def c1 by fastforce+
  then show ?thesis using shutdown_reach [OF inv1 _ assms(4)] assms(3,5) e by (auto simp: c1 reachable_server_def)
qed

subsection \<open>Properties\<close>

text \<open>
  C23. The harness works for groups of exactly three servers. With more, \<open>make_config\<close> panics, because
  a group has a row of controller ends per controller and not per server. With up to three servers
  \<open>make_config\<close> succeeds, every server of every group has an enabled end to every server of its group and
  to every controller, but with fewer than three the first \<open>makeClient\<close> panics, because the slice of the
  client's end names is sized by the servers of a group. Random names are assumed not to repeat.
\<close>

theorem shard_harness_sizes:
  assumes "inj rnd"
  shows "if n > 3 then sk_make_config sc_ms kv_ms rf_ms rnd now n unreliable m = Inl IndexOutOfRange
    else \<exists>c. sk_make_config sc_ms kv_ms rf_ms rnd now n unreliable m = Inr c \<and>
      (\<forall>gi<3. \<forall>i<n.
        (\<forall>j<n. \<exists>e a. endname_at (gg_endnames (g_groups c ! gi)) i j = Inr e \<and> reachable_server (g_net c) e (servername (100 + int gi) j) a) \<and>
        (\<forall>j<3. \<exists>e a. endname_at (gg_mendnames (g_groups c ! gi)) i j = Inr e \<and> reachable_server (g_net c) e (ctrlername j) a)) \<and>
      (if n < 3 then sk_makeClient rnd c = Inl IndexOutOfRange else \<exists>ck c'. sk_makeClient rnd c = Inr (ck, c'))"
proof (cases "n > 3")
  case True
  then show ?thesis using sk_make_config_panics [OF assms] by simp
next
  case False
  then obtain c where c: "sk_make_config sc_ms kv_ms rf_ms rnd now n unreliable m = Inr c" "full_inv rnd n c" "\<forall>gi<3. \<forall>i<n. member_up n c gi i"
    using sk_make_config_starts [OF assms, of n sc_ms kv_ms rf_ms now unreliable m] by auto
  have "n \<le> 3" using False by simp
  then have "\<forall>gi<3. \<forall>i<n.
        (\<forall>j<n. \<exists>e a. endname_at (gg_endnames (g_groups c ! gi)) i j = Inr e \<and> reachable_server (g_net c) e (servername (100 + int gi) j) a) \<and>
        (\<forall>j<3. \<exists>e a. endname_at (gg_mendnames (g_groups c ! gi)) i j = Inr e \<and> reachable_server (g_net c) e (ctrlername j) a)"
    using member_reaches [OF c(2)] c(3) by blast
  then show ?thesis using c(1) sk_makeClient_sizes [OF assms c(2)] False by auto
qed

definition sample_names :: "nat \<Rightarrow> string" where
  "sample_names k = replicate k CHR ''x''"

lemma inj_sample_names: "inj sample_names"
  by (rule injI) (metis sample_names_def length_replicate)

theorem shard_harness_sizes_witness:
  "sk_make_config [] [] [] sample_names 0 5 False (- 1) = Inl IndexOutOfRange \<and>
   (\<exists>c ck c'. sk_make_config [] [] [] sample_names 0 3 False (- 1) = Inr c \<and> sk_makeClient sample_names c = Inr (ck, c')) \<and>
   (\<exists>c. sk_make_config [] [] [] sample_names 0 1 False (- 1) = Inr c \<and> sk_makeClient sample_names c = Inl IndexOutOfRange)"
  using shard_harness_sizes [OF inj_sample_names, of 5 "[]" "[]" "[]" 0 False "- 1"]
    shard_harness_sizes [OF inj_sample_names, of 3 "[]" "[]" "[]" 0 False "- 1"]
    shard_harness_sizes [OF inj_sample_names, of 1 "[]" "[]" "[]" 0 False "- 1"] by auto

text \<open>
  C24. Group addresses: after any starts and shutdowns of servers and new clients and ends, a server is
  registered on the network under its name exactly when its group has it running, all controllers are
  registered, and what \<open>joinm\<close> tells the controllers of the groups \<open>gis\<close> is, for each of them, its
  group identifier with the names of its servers in order, so names under which those servers are
  reached.
\<close>

theorem group_addresses:
  assumes "sk_make_config sc_ms kv_ms rf_ms rnd now n unreliable m = Inr c0"
    and "go_fold (do_shard_op kv_ms rf_ms rnd) ops c0 = Inr c" and "set gis \<subseteq> {..<3}"
  shows "(\<forall>gi<3. \<forall>i<n. (\<exists>a. servers (g_net c) (servername (100 + int gi) i) = Some a) \<longleftrightarrow>
        (\<exists>kv. slice_get (gg_servers (g_groups c ! gi)) (int i) = Inr (Some kv))) \<and>
    (\<forall>i<3. servers (g_net c) (ctrlername i) \<noteq> None) \<and>
    (\<exists>groups. join_map gis c = Inr groups \<and>
      (\<forall>gid srvs. groups gid = Some srvs \<longleftrightarrow> (\<exists>gi\<in>set gis. gid = 100 + int gi \<and> srvs = map (servername gid) [0..<n])))"
proof -
  have inv: "sk_inv n c" and len: "length (g_groups c) = 3"
    using do_shard_ops_inv [OF conjunct1 [OF sk_make_config_inv [OF assms(1)]] assms(2)] sk_make_config_inv [OF assms(1)] by auto
  have ok: "group_ok n gi (g_net c) (g_groups c ! gi)" if "gi < 3" for gi using inv len that by (simp add: sk_inv_def)
  have "(\<exists>a. servers (g_net c) (servername (100 + int gi) i) = Some a) \<longleftrightarrow>
        (\<exists>kv. slice_get (gg_servers (g_groups c ! gi)) (int i) = Inr (Some kv))" if "gi < 3" "i < n" for gi i
    using ok [OF that(1)] that(2) by (auto simp: group_ok_def)
  moreover have "\<forall>i<3. servers (g_net c) (ctrlername i) \<noteq> None" using inv by (simp add: sk_inv_def)
  moreover have "\<exists>groups. join_map gis c = Inr groups \<and>
      (\<forall>gid srvs. groups gid = Some srvs \<longleftrightarrow> (\<exists>gi\<in>set gis. gid = 100 + int gi \<and> srvs = map (servername gid) [0..<n]))"
    using join_map_groups [OF inv] assms(3) len by simp
  ultimately show ?thesis by blast
qed

theorem group_addresses_witness:
  "\<exists>c c' groups. sk_make_config [] [] [] sample_names 0 1 False (- 1) = Inr c \<and>
     go_fold (do_shard_op [] [] sample_names) [Op_shutdown 0 0] c = Inr c' \<and>
     (servers (g_net c') (servername 100 0) \<noteq> None \<longleftrightarrow> (\<exists>kv. slice_get (gg_servers (g_groups c' ! 0)) 0 = Inr (Some kv))) \<and>
     servers (g_net c') (ctrlername 2) \<noteq> None \<and>
     join_map [0, 2] c' = Inr groups \<and> groups 102 = Some [''server-102-0''] \<and> groups 101 = None"
proof -
  obtain c where c: "sk_make_config [] [] [] sample_names 0 1 False (- 1) = Inr c"
    using sk_make_config_starts [OF inj_sample_names, of 1 "[]" "[]" "[]" 0 False "- 1"] by auto
  have "rows_inv 1 c" "0 < length (g_groups c)" using rows_inv_reached [OF inj_sample_names c, of "[]"] by auto
  then obtain c' where c': "go_fold (do_shard_op [] [] sample_names) [Op_shutdown 0 0] c = Inr c'"
    using shutdown_succeeds [of 1 c 0 0] by auto
  note G = group_addresses [OF c c', of "[0, 2]"]
  obtain groups where g: "join_map [0, 2] c' = Inr groups"
      "\<And>gid srvs. groups gid = Some srvs \<longleftrightarrow> (\<exists>gi\<in>{0, 2}. gid = 100 + int gi \<and> srvs = map (servername gid) [0..<1])"
    using G by auto
  have "groups 102 = Some [servername 102 0]" unfolding g(2) by simp
  moreover have "servername 102 0 = ''server-102-0''" by code_simp
  moreover have "groups 101 = None" using g(2) [of 101] by (cases "groups 101") auto
  moreover have "servers (g_net c') (servername 100 0) \<noteq> None \<longleftrightarrow> (\<exists>kv. slice_get (gg_servers (g_groups c' ! 0)) 0 = Inr (Some kv))"
    using conjunct1 [OF G, THEN spec [of _ 0]] by auto
  moreover have "servers (g_net c') (ctrlername 2) \<noteq> None" using G by auto
  ultimately show ?thesis using c c' g(1) by auto
qed

text \<open>
  C25. Shutting down: in any state that starts and shutdowns lead to, \<open>ShutdownServer\<close> of any server
  succeeds and makes that server unreachable under its name from every end, and every server
  unreachable from the ends in its rows of the tables; what other ends reach does not change.
\<close>

theorem shutdown_isolates:
  assumes "inj rnd" and "sk_make_config sc_ms kv_ms rf_ms rnd now n unreliable m = Inr c0"
    and "go_fold (do_shard_op kv_ms rf_ms rnd) ops c0 = Inr c" and "gi < 3" and "i < n"
  shows "\<exists>c'. sk_ShutdownServer gi i c = Inr c' \<and> (\<forall>e nm a. reachable_server (g_net c') e nm a \<longleftrightarrow>
    reachable_server (g_net c) e nm a \<and> nm \<noteq> servername (100 + int gi) i \<and>
    (\<forall>j. endname_at (gg_endnames (g_groups c ! gi)) i j \<noteq> Inr e) \<and> (\<forall>j. endname_at (gg_mendnames (g_groups c ! gi)) i j \<noteq> Inr e))"
proof -
  have inv: "rows_inv n c" "gi < length (g_groups c)" using rows_inv_reached [OF assms(1-3)] assms(4) by auto
  then obtain c' where "sk_ShutdownServer gi i c = Inr c'" using shutdown_succeeds assms(5) by blast
  with shutdown_reach [OF inv this] show ?thesis by blast
qed

theorem shutdown_isolates_witness:
  "\<exists>c c'. sk_make_config [] [] [] sample_names 0 3 False (- 1) = Inr c \<and> sk_ShutdownServer 1 2 c = Inr c' \<and>
     (\<forall>e a. \<not> reachable_server (g_net c') e (servername 101 2) a)"
proof -
  obtain c where c: "sk_make_config [] [] [] sample_names 0 3 False (- 1) = Inr c"
    using sk_make_config_starts [OF inj_sample_names, of 3 "[]" "[]" "[]" 0 False "- 1"] by auto
  from shutdown_isolates [OF inj_sample_names c, of "[]" c 1 2] c show ?thesis by auto
qed

end
