(* ===== verification/Mr_Coordinator.thy ===== *)
theory Mr_Coordinator
  imports Prelude
begin

text \<open>
  The coordinator of the distributed map/reduce (\<open>mr/coordinator.go\<close> and the types of \<open>mr/rpc.go\<close>).
  Every handler runs under the coordinator's mutex, so a handler is one transition of the state.
  The mutex itself, the log output and the RPC server are left out. Times are integers
  (nanoseconds on the clock of the process); the clock readings a handler makes are its arguments.
\<close>

subsection \<open>State\<close>

record Task =
  t_ID :: int
  t_File :: string
  t_TaskType :: string
  t_NumOfFiles :: int

record TaskStatus =
  ts_Assigned :: bool
  ts_WorkerID :: int
  ts_StartTime :: int
  ts_Completed :: bool

record Coordinator =
  mapTasks :: "Task list"
  reduceTasks :: "Task list"
  mapTaskStatus :: "TaskStatus list"
  reduceTaskStatus :: "TaskStatus list"
  nMap :: int
  nReduce :: int
  files :: "string list"
  completed :: bool
  loggingEnabled :: bool

text \<open>The zero values \<open>Task{}\<close> and \<open>TaskStatus{}\<close>.\<close>

definition zeroTask :: Task where
  "zeroTask = \<lparr>t_ID = 0, t_File = [], t_TaskType = [], t_NumOfFiles = 0\<rparr>"

definition zeroStatus :: TaskStatus where
  "zeroStatus = \<lparr>ts_Assigned = False, ts_WorkerID = 0, ts_StartTime = 0, ts_Completed = False\<rparr>"

subsection \<open>Handlers\<close>

definition allMapTasksDone :: "Coordinator \<Rightarrow> bool" where
  "allMapTasksDone c = list_all ts_Completed (mapTaskStatus c)"

definition allReduceTasksDone :: "Coordinator \<Rightarrow> bool" where
  "allReduceTasksDone c = list_all ts_Completed (reduceTaskStatus c)"

text \<open>The search for a task that is neither completed nor assigned, from index \<open>i\<close> on.\<close>

fun idle_from :: "nat \<Rightarrow> TaskStatus list \<Rightarrow> nat option" where
  "idle_from i [] = None"
| "idle_from i (st # sts) =
     (if \<not> ts_Completed st \<and> \<not> ts_Assigned st then Some i else idle_from (i + 1) sts)"

text \<open>The body of that search: hand out task \<open>i\<close> and mark it assigned at time \<open>now\<close>.\<close>

definition assign_at :: "int \<Rightarrow> Task list \<Rightarrow> TaskStatus list \<Rightarrow> nat \<Rightarrow> (Task \<times> TaskStatus list) go" where
  "assign_at now tasks sts i =
     go_bind (slice_get tasks (int i)) (\<lambda>t.
     go_bind (slice_get sts (int i)) (\<lambda>st.
     go_bind (slice_set sts (int i) (st\<lparr>ts_Assigned := True, ts_StartTime := now\<rparr>)) (\<lambda>sts'.
     Inr (t, sts'))))"

definition AssignTask :: "int \<Rightarrow> Coordinator \<Rightarrow> Task \<Rightarrow> (Coordinator \<times> Task) go" where
  "AssignTask now c reply =
     (case idle_from 0 (mapTaskStatus c) of
        Some i \<Rightarrow>
          go_bind (assign_at now (mapTasks c) (mapTaskStatus c) i) (\<lambda>(t, sts).
            Inr (c\<lparr>mapTaskStatus := sts\<rparr>, t))
      | None \<Rightarrow>
          (case (if allMapTasksDone c then idle_from 0 (reduceTaskStatus c) else None) of
             Some i \<Rightarrow>
               go_bind (assign_at now (reduceTasks c) (reduceTaskStatus c) i) (\<lambda>(t, sts).
                 Inr (c\<lparr>reduceTaskStatus := sts\<rparr>, t))
           | None \<Rightarrow>
               if allMapTasksDone c \<and> allReduceTasksDone c
               then Inr (c, reply\<lparr>t_TaskType := ''exit''\<rparr>)
               else Inr (c, reply\<lparr>t_TaskType := ''wait''\<rparr>)))"

definition complete_at :: "TaskStatus list \<Rightarrow> int \<Rightarrow> TaskStatus list go" where
  "complete_at sts i =
     go_bind (slice_get sts i) (\<lambda>st. slice_set sts i (st\<lparr>ts_Completed := True, ts_Assigned := False\<rparr>))"

definition ReportTaskDone :: "Task \<Rightarrow> Coordinator \<Rightarrow> Coordinator go" where
  "ReportTaskDone args c =
     (if t_TaskType args = ''map'' then
        go_bind (complete_at (mapTaskStatus c) (t_ID args)) (\<lambda>sts. Inr (c\<lparr>mapTaskStatus := sts\<rparr>))
      else if t_TaskType args = ''reduce'' then
        go_bind (complete_at (reduceTaskStatus c) (t_ID args)) (\<lambda>sts. Inr (c\<lparr>reduceTaskStatus := sts\<rparr>))
      else Inr c)"

text \<open>
  One round of \<open>checkTaskTimeouts\<close>; \<open>clock k\<close> is the reading of the clock for the \<open>k\<close>-th task looked
  at in the round.
\<close>

definition taskTimeout :: int where
  "taskTimeout = 10 * 1000000000"

fun expire :: "(nat \<Rightarrow> int) \<Rightarrow> nat \<Rightarrow> TaskStatus list \<Rightarrow> TaskStatus list" where
  "expire clock k [] = []"
| "expire clock k (st # sts) =
     (if ts_Assigned st \<and> \<not> ts_Completed st \<and> clock k - ts_StartTime st > taskTimeout
      then st\<lparr>ts_Assigned := False\<rparr> else st) # expire clock (k + 1) sts"

definition checkTaskTimeouts :: "(nat \<Rightarrow> int) \<Rightarrow> Coordinator \<Rightarrow> Coordinator" where
  "checkTaskTimeouts clock c =
     c\<lparr>mapTaskStatus := expire clock 0 (mapTaskStatus c),
       reduceTaskStatus := expire clock (length (mapTaskStatus c)) (reduceTaskStatus c)\<rparr>"

definition Done :: "Coordinator \<Rightarrow> Coordinator \<times> bool" where
  "Done c =
     (if allMapTasksDone c \<and> allReduceTasksDone c then (c\<lparr>completed := True\<rparr>, True) else (c, False))"

definition map_task :: "int \<Rightarrow> nat \<Rightarrow> string \<Rightarrow> Task" where
  "map_task nr i file = \<lparr>t_ID = int i, t_File = file, t_TaskType = ''map'', t_NumOfFiles = nr\<rparr>"

definition reduce_task :: "nat \<Rightarrow> nat \<Rightarrow> Task" where
  "reduce_task nfiles i =
     \<lparr>t_ID = int i, t_File = [], t_TaskType = ''reduce'', t_NumOfFiles = int nfiles\<rparr>"

text \<open>\<open>MakeCoordinator\<close> without the start of the RPC server and of the timeout goroutine.\<close>

definition MakeCoordinator :: "string list \<Rightarrow> int \<Rightarrow> Coordinator go" where
  "MakeCoordinator fs nr =
     go_bind (make_slice zeroTask (int (length fs))) (\<lambda>mt0.
     go_bind (make_slice zeroStatus (int (length fs))) (\<lambda>ms0.
     go_bind (make_slice zeroTask nr) (\<lambda>rt0.
     go_bind (make_slice zeroStatus nr) (\<lambda>rs0.
     go_bind (go_fold (\<lambda>i (mt, ms).
         go_bind (slice_set mt (int i) (map_task nr i (fs ! i))) (\<lambda>mt'.
         go_bind (slice_set ms (int i) zeroStatus) (\<lambda>ms'. Inr (mt', ms')))) [0..<length fs] (mt0, ms0))
       (\<lambda>(mt, ms).
     go_bind (go_fold (\<lambda>i (rt, rs).
         go_bind (slice_set rt (int i) (reduce_task (length fs) i)) (\<lambda>rt'.
         go_bind (slice_set rs (int i) zeroStatus) (\<lambda>rs'. Inr (rt', rs')))) [0..<nat nr] (rt0, rs0))
       (\<lambda>(rt, rs).
     Inr \<lparr>mapTasks = mt, reduceTasks = rt, mapTaskStatus = ms, reduceTaskStatus = rs,
          nMap = int (length fs), nReduce = nr, files = fs, completed = False,
          loggingEnabled = False\<rparr>))))))"

subsection \<open>The invariant\<close>

definition status_ok :: "TaskStatus \<Rightarrow> bool" where
  "status_ok st \<longleftrightarrow> (ts_Completed st \<longrightarrow> \<not> ts_Assigned st)"

definition coord_ok :: "Coordinator \<Rightarrow> bool" where
  "coord_ok c \<longleftrightarrow>
     nMap c = int (length (files c)) \<and> 0 \<le> nReduce c \<and>
     mapTasks c = map (\<lambda>i. map_task (nReduce c) i (files c ! i)) [0..<length (files c)] \<and>
     reduceTasks c = map (reduce_task (length (files c))) [0..<nat (nReduce c)] \<and>
     length (mapTaskStatus c) = length (files c) \<and> length (reduceTaskStatus c) = nat (nReduce c) \<and>
     list_all status_ok (mapTaskStatus c) \<and> list_all status_ok (reduceTaskStatus c)"

lemma coord_okD:
  assumes "coord_ok c"
  shows "length (mapTasks c) = length (files c)" "length (reduceTasks c) = nat (nReduce c)"
    "length (mapTaskStatus c) = length (files c)" "length (reduceTaskStatus c) = nat (nReduce c)"
    "\<And>i. i < length (files c) \<Longrightarrow> mapTasks c ! i = map_task (nReduce c) i (files c ! i)"
    "\<And>i. i < nat (nReduce c) \<Longrightarrow> reduceTasks c ! i = reduce_task (length (files c)) i"
    "list_all status_ok (mapTaskStatus c)" "list_all status_ok (reduceTaskStatus c)"
  using assms by (auto simp: coord_ok_def)

lemma fill_fold:
  assumes "\<And>i p. i < n \<Longrightarrow> length (fst p) = n \<Longrightarrow> length (snd p) = n \<Longrightarrow>
      step i p = Inr ((fst p)[i := f i], (snd p)[i := z])"
    and "length xs = n" "length ys = n" "ys = replicate n z"
  shows "k \<le> n \<Longrightarrow> go_fold step [0..<k] (xs, ys) =
    Inr (map f [0..<k] @ drop k xs, ys)"
proof (induction k)
  case (Suc k)
  then have k: "k < n" by simp
  have "(map f [0..<k] @ drop k xs)[k := f k] = map f [0..<Suc k] @ drop (Suc k) xs"
    using k assms(2) by (intro nth_equalityI) (auto simp: nth_append nth_list_update less_Suc_eq)
  moreover have "ys[k := z] = ys" using k assms(4) by (metis list_update_id nth_replicate)
  ultimately show ?case
    using Suc k assms(1) [OF k, of "(map f [0..<k] @ drop k xs, ys)"] assms(2,3) by simp
qed simp

lemma MakeCoordinator_eq:
  assumes "0 \<le> nr"
  shows "MakeCoordinator fs nr =
    Inr \<lparr>mapTasks = map (\<lambda>i. map_task nr i (fs ! i)) [0..<length fs],
         reduceTasks = map (reduce_task (length fs)) [0..<nat nr],
         mapTaskStatus = replicate (length fs) zeroStatus, reduceTaskStatus = replicate (nat nr) zeroStatus,
         nMap = int (length fs), nReduce = nr, files = fs, completed = False, loggingEnabled = False\<rparr>"
proof -
  let ?m = "\<lambda>i (mt, ms). go_bind (slice_set mt (int i) (map_task nr i (fs ! i))) (\<lambda>mt'.
         go_bind (slice_set ms (int i) zeroStatus) (\<lambda>ms'. Inr (mt', ms')))"
  let ?r = "\<lambda>i (rt, rs). go_bind (slice_set rt (int i) (reduce_task (length fs) i)) (\<lambda>rt'.
         go_bind (slice_set rs (int i) zeroStatus) (\<lambda>rs'. Inr (rt', rs')))"
  have m: "go_fold ?m [0..<length fs] (replicate (length fs) zeroTask, replicate (length fs) zeroStatus) =
      Inr (map (\<lambda>i. map_task nr i (fs ! i)) [0..<length fs], replicate (length fs) zeroStatus)"
    using fill_fold [of "length fs" ?m "\<lambda>i. map_task nr i (fs ! i)" zeroStatus
        "replicate (length fs) zeroTask" "replicate (length fs) zeroStatus" "length fs"] by auto
  have r: "go_fold ?r [0..<nat nr] (replicate (nat nr) zeroTask, replicate (nat nr) zeroStatus) =
      Inr (map (reduce_task (length fs)) [0..<nat nr], replicate (nat nr) zeroStatus)"
    using fill_fold [of "nat nr" ?r "reduce_task (length fs)" zeroStatus
        "replicate (nat nr) zeroTask" "replicate (nat nr) zeroStatus" "nat nr"] by auto
  show ?thesis using assms m r by (simp add: MakeCoordinator_def make_slice_def)
qed

lemma MakeCoordinator_ok: "MakeCoordinator fs nr = Inr c \<Longrightarrow> coord_ok c \<and> files c = fs \<and> nReduce c = nr"
proof (cases "0 \<le> nr")
  case True
  then show "MakeCoordinator fs nr = Inr c \<Longrightarrow> ?thesis"
    using MakeCoordinator_eq [of nr fs] by (auto simp: coord_ok_def list_all_iff status_ok_def zeroStatus_def)
next
  case False
  then show "MakeCoordinator fs nr = Inr c \<Longrightarrow> ?thesis" by (simp add: MakeCoordinator_def make_slice_def)
qed

lemma idle_from_Some:
  "idle_from k sts = Some i \<longleftrightarrow>
     k \<le> i \<and> i - k < length sts \<and> \<not> ts_Completed (sts ! (i - k)) \<and> \<not> ts_Assigned (sts ! (i - k)) \<and>
     (\<forall>j<i - k. ts_Completed (sts ! j) \<or> ts_Assigned (sts ! j))"
proof (induction sts arbitrary: k)
  case (Cons st sts)
  show ?case
  proof (cases "i = k")
    case True
    with Cons [of "k + 1"] show ?thesis by auto
  next
    case False
    have split: "(\<forall>j<i - k. P j) \<longleftrightarrow> P 0 \<and> (\<forall>j<i - Suc k. P (Suc j))" if "k < i" for P
    proof -
      have "i - k = Suc (i - Suc k)" using that by simp
      then show ?thesis using less_Suc_eq_0_disj by auto
    qed
    from False Cons [of "k + 1"] show ?thesis
      by (cases "k < i") (auto simp: split Suc_diff_Suc nth_Cons' split: if_splits)
  qed
qed simp

lemma idle_from_None:
  "idle_from k sts = None \<longleftrightarrow> (\<forall>st\<in>set sts. ts_Completed st \<or> ts_Assigned st)"
  by (induction sts arbitrary: k) auto

lemma idle_first: "idle_from 0 sts = Some i \<Longrightarrow> i < length sts \<and> \<not> ts_Completed (sts ! i) \<and> \<not> ts_Assigned (sts ! i)"
  by (simp add: idle_from_Some)

definition mark :: "int \<Rightarrow> TaskStatus \<Rightarrow> TaskStatus" where
  "mark now st = st\<lparr>ts_Assigned := True, ts_StartTime := now\<rparr>"

lemma assign_at_eq:
  "i < length tasks \<Longrightarrow> i < length sts \<Longrightarrow>
   assign_at now tasks sts i = Inr (tasks ! i, sts[i := mark now (sts ! i)])"
  by (simp add: assign_at_def mark_def)

text \<open>The four ways in which the coordinator can answer a request for a task.\<close>

lemma AssignTask_cases:
  assumes "coord_ok c"
  obtains (map) i where "i < length (files c)" "\<not> ts_Completed (mapTaskStatus c ! i)" "\<not> ts_Assigned (mapTaskStatus c ! i)"
      "AssignTask now c reply =
        Inr (c\<lparr>mapTaskStatus := (mapTaskStatus c)[i := mark now (mapTaskStatus c ! i)]\<rparr>, map_task (nReduce c) i (files c ! i))"
  | (reduce) i where "allMapTasksDone c" "i < nat (nReduce c)" "\<not> ts_Completed (reduceTaskStatus c ! i)"
      "\<not> ts_Assigned (reduceTaskStatus c ! i)"
      "AssignTask now c reply =
        Inr (c\<lparr>reduceTaskStatus := (reduceTaskStatus c)[i := mark now (reduceTaskStatus c ! i)]\<rparr>, reduce_task (length (files c)) i)"
  | (exit) "allMapTasksDone c" "allReduceTasksDone c"
      "AssignTask now c reply = Inr (c, reply\<lparr>t_TaskType := ''exit''\<rparr>)"
  | (wait) "\<exists>st\<in>set (mapTaskStatus c) \<union> set (reduceTaskStatus c). ts_Assigned st \<and> \<not> ts_Completed st"
      "\<not> (allMapTasksDone c \<and> allReduceTasksDone c)"
      "AssignTask now c reply = Inr (c, reply\<lparr>t_TaskType := ''wait''\<rparr>)"
proof -
  note ok = coord_okD [OF assms]
  show thesis
  proof (cases "idle_from 0 (mapTaskStatus c)")
    case (Some i)
    then show thesis
      using that(1) [of i] idle_first [OF Some] ok by (simp add: AssignTask_def assign_at_eq)
  next
    case no_map: None
    show thesis
    proof (cases "if allMapTasksDone c then idle_from 0 (reduceTaskStatus c) else None")
      case (Some i)
      then have d: "allMapTasksDone c" "idle_from 0 (reduceTaskStatus c) = Some i" by (simp_all split: if_splits)
      then show thesis
        using that(2) [of i] no_map idle_first [OF d(2)] ok by (simp add: AssignTask_def assign_at_eq)
    next
      case no_reduce: None
      show thesis
      proof (cases "allMapTasksDone c \<and> allReduceTasksDone c")
        case True
        then show thesis using that(3) no_map no_reduce by (simp add: AssignTask_def)
      next
        case False
        have "\<exists>st\<in>set (mapTaskStatus c) \<union> set (reduceTaskStatus c). ts_Assigned st \<and> \<not> ts_Completed st"
        proof (cases "allMapTasksDone c")
          case True
          with False no_reduce have "idle_from 0 (reduceTaskStatus c) = None" "\<not> allReduceTasksDone c" by auto
          then show ?thesis by (auto simp: idle_from_None allReduceTasksDone_def list_all_iff)
        next
          case False
          with no_map show ?thesis by (auto simp: idle_from_None allMapTasksDone_def list_all_iff)
        qed
        then show thesis using that(4) False no_map no_reduce by (auto simp: AssignTask_def)
      qed
    qed
  qed
qed

lemma AssignTask_ok:
  assumes "coord_ok c" and "AssignTask now c reply = Inr (c', t)"
  shows "coord_ok c' \<and> files c' = files c \<and> nReduce c' = nReduce c"
  using assms(1)
proof (cases rule: AssignTask_cases [of c now reply])
  case (map i)
  then show ?thesis
    using assms by (auto simp: coord_ok_def status_ok_def mark_def intro!: list_all_update)
next
  case (reduce i)
  then show ?thesis
    using assms by (auto simp: coord_ok_def status_ok_def mark_def intro!: list_all_update)
qed (use assms in auto)

definition finish :: "TaskStatus \<Rightarrow> TaskStatus" where
  "finish st = st\<lparr>ts_Completed := True, ts_Assigned := False\<rparr>"

lemma complete_at_eq: "i < length sts \<Longrightarrow> complete_at sts (int i) = Inr (sts[i := finish (sts ! i)])"
  by (simp add: complete_at_def finish_def)

lemma ReportTaskDone_map:
  "coord_ok c \<Longrightarrow> i < length (files c) \<Longrightarrow> ReportTaskDone (map_task nr i f) c =
     Inr (c\<lparr>mapTaskStatus := (mapTaskStatus c)[i := finish (mapTaskStatus c ! i)]\<rparr>)"
  by (simp add: ReportTaskDone_def map_task_def complete_at_eq coord_okD)

lemma ReportTaskDone_reduce:
  "coord_ok c \<Longrightarrow> i < nat (nReduce c) \<Longrightarrow> ReportTaskDone (reduce_task nf i) c =
     Inr (c\<lparr>reduceTaskStatus := (reduceTaskStatus c)[i := finish (reduceTaskStatus c ! i)]\<rparr>)"
  by (simp add: ReportTaskDone_def reduce_task_def complete_at_eq coord_okD)

lemma ReportTaskDone_ok:
  assumes "coord_ok c" and "ReportTaskDone t c = Inr c'"
  shows "coord_ok c' \<and> files c' = files c \<and> nReduce c' = nReduce c"
  using assms
  by (auto simp: ReportTaskDone_def complete_at_def go_bind_eq_Inr slice_get_Inr slice_set_Inr coord_ok_def
      status_ok_def intro!: list_all_update split: if_splits)

lemma length_expire [simp]: "length (expire clock k sts) = length sts"
  by (induction sts arbitrary: k) auto

lemma nth_expire:
  "i < length sts \<Longrightarrow> expire clock k sts ! i =
     (if ts_Assigned (sts ! i) \<and> \<not> ts_Completed (sts ! i) \<and> clock (k + i) - ts_StartTime (sts ! i) > taskTimeout
      then (sts ! i)\<lparr>ts_Assigned := False\<rparr> else sts ! i)"
proof (induction sts arbitrary: k i)
  case (Cons st sts)
  then show ?case by (cases i) auto
qed simp

lemma expire_Completed: "map ts_Completed (expire clock k sts) = map ts_Completed sts"
  by (induction sts arbitrary: k) auto

lemma expire_status_ok: "list_all status_ok sts \<Longrightarrow> list_all status_ok (expire clock k sts)"
  by (induction sts arbitrary: k) (auto simp: status_ok_def)

lemma checkTaskTimeouts_ok:
  "coord_ok c \<Longrightarrow> coord_ok (checkTaskTimeouts clock c) \<and> files (checkTaskTimeouts clock c) = files c \<and>
     nReduce (checkTaskTimeouts clock c) = nReduce c"
  by (simp add: coord_ok_def checkTaskTimeouts_def expire_status_ok)

subsection \<open>Steps of the coordinator\<close>

text \<open>What can happen to the coordinator, in any order: its handlers and its timeout rounds.\<close>

inductive coord_step :: "Coordinator \<Rightarrow> Coordinator \<Rightarrow> bool" where
  assign: "AssignTask now c reply = Inr (c', t) \<Longrightarrow> coord_step c c'"
| report: "ReportTaskDone t c = Inr c' \<Longrightarrow> coord_step c c'"
| timeouts: "coord_step c (checkTaskTimeouts clock c)"
| ask_done: "coord_step c (fst (Done c))"

inductive_cases coord_stepE: "coord_step c c'"

lemma coord_step_ok: "coord_step c c' \<Longrightarrow> coord_ok c \<Longrightarrow> coord_ok c' \<and> files c' = files c \<and> nReduce c' = nReduce c"
proof (induction rule: coord_step.induct)
  case (ask_done c)
  then show ?case by (auto simp: Done_def coord_ok_def)
qed (use AssignTask_ok ReportTaskDone_ok checkTaskTimeouts_ok in blast)+

definition completed_le :: "TaskStatus list \<Rightarrow> TaskStatus list \<Rightarrow> bool" where
  "completed_le xs ys \<longleftrightarrow> length xs = length ys \<and> (\<forall>i<length xs. ts_Completed (xs ! i) \<longrightarrow> ts_Completed (ys ! i))"

lemma completed_le_refl [simp]: "completed_le xs xs"
  by (simp add: completed_le_def)

lemma completed_le_update: "(ts_Completed (xs ! i) \<Longrightarrow> ts_Completed v) \<Longrightarrow> completed_le xs (xs[i := v])"
  by (auto simp: completed_le_def nth_update_if)

lemma completed_le_expire: "completed_le xs (expire clock k xs)"
  by (simp add: completed_le_def nth_expire)

lemma completed_le_all: "completed_le xs ys \<Longrightarrow> list_all ts_Completed xs \<Longrightarrow> list_all ts_Completed ys"
  by (simp add: completed_le_def list_all_length)

lemma coord_step_monotone:
  assumes "coord_step c c'" and "coord_ok c"
  shows "completed_le (mapTaskStatus c) (mapTaskStatus c') \<and> completed_le (reduceTaskStatus c) (reduceTaskStatus c')"
  using assms
proof (cases rule: coord_step.cases)
  case (assign now reply t)
  from assms(2) show ?thesis
    by (cases rule: AssignTask_cases [of c now reply]) (use assign in \<open>auto intro!: completed_le_update simp: mark_def\<close>)
next
  case (report t)
  then show ?thesis
    by (auto simp: ReportTaskDone_def complete_at_def go_bind_eq_Inr slice_get_Inr slice_set_Inr
        intro!: completed_le_update split: if_splits)
next
  case (timeouts clock)
  then show ?thesis by (simp add: checkTaskTimeouts_def completed_le_expire)
next
  case ask_done
  then show ?thesis by (simp add: Done_def)
qed

subsection \<open>Properties\<close>

text \<open>
  C27. A coordinator made by \<open>MakeCoordinator\<close> keeps its invariant through any sequence of handler
  calls and timeout rounds: its task lists stay the ones it was made with (task \<open>i\<close> has id \<open>i\<close>, its
  file and the right number of files), there is one status per task, and no completed task is
  marked assigned.
\<close>

theorem coordinator_invariant:
  assumes "MakeCoordinator fs nr = Inr c" and "coord_step\<^sup>*\<^sup>* c c'"
  shows "coord_ok c' \<and> files c' = fs \<and> nReduce c' = nr"
  using assms(2)
proof (induction rule: rtranclp_induct)
  case base
  show ?case by (rule MakeCoordinator_ok [OF assms(1)])
next
  case (step d e)
  then show ?case using coord_step_ok by auto
qed

text \<open>A coordinator for one input file and one reduce task, and the same after its map task was handed out.\<close>

definition sample_coordinator :: Coordinator where
  "sample_coordinator =
     \<lparr>mapTasks = [map_task 1 0 ''f''], reduceTasks = [reduce_task 1 0],
      mapTaskStatus = [zeroStatus], reduceTaskStatus = [zeroStatus],
      nMap = 1, nReduce = 1, files = [''f''], completed = False, loggingEnabled = False\<rparr>"

lemma sample_coordinator_made: "MakeCoordinator [''f''] 1 = Inr sample_coordinator"
  by (simp add: MakeCoordinator_eq sample_coordinator_def)

lemma sample_coordinator_ok: "coord_ok sample_coordinator"
  using MakeCoordinator_ok [OF sample_coordinator_made] by blast

theorem coordinator_invariant_witness:
  "coord_ok (checkTaskTimeouts (\<lambda>_. 5) sample_coordinator)"
  using coordinator_invariant [OF sample_coordinator_made, of "checkTaskTimeouts (\<lambda>_. 5) sample_coordinator"]
    coord_step.timeouts [of sample_coordinator "\<lambda>_. 5"] by blast

text \<open>
  C5. What \<open>AssignTask\<close> answers, on every branch: it never panics; it hands out a map task that
  was neither assigned nor completed, or, only when all map tasks are completed, such a reduce
  task, and marks exactly that task as assigned now; it answers \<open>exit\<close> exactly when all tasks are
  completed; otherwise it answers \<open>wait\<close>, and then some assigned task is still unfinished, so that
  a report or a timeout will make progress.
\<close>

theorem AssignTask_answers:
  assumes "coord_ok c"
  shows "(\<exists>i<length (files c). \<not> ts_Completed (mapTaskStatus c ! i) \<and> \<not> ts_Assigned (mapTaskStatus c ! i) \<and>
       AssignTask now c reply = Inr
         (c\<lparr>mapTaskStatus := (mapTaskStatus c)[i := (mapTaskStatus c ! i)\<lparr>ts_Assigned := True, ts_StartTime := now\<rparr>]\<rparr>,
          map_task (nReduce c) i (files c ! i))) \<or>
    (allMapTasksDone c \<and> (\<exists>i<nat (nReduce c). \<not> ts_Completed (reduceTaskStatus c ! i) \<and>
       \<not> ts_Assigned (reduceTaskStatus c ! i) \<and>
       AssignTask now c reply = Inr
         (c\<lparr>reduceTaskStatus := (reduceTaskStatus c)[i := (reduceTaskStatus c ! i)\<lparr>ts_Assigned := True, ts_StartTime := now\<rparr>]\<rparr>,
          reduce_task (length (files c)) i))) \<or>
    (allMapTasksDone c \<and> allReduceTasksDone c \<and> AssignTask now c reply = Inr (c, reply\<lparr>t_TaskType := ''exit''\<rparr>)) \<or>
    (\<not> (allMapTasksDone c \<and> allReduceTasksDone c) \<and>
       (\<exists>st\<in>set (mapTaskStatus c) \<union> set (reduceTaskStatus c). ts_Assigned st \<and> \<not> ts_Completed st) \<and>
       AssignTask now c reply = Inr (c, reply\<lparr>t_TaskType := ''wait''\<rparr>))"
  using assms
proof (cases rule: AssignTask_cases [of c now reply])
  case (map i)
  then show ?thesis unfolding mark_def by blast
next
  case (reduce i)
  then show ?thesis unfolding mark_def by blast
qed blast+

theorem AssignTask_answers_witness:
  "AssignTask 7 sample_coordinator zeroTask =
     Inr (sample_coordinator\<lparr>mapTaskStatus := [zeroStatus\<lparr>ts_Assigned := True, ts_StartTime := 7\<rparr>]\<rparr>, map_task 1 0 ''f'')"
  using AssignTask_answers [OF sample_coordinator_ok, of 7 zeroTask]
  by (simp add: sample_coordinator_def zeroStatus_def allMapTasksDone_def)

text \<open>
  Completion is permanent: once \<open>Done\<close> answers \<open>true\<close> it answers \<open>true\<close> after any further
  handler calls and timeout rounds, late reports of duplicate tasks included.
\<close>

lemma Done_stable:
  assumes "coord_ok c" and "coord_step\<^sup>*\<^sup>* c c'" and "snd (Done c)"
  shows "snd (Done c')"
proof -
  have "coord_ok c' \<and> allMapTasksDone c' \<and> allReduceTasksDone c'"
    using assms(2)
  proof (induction rule: rtranclp_induct)
    case base
    show ?case using assms(1,3) by (simp add: Done_def split: if_splits)
  next
    case (step d e)
    then show ?case
      using coord_step_ok coord_step_monotone completed_le_all
      unfolding allMapTasksDone_def allReduceTasksDone_def by meson
  qed
  then show ?thesis by (simp add: Done_def)
qed

text \<open>
  A timeout round takes a task away from its worker exactly when the task is assigned, not
  completed, and was handed out more than ten seconds before; it changes nothing else.
\<close>

lemma checkTaskTimeouts_exact:
  assumes "i < length (mapTaskStatus c)" and "j < length (reduceTaskStatus c)"
  shows "mapTaskStatus (checkTaskTimeouts clock c) ! i =
      (if ts_Assigned (mapTaskStatus c ! i) \<and> \<not> ts_Completed (mapTaskStatus c ! i) \<and>
          clock i - ts_StartTime (mapTaskStatus c ! i) > 10000000000
       then (mapTaskStatus c ! i)\<lparr>ts_Assigned := False\<rparr> else mapTaskStatus c ! i) \<and>
    reduceTaskStatus (checkTaskTimeouts clock c) ! j =
      (if ts_Assigned (reduceTaskStatus c ! j) \<and> \<not> ts_Completed (reduceTaskStatus c ! j) \<and>
          clock (length (mapTaskStatus c) + j) - ts_StartTime (reduceTaskStatus c ! j) > 10000000000
       then (reduceTaskStatus c ! j)\<lparr>ts_Assigned := False\<rparr> else reduceTaskStatus c ! j)"
  using assms by (simp add: checkTaskTimeouts_def nth_expire taskTimeout_def)

end
