(* ===== verification/Mr_Worker.thy ===== *)
theory Mr_Worker
  imports Mr_Coordinator Go_Strings "HOL-Library.AList"
begin

text \<open>
  The worker of the distributed map/reduce (\<open>mr/worker.go\<close>) and the sequential program it is
  compared with (\<open>main/mrsequential.go\<close>). Files are a map from names to bytes. What the operating
  system may refuse and what \<open>encoding/json\<close> writes and reads are arguments of the definitions; the
  contract of the latter is the interface \<open>json_stream\<close>.
\<close>

unbundle bit_operations_syntax

subsection \<open>Key/value pairs and their bucket\<close>

record KeyValue =
  kvKey :: string
  kvValue :: string

text \<open>The 32-bit FNV-1a hash of \<open>hash/fnv\<close>.\<close>

definition fnv32a :: "string \<Rightarrow> 32 word" where
  "fnv32a s = foldl (\<lambda>h c. (h XOR of_nat (of_char c)) * 16777619) 2166136261 s"

definition ihash :: "string \<Rightarrow> int" where
  "ihash key = uint (fnv32a key AND 0x7fffffff)"

lemma ihash_bounds: "0 \<le> ihash key" "ihash key < 2 ^ 31"
proof -
  have "fnv32a key AND 0x7fffffff = take_bit 31 (fnv32a key)"
    by (simp add: take_bit_eq_mask mask_eq_exp_minus_1 and.commute)
  then have "ihash key = take_bit 31 (uint (fnv32a key))" by (simp add: ihash_def unsigned_take_bit_eq)
  then show "0 \<le> ihash key" "ihash key < 2 ^ 31"
    using take_bit_int_less_exp [of 31 "uint (fnv32a key)"] by simp_all
qed

subsection \<open>Files and the environment of a worker\<close>

type_synonym fs = "string \<rightharpoonup> string"

text \<open>
  \<open>js_encode kv\<close> is what \<open>Encode(&kv)\<close> writes; \<open>js_documents s\<close> are the values that successive calls
  of \<open>Decode\<close> deliver for the byte stream \<open>s\<close> before the first error or the end of the stream.
\<close>

record json =
  js_encode :: "KeyValue \<Rightarrow> string"
  js_documents :: "string \<Rightarrow> KeyValue list"

datatype connection = DialError | CallError | CallOk

record worker_env =
  os_create_ok :: "string \<Rightarrow> bool"
  os_write_ok :: "string \<Rightarrow> bool"
  range_order :: "string list \<Rightarrow> string list"
  request_conn :: connection
  request_now :: int
  notify_conn :: connection

record world =
  w_fs :: fs
  w_coord :: Coordinator

definition inter_name :: "int \<Rightarrow> int \<Rightarrow> string" where
  "inter_name m r = ''mr-'' @ itoa m @ ''-'' @ itoa r"

definition out_name :: "int \<Rightarrow> string" where
  "out_name r = ''mr-out-'' @ itoa r"

definition os_ReadFile :: "fs \<Rightarrow> string \<Rightarrow> string \<Rightarrow> string go" where
  "os_ReadFile fs name msg = (case fs name of None \<Rightarrow> Inl (LogFatal msg) | Some s \<Rightarrow> Inr s)"

definition os_Create :: "worker_env \<Rightarrow> string \<Rightarrow> string \<Rightarrow> fs \<Rightarrow> fs go" where
  "os_Create env name msg fs = (if os_create_ok env name then Inr (fs(name \<mapsto> [])) else Inl (LogFatal msg))"

text \<open>A write at the end of a file that is open for writing.\<close>

definition file_append :: "string \<Rightarrow> string \<Rightarrow> fs \<Rightarrow> fs" where
  "file_append name s fs = fs(name \<mapsto> (case fs name of None \<Rightarrow> [] | Some old \<Rightarrow> old) @ s)"

subsection \<open>The map task\<close>

text \<open>The loop that creates (and truncates) the intermediate files.\<close>

definition create_intermediate :: "worker_env \<Rightarrow> Task \<Rightarrow> fs \<Rightarrow> fs go" where
  "create_intermediate env task fs =
     (if t_NumOfFiles task < 0 then Inl MakeSliceLen
      else go_fold (\<lambda>i. os_Create env (inter_name (t_ID task) (int i)) ''Cannot create file'')
             [0..<nat (t_NumOfFiles task)] fs)"

text \<open>The body of the loop over the pairs: choose the bucket, encode the pair into its file.\<close>

definition encode_pair :: "json \<Rightarrow> worker_env \<Rightarrow> Task \<Rightarrow> KeyValue \<Rightarrow> fs \<Rightarrow> fs go" where
  "encode_pair js env task kv fs =
     (if t_NumOfFiles task = 0 then Inl DivideByZero
      else let bucket = ihash (kvKey kv) mod t_NumOfFiles task;
               name = inter_name (t_ID task) bucket
           in if bucket < 0 \<or> bucket \<ge> t_NumOfFiles task then Inl IndexOutOfRange
              else if os_write_ok env name then Inr (file_append name (js_encode js kv) fs)
              else Inl (LogFatal ''Cannot write to intermediate file''))"

definition map_files ::
    "json \<Rightarrow> worker_env \<Rightarrow> (string \<Rightarrow> string \<Rightarrow> KeyValue list) \<Rightarrow> Task \<Rightarrow> fs \<Rightarrow> fs go" where
  "map_files js env mapf task fs =
     go_bind (os_ReadFile fs (t_File task) ''Cannot read file'') (\<lambda>content.
     let kva = mapf (t_File task) content in
     go_bind (create_intermediate env task fs) (\<lambda>fs1.
     go_fold (encode_pair js env task) kva fs1))"

definition NotifyTaskDone :: "worker_env \<Rightarrow> Task \<Rightarrow> world \<Rightarrow> world go" where
  "NotifyTaskDone env task w =
     (case notify_conn env of
        DialError \<Rightarrow> Inl (LogFatal ''dialing:'')
      | CallError \<Rightarrow> Inl (LogFatal ''Failed to notify coordinator about task completion'')
      | CallOk \<Rightarrow> go_bind (ReportTaskDone task (w_coord w)) (\<lambda>c. Inr (w\<lparr>w_coord := c\<rparr>)))"

definition ExecuteMapTask ::
    "json \<Rightarrow> worker_env \<Rightarrow> (string \<Rightarrow> string \<Rightarrow> KeyValue list) \<Rightarrow> Task \<Rightarrow> world \<Rightarrow> world go" where
  "ExecuteMapTask js env mapf task w =
     go_bind (map_files js env mapf task (w_fs w)) (\<lambda>fs'. NotifyTaskDone env task (w\<lparr>w_fs := fs'\<rparr>))"

subsection \<open>The reduce task\<close>

text \<open>\<open>intermediate[kv.Key] = append(intermediate[kv.Key], kv.Value)\<close>, the map as an association list.\<close>

definition group_add :: "KeyValue \<Rightarrow> (string \<times> string list) list \<Rightarrow> (string \<times> string list) list" where
  "group_add kv m =
     AList.update (kvKey kv) ((case map_of m (kvKey kv) of None \<Rightarrow> [] | Some vs \<Rightarrow> vs) @ [kvValue kv]) m"

text \<open>The body of the loop over the intermediate files.\<close>

definition collect_file ::
    "json \<Rightarrow> Task \<Rightarrow> fs \<Rightarrow> nat \<Rightarrow> (string \<times> string list) list \<Rightarrow> (string \<times> string list) list go" where
  "collect_file js task fs i m =
     go_bind (os_ReadFile fs (inter_name (int i) (t_ID task)) ''Cannot open file'') (\<lambda>s.
       Inr (fold group_add (js_documents js s) m))"

definition out_line :: "string \<Rightarrow> string \<Rightarrow> string" where
  "out_line key result = key @ '' '' @ result @ [CHR 0x0A]"

definition reduce_files ::
    "json \<Rightarrow> worker_env \<Rightarrow> (string \<Rightarrow> string list \<Rightarrow> string) \<Rightarrow> Task \<Rightarrow> fs \<Rightarrow> fs go" where
  "reduce_files js env reducef task fs =
     go_bind (go_fold (collect_file js task fs) [0..<nat (t_NumOfFiles task)] []) (\<lambda>intermediate.
     let name = out_name (t_ID task) in
     go_bind (os_Create env name ''Cannot create output file'' fs) (\<lambda>fs1.
     Inr (fold (\<lambda>key fs.
            let values = (case map_of intermediate key of None \<Rightarrow> [] | Some vs \<Rightarrow> vs);
                result = reducef key values
            in file_append name (out_line key result) fs)
          (range_order env (map fst intermediate)) fs1)))"

definition ExecuteReduceTask ::
    "json \<Rightarrow> worker_env \<Rightarrow> (string \<Rightarrow> string list \<Rightarrow> string) \<Rightarrow> Task \<Rightarrow> world \<Rightarrow> world go" where
  "ExecuteReduceTask js env reducef task w =
     go_bind (reduce_files js env reducef task (w_fs w)) (\<lambda>fs'. NotifyTaskDone env task (w\<lparr>w_fs := fs'\<rparr>))"

subsection \<open>The worker\<close>

definition RequestTask :: "worker_env \<Rightarrow> world \<Rightarrow> (world \<times> Task) go" where
  "RequestTask env w =
     (case request_conn env of
        DialError \<Rightarrow> Inl (LogFatal ''dialing:'')
      | CallError \<Rightarrow> Inl (LogFatal ''Failed to contact coordinator'')
      | CallOk \<Rightarrow> go_bind (AssignTask (request_now env) (w_coord w) zeroTask) (\<lambda>(c, reply).
          Inr (w\<lparr>w_coord := c\<rparr>, reply)))"

text \<open>One round of the loop of \<open>Worker\<close>; the flag says whether the loop goes on.\<close>

definition Worker_round ::
    "json \<Rightarrow> (string \<Rightarrow> string \<Rightarrow> KeyValue list) \<Rightarrow> (string \<Rightarrow> string list \<Rightarrow> string)
     \<Rightarrow> worker_env \<Rightarrow> world \<Rightarrow> (bool \<times> world) go" where
  "Worker_round js mapf reducef env w =
     go_bind (RequestTask env w) (\<lambda>(w1, task).
       if t_TaskType task = ''map'' then
         go_bind (ExecuteMapTask js env mapf task w1) (\<lambda>w2. Inr (True, w2))
       else if t_TaskType task = ''reduce'' then
         go_bind (ExecuteReduceTask js env reducef task w1) (\<lambda>w2. Inr (True, w2))
       else if t_TaskType task = ''wait'' then Inr (True, w1)
       else if t_TaskType task = ''exit'' then Inr (False, w1)
       else Inr (True, w1))"

text \<open>\<open>Worker\<close>: \<open>envs k\<close> is what round \<open>k\<close> meets; the result is \<open>None\<close> when the loop never ends.\<close>

partial_function (option) Worker ::
    "json \<Rightarrow> (string \<Rightarrow> string \<Rightarrow> KeyValue list) \<Rightarrow> (string \<Rightarrow> string list \<Rightarrow> string)
     \<Rightarrow> (nat \<Rightarrow> worker_env) \<Rightarrow> nat \<Rightarrow> world \<Rightarrow> world go_run" where
  "Worker js mapf reducef envs k w =
     (case Worker_round js mapf reducef (envs k) w of
        Inl p \<Rightarrow> Some (Inl p)
      | Inr (go_on, w') \<Rightarrow>
          if go_on then Worker js mapf reducef envs (Suc k) w' else Some (Inr w'))"

subsection \<open>The sequential program\<close>

definition ByKey_Less :: "KeyValue \<Rightarrow> KeyValue \<Rightarrow> bool" where
  "ByKey_Less a b \<longleftrightarrow> kvKey a < kvKey b"

text \<open>The loop that reads the input files and accumulates the map output.\<close>

definition seq_map ::
    "(string \<Rightarrow> string \<Rightarrow> KeyValue list) \<Rightarrow> fs \<Rightarrow> string \<Rightarrow> KeyValue list \<Rightarrow> KeyValue list go" where
  "seq_map mapf fs filename acc =
     go_bind (os_ReadFile fs filename ''cannot open'') (\<lambda>content. Inr (acc @ mapf filename content))"

text \<open>The loop that calls \<open>reducef\<close> on each run of equal keys.\<close>

function seq_reduce :: "(string \<Rightarrow> string list \<Rightarrow> string) \<Rightarrow> KeyValue list \<Rightarrow> string" where
  "seq_reduce reducef [] = []"
| "seq_reduce reducef (kv # rest) =
     (let same = takeWhile (\<lambda>x. kvKey x = kvKey kv) rest;
          values = map kvValue (kv # same);
          output = reducef (kvKey kv) values
      in out_line (kvKey kv) output @ seq_reduce reducef (dropWhile (\<lambda>x. kvKey x = kvKey kv) rest))"
  by pat_completeness auto
termination
  by (relation "measure (\<lambda>(_, kvs). length kvs)") (auto simp: le_imp_less_Suc length_dropWhile_le)

text \<open>
  \<open>main\<close> of mrsequential.go on the input files \<open>names\<close>. The error of creating \<open>mr-out-0\<close> is ignored by
  the code; the model is for the case that the file can be created.
\<close>

definition mrsequential ::
    "(KeyValue list \<Rightarrow> KeyValue list) \<Rightarrow> (string \<Rightarrow> string \<Rightarrow> KeyValue list)
     \<Rightarrow> (string \<Rightarrow> string list \<Rightarrow> string) \<Rightarrow> string list \<Rightarrow> fs \<Rightarrow> fs go" where
  "mrsequential sortByKey mapf reducef names fs =
     go_bind (go_fold (seq_map mapf fs) names []) (\<lambda>intermediate.
       Inr (fs(''mr-out-0'' \<mapsto> seq_reduce reducef (sortByKey intermediate))))"

end
