(* ===== verification/Mr_Effects.thy ===== *)
theory Mr_Effects
  imports Mr_Worker
begin

text \<open>
  What the tasks of the distributed map/reduce do to the files: a map task puts every pair into
  the file of its bucket, a reduce task writes one line for each key of its bucket. The interface
  \<open>json_stream\<close> states what the worker relies on from \<open>encoding/json\<close>.
\<close>

subsection \<open>File names\<close>

lemma inter_name_inject [simp]:
  "inter_name (int i) (int b) = inter_name (int i') (int b') \<longleftrightarrow> i = i' \<and> b = b'"
proof
  assume "inter_name (int i) (int b) = inter_name (int i') (int b')"
  then have "digits i @ CHR ''-'' # digits b = digits i' @ CHR ''-'' # digits b'"
    by (simp add: inter_name_def itoa_int)
  then have "digits i = digits i' \<and> digits b = digits b'"
    using append_Cons_eq_iff [of "CHR ''-''" "digits i" "digits b" "digits i'" "digits b'"] digits_no_dash by auto
  then show "i = i' \<and> b = b'" by simp
qed simp

lemma out_name_inject [simp]: "out_name (int b) = out_name (int b') \<longleftrightarrow> b = b'"
  by (simp add: out_name_def itoa_int)

lemma out_name_not_inter [simp]: "out_name r \<noteq> inter_name (int i) b" "inter_name (int i) b \<noteq> out_name r"
proof -
  obtain c cs where c: "digits i = c # cs" using digits_nonempty [of i] by (cases "digits i") auto
  then have "c \<noteq> CHR ''o''" using digits_chars [of c i] by auto
  with c show "out_name r \<noteq> inter_name (int i) b" "inter_name (int i) b \<noteq> out_name r"
    by (auto simp: out_name_def inter_name_def itoa_int)
qed

subsection \<open>The map task\<close>

definition bucket :: "nat \<Rightarrow> nat \<Rightarrow> KeyValue list \<Rightarrow> KeyValue list" where
  "bucket n b kvs = filter (\<lambda>kv. ihash (kvKey kv) mod int n = int b) kvs"

definition encoded :: "json \<Rightarrow> KeyValue list \<Rightarrow> string" where
  "encoded js kvs = concat (map (js_encode js) kvs)"

lemma create_fold_effect:
  "go_fold (\<lambda>b. os_Create env (inter_name (int i) (int b)) msg) [0..<k] fs = Inr fs' \<Longrightarrow>
   (\<forall>b<k. fs' (inter_name (int i) (int b)) = Some []) \<and>
   (\<forall>name. (\<forall>b<k. name \<noteq> inter_name (int i) (int b)) \<longrightarrow> fs' name = fs name)"
proof (induction k arbitrary: fs')
  case (Suc k)
  then obtain fs1 where fs1: "go_fold (\<lambda>b. os_Create env (inter_name (int i) (int b)) msg) [0..<k] fs = Inr fs1"
    and "os_Create env (inter_name (int i) (int k)) msg fs1 = Inr fs'"
    by (auto simp: go_bind_eq_Inr)
  then have "fs' = fs1(inter_name (int i) (int k) \<mapsto> [])" by (simp add: os_Create_def split: if_splits)
  with Suc.IH [OF fs1] show ?case by (auto simp: less_Suc_eq)
qed simp

lemma encode_fold_effect:
  assumes "0 < n"
  shows "go_fold (encode_pair js env (map_task (int n) i f)) kva fs = Inr fs' \<Longrightarrow>
     \<forall>b<n. fs (inter_name (int i) (int b)) \<noteq> None \<Longrightarrow>
     (\<forall>b<n. fs' (inter_name (int i) (int b)) =
        Some (the (fs (inter_name (int i) (int b))) @ encoded js (bucket n b kva))) \<and>
     (\<forall>name. (\<forall>b<n. name \<noteq> inter_name (int i) (int b)) \<longrightarrow> fs' name = fs name)"
proof (induction kva arbitrary: fs)
  case Nil
  then show ?case by (simp add: bucket_def encoded_def)
next
  case (Cons kv kva)
  define b0 where "b0 = nat (ihash (kvKey kv) mod int n)"
  have b0: "ihash (kvKey kv) mod int n = int b0" "b0 < n" using assms by (simp_all add: b0_def nat_less_iff)
  from Cons.prems(1) obtain fs1 where fs1: "encode_pair js env (map_task (int n) i f) kv fs = Inr fs1"
    "go_fold (encode_pair js env (map_task (int n) i f)) kva fs1 = Inr fs'" by (auto simp: go_bind_eq_Inr)
  then have eq: "fs1 = file_append (inter_name (int i) (int b0)) (js_encode js kv) fs"
    using b0 assms by (auto simp: encode_pair_def map_task_def Let_def split: if_splits)
  then have "\<forall>b<n. fs1 (inter_name (int i) (int b)) \<noteq> None" using Cons.prems(2) by (simp add: file_append_def)
  from Cons.IH [OF fs1(2) this] show ?case
    using eq b0 Cons.prems(2)
    by (auto simp: file_append_def bucket_def encoded_def split: option.splits)
qed

lemma map_files_effect:
  assumes "map_files js env mapf (map_task (int n) i f) fs = Inr fs'" and "0 < n"
  obtains content where "fs f = Some content"
    "\<And>b. b < n \<Longrightarrow> fs' (inter_name (int i) (int b)) = Some (encoded js (bucket n b (mapf f content)))"
    "\<And>name. (\<forall>b<n. name \<noteq> inter_name (int i) (int b)) \<Longrightarrow> fs' name = fs name"
proof -
  from assms(1) obtain content fs1 where c: "fs f = Some content"
    and "create_intermediate env (map_task (int n) i f) fs = Inr fs1"
    and e: "go_fold (encode_pair js env (map_task (int n) i f)) (mapf f content) fs1 = Inr fs'"
    by (auto simp: map_files_def go_bind_eq_Inr os_ReadFile_def map_task_def split: option.splits)
  then have cr: "go_fold (\<lambda>b. os_Create env (inter_name (int i) (int b)) ''Cannot create file'') [0..<n] fs = Inr fs1"
    by (simp add: create_intermediate_def map_task_def)
  note cre = create_fold_effect [OF cr]
  then have "\<forall>b<n. fs1 (inter_name (int i) (int b)) \<noteq> None" by simp
  note enc = encode_fold_effect [OF assms(2) e this]
  show thesis
  proof (rule that [OF c])
    fix b assume "b < n"
    with cre enc show "fs' (inter_name (int i) (int b)) = Some (encoded js (bucket n b (mapf f content)))" by simp
  next
    fix name assume "\<forall>b<n. name \<noteq> inter_name (int i) (int b)"
    with cre enc show "fs' name = fs name" by simp
  qed
qed

lemma map_files_total:
  assumes "\<And>name. os_create_ok env name" "\<And>name. os_write_ok env name" "fs f = Some content" "0 < n"
  shows "\<exists>fs'. map_files js env mapf (map_task (int n) i f) fs = Inr fs'"
proof -
  have "create_intermediate env (map_task (int n) i f) fs =
      Inr (fold (\<lambda>b fs. fs(inter_name (int i) (int b) \<mapsto> [])) [0..<n] fs)"
    using go_fold_total [of "[0..<n]" "\<lambda>b. os_Create env (inter_name (int i) (int b)) ''Cannot create file''"
        "\<lambda>b fs. fs(inter_name (int i) (int b) \<mapsto> [])" fs] assms(1)
    by (simp add: create_intermediate_def map_task_def os_Create_def)
  moreover have "encode_pair js env (map_task (int n) i f) kv fs1 =
      Inr (file_append (inter_name (int i) (ihash (kvKey kv) mod int n)) (js_encode js kv) fs1)" for kv fs1
  proof -
    have "0 \<le> ihash (kvKey kv) mod int n" "ihash (kvKey kv) mod int n < int n" using assms(4) by simp_all
    then show ?thesis using assms(2,4) by (simp add: encode_pair_def map_task_def Let_def not_le not_less)
  qed
  ultimately show ?thesis
    using assms(3) go_fold_total [of "mapf f content" "encode_pair js env (map_task (int n) i f)"]
    by (auto simp: map_files_def os_ReadFile_def map_task_def)
qed

subsection \<open>The reduce task\<close>

definition key_set :: "KeyValue list \<Rightarrow> string set" where
  "key_set kvs = kvKey ` set kvs"

definition values_of :: "string \<Rightarrow> KeyValue list \<Rightarrow> string list" where
  "values_of k kvs = map kvValue (filter (\<lambda>kv. kvKey kv = k) kvs)"

definition grouped :: "KeyValue list \<Rightarrow> (string \<times> string list) list \<Rightarrow> bool" where
  "grouped kvs m \<longleftrightarrow>
     distinct (map fst m) \<and> (\<forall>k. map_of m k = (if k \<in> key_set kvs then Some (values_of k kvs) else None))"

lemma group_add_grouped: "grouped kvs m \<Longrightarrow> grouped (kvs @ [kv]) (group_add kv m)"
proof -
  assume g: "grouped kvs m"
  have none: "values_of k kvs = []" if "k \<notin> key_set kvs" for k
    using that by (force simp: values_of_def key_set_def filter_empty_conv)
  from g show ?thesis
    by (auto simp: grouped_def group_add_def distinct_update update_conv' key_set_def values_of_def
        none [unfolded key_set_def values_of_def])
qed

lemma fold_group_grouped: "grouped xs m \<Longrightarrow> grouped (xs @ ys) (fold group_add ys m)"
proof (induction ys arbitrary: xs m)
  case (Cons y ys)
  from Cons.IH [OF group_add_grouped [OF Cons.prems]] show ?case by simp
qed simp

lemma grouped_keys:
  assumes "grouped kvs m"
  shows "distinct (map fst m)" "set (map fst m) = key_set kvs"
proof -
  show "distinct (map fst m)" using assms by (simp add: grouped_def)
  have "k \<in> dom (map_of m) \<longleftrightarrow> k \<in> key_set kvs" for k
    unfolding domIff using assms by (simp add: grouped_def)
  then have "dom (map_of m) = key_set kvs" by blast
  then show "set (map fst m) = key_set kvs" by (simp add: dom_map_of_conv_image_fst)
qed

lemma collect_effect:
  "go_fold (collect_file js (reduce_task nf b) fs) is m = Inr m' \<Longrightarrow> grouped kvs m \<Longrightarrow>
   (\<forall>i\<in>set is. fs (inter_name (int i) (int b)) \<noteq> None) \<and>
   grouped (kvs @ concat (map (\<lambda>i. js_documents js (the (fs (inter_name (int i) (int b))))) is)) m'"
proof (induction "is" arbitrary: m kvs)
  case (Cons i "is")
  have step: "collect_file js (reduce_task nf b) fs i m = (case fs (inter_name (int i) (int b)) of
      None \<Rightarrow> Inl (LogFatal ''Cannot open file'') | Some s \<Rightarrow> Inr (fold group_add (js_documents js s) m))"
    by (simp add: collect_file_def os_ReadFile_def reduce_task_def split: option.splits)
  from Cons.prems(1) obtain s where s: "fs (inter_name (int i) (int b)) = Some s"
    and "go_fold (collect_file js (reduce_task nf b) fs) is (fold group_add (js_documents js s) m) = Inr m'"
    by (auto simp: go_bind_eq_Inr step split: option.splits)
  from Cons.IH [OF this(2) fold_group_grouped [OF Cons.prems(2)]] s show ?case by simp
qed simp

lemma collect_total:
  "\<forall>i\<in>set is. fs (inter_name (int i) (int b)) \<noteq> None \<Longrightarrow>
   \<exists>m'. go_fold (collect_file js (reduce_task nf b) fs) is m = Inr m'"
proof (induction "is" arbitrary: m)
  case (Cons i "is")
  then obtain s where "fs (inter_name (int i) (int b)) = Some s" by auto
  with Cons show ?case by (auto simp: collect_file_def os_ReadFile_def reduce_task_def)
qed simp

definition lines_for :: "(string \<Rightarrow> string list \<Rightarrow> string) \<Rightarrow> KeyValue list \<Rightarrow> string list \<Rightarrow> string list" where
  "lines_for reducef kvs ks = map (\<lambda>k. out_line k (reducef k (values_of k kvs))) ks"

lemma write_lines:
  assumes "fs name = Some s"
  shows "fold (\<lambda>k fs. file_append name (g k) fs) ks fs = fs(name \<mapsto> s @ concat (map g ks))"
  using assms
proof (induction ks arbitrary: fs s)
  case (Cons k ks)
  have step: "file_append name (g k) fs = fs(name \<mapsto> s @ g k)" using Cons.prems by (simp add: file_append_def)
  have "fold (\<lambda>k fs. file_append name (g k) fs) (k # ks) fs =
      fold (\<lambda>k fs. file_append name (g k) fs) ks (fs(name \<mapsto> s @ g k))" by (simp only: fold_Cons comp_apply step)
  also have "\<dots> = (fs(name \<mapsto> s @ g k))(name \<mapsto> (s @ g k) @ concat (map g ks))" by (rule Cons.IH) simp
  also have "\<dots> = fs(name \<mapsto> s @ concat (map g (k # ks)))" by (simp only: fun_upd_upd append_assoc list.map concat.simps)
  finally show ?case .
qed auto

lemma reduce_files_effect:
  assumes "reduce_files js env reducef (reduce_task nf b) fs = Inr fs'"
    and perm: "\<And>xs. mset (range_order env xs) = mset xs"
    and kvs: "kvs = concat (map (\<lambda>i. js_documents js (the (fs (inter_name (int i) (int b))))) [0..<nf])"
  obtains ks where "distinct ks" "set ks = key_set kvs"
    "fs' = fs(out_name (int b) \<mapsto> concat (lines_for reducef kvs ks))"
    "\<And>i. i < nf \<Longrightarrow> fs (inter_name (int i) (int b)) \<noteq> None"
proof -
  have "grouped [] []" by (simp add: grouped_def key_set_def)
  moreover from assms(1) obtain m where
    m: "go_fold (collect_file js (reduce_task nf b) fs) [0..<nf] [] = Inr m"
    by (auto simp: reduce_files_def go_bind_eq_Inr reduce_task_def)
  ultimately have g: "grouped kvs m" and ex: "\<forall>i<nf. fs (inter_name (int i) (int b)) \<noteq> None"
    using collect_effect [of js nf b fs "[0..<nf]" "[]" m "[]"] kvs by auto
  define ks where "ks = range_order env (map fst m)"
  have ks: "distinct ks" "set ks = key_set kvs"
    using grouped_keys [OF g] perm [of "map fst m"] mset_eq_setD mset_eq_imp_distinct_iff
    unfolding ks_def by (metis, metis)
  have vals: "(case map_of m k of None \<Rightarrow> [] | Some vs \<Rightarrow> vs) = values_of k kvs" if "k \<in> set ks" for k
    using g that ks(2) by (simp add: grouped_def)
  let ?name = "out_name (int b)"
  have "fs' = fold (\<lambda>k fs. file_append ?name (out_line k (reducef k
        (case map_of m k of None \<Rightarrow> [] | Some vs \<Rightarrow> vs))) fs) ks (fs(?name \<mapsto> []))"
    using assms(1) m unfolding ks_def
    by (auto simp: reduce_files_def go_bind_eq_Inr reduce_task_def os_Create_def Let_def split: if_splits)
  also have "\<dots> = fs(?name \<mapsto> concat (map (\<lambda>k. out_line k (reducef k
        (case map_of m k of None \<Rightarrow> [] | Some vs \<Rightarrow> vs))) ks))"
    by (subst write_lines [of _ _ "[]"]) simp_all
  also have "map (\<lambda>k. out_line k (reducef k (case map_of m k of None \<Rightarrow> [] | Some vs \<Rightarrow> vs))) ks =
      lines_for reducef kvs ks"
    using vals by (simp add: lines_for_def)
  finally show thesis using that ks ex by blast
qed

lemma reduce_files_total:
  assumes "\<And>name. os_create_ok env name" and "\<And>i. i < nf \<Longrightarrow> fs (inter_name (int i) (int b)) \<noteq> None"
  shows "\<exists>fs'. reduce_files js env reducef (reduce_task nf b) fs = Inr fs'"
proof -
  obtain m where "go_fold (collect_file js (reduce_task nf b) fs) [0..<nf] [] = Inr m"
    using collect_total [of "[0..<nf]" fs b js nf "[]"] assms(2) by auto
  then show ?thesis using assms(1) by (simp add: reduce_files_def reduce_task_def os_Create_def Let_def)
qed

end
