(* ===== verification/Json_Stream.thy ===== *)
theory Json_Stream
  imports Mr_Effects
begin

text \<open>
  What the worker relies on from \<open>encoding/json\<close>, as an interface, and a codec that provides it: each
  pair is one JSON object on a line of its own, with quotes, backslashes and control characters
  escaped.
\<close>

subsection \<open>The interface to encoding/json\<close>

text \<open>\<open>utf8.ValidString\<close>.\<close>

definition valid_utf8 :: "string \<Rightarrow> bool" where
  "valid_utf8 s \<longleftrightarrow> (\<forall>(r, bs)\<in>set (runes s). r = RuneError \<longrightarrow> length bs \<noteq> 1)"

definition valid_pair :: "KeyValue \<Rightarrow> bool" where
  "valid_pair kv \<longleftrightarrow> valid_utf8 (kvKey kv) \<and> valid_utf8 (kvValue kv)"

text \<open>
  Documents written one after the other by an encoder are read back in order, provided their
  strings are valid UTF-8 (\<open>encoding/json\<close> replaces bytes that are not).
\<close>

locale json_stream =
  fixes js :: json
  assumes read_back: "\<forall>kv\<in>set kvs. valid_pair kv \<Longrightarrow> js_documents js (encoded js kvs) = kvs"

subsection \<open>A codec\<close>

definition quote :: char where "quote = CHR 0x22"
definition bslash :: char where "bslash = CHR 0x5C"

definition hex_digit :: "nat \<Rightarrow> char" where
  "hex_digit k = (if k < 10 then char_of (48 + k) else char_of (87 + k))"

definition unhex :: "char \<Rightarrow> nat" where
  "unhex c = (let k = of_char c in if k < 58 then k - 48 else k - 87)"

definition escape :: "char \<Rightarrow> string" where
  "escape c =
     (if c = quote \<or> c = bslash then [bslash, c]
      else if (of_char c :: nat) < 32 then bslash # ''u00'' @ [hex_digit (of_char c div 16), hex_digit (of_char c mod 16)]
      else [c])"

definition quoted :: "string \<Rightarrow> string" where
  "quoted s = quote # concat (map escape s) @ [quote]"

definition json_object :: "KeyValue \<Rightarrow> string" where
  "json_object kv =
     ''{'' @ quoted ''Key'' @ '':'' @ quoted (kvKey kv) @ '','' @ quoted ''Value'' @ '':'' @ quoted (kvValue kv) @ ''}'' @ [CHR 0x0A]"

text \<open>Reading the rest of a string literal: its value and what follows the closing quote.\<close>

fun unquote :: "string \<Rightarrow> (string \<times> string) option" where
  "unquote [] = None"
| "unquote (c # cs) =
     (if c = quote then Some ([], cs)
      else if c = bslash then
        (case cs of
           CHR ''u'' # _ # _ # h # l # rest \<Rightarrow>
             map_option (\<lambda>(s, r). (char_of (16 * unhex h + unhex l) # s, r)) (unquote rest)
         | d # rest \<Rightarrow> map_option (\<lambda>(s, r). (d # s, r)) (unquote rest)
         | [] \<Rightarrow> None)
      else map_option (\<lambda>(s, r). (c # s, r)) (unquote cs))"

definition expect :: "string \<Rightarrow> string \<Rightarrow> string option" where
  "expect p s = (if take (length p) s = p then Some (drop (length p) s) else None)"

definition read_object :: "string \<Rightarrow> (KeyValue \<times> string) option" where
  "read_object s =
     Option.bind (expect (''{'' @ quoted ''Key'' @ '':'' @ [quote]) s) (\<lambda>s1.
     Option.bind (unquote s1) (\<lambda>(k, s2).
     Option.bind (expect ('','' @ quoted ''Value'' @ '':'' @ [quote]) s2) (\<lambda>s3.
     Option.bind (unquote s3) (\<lambda>(v, s4).
     Option.bind (expect (''}'' @ [CHR 0x0A]) s4) (\<lambda>s5. Some (\<lparr>kvKey = k, kvValue = v\<rparr>, s5))))))"

fun read_objects :: "nat \<Rightarrow> string \<Rightarrow> KeyValue list" where
  "read_objects 0 s = []"
| "read_objects (Suc k) s =
     (case read_object s of None \<Rightarrow> [] | Some (kv, rest) \<Rightarrow> kv # read_objects k rest)"

definition line_json :: json where
  "line_json = \<lparr>js_encode = json_object, js_documents = (\<lambda>s. read_objects (length s) s)\<rparr>"

lemma unhex_hex: "k < 16 \<Longrightarrow> unhex (hex_digit k) = k"
  by (simp add: unhex_def hex_digit_def of_char_of Let_def)

lemma unquote_escape: "unquote (escape c @ rest) = map_option (\<lambda>(s, r). (c # s, r)) (unquote rest)"
proof -
  have "(of_char c :: nat) < 32 \<Longrightarrow> of_char c div 16 < (16 :: nat)" by auto
  then have "(of_char c :: nat) < 32 \<Longrightarrow>
      char_of (16 * unhex (hex_digit (of_char c div 16)) + unhex (hex_digit (of_char c mod 16))) = c"
    by (simp add: unhex_hex)
  then show ?thesis by (auto simp: escape_def quote_def bslash_def)
qed

lemma unquote_quoted: "unquote (concat (map escape s) @ quote # rest) = Some (s, rest)"
  by (induction s) (simp_all add: unquote_escape)

lemma expect_append: "expect p (p @ s) = Some s"
  by (simp add: expect_def)

lemma read_json_object: "read_object (json_object kv @ rest) = Some (kv, rest)"
proof -
  let ?p = "''{'' @ quoted ''Key'' @ '':'' @ [quote]" and ?m = "'','' @ quoted ''Value'' @ '':'' @ [quote]"
  have "json_object kv @ rest = ?p @ concat (map escape (kvKey kv)) @ quote # ?m @
      concat (map escape (kvValue kv)) @ quote # (''}'' @ [CHR 0x0A]) @ rest"
    by (simp add: json_object_def quoted_def)
  then show ?thesis
    unfolding read_object_def by (simp only: expect_append unquote_quoted bind.bind_lunit case_prod_conv) simp
qed

lemma read_encoded: "length kvs \<le> k \<Longrightarrow> read_objects k (concat (map json_object kvs)) = kvs"
proof (induction kvs arbitrary: k)
  case Nil
  have "read_object [] = None" by (simp add: read_object_def expect_def)
  then show ?case by (cases k) simp_all
next
  case (Cons kv kvs)
  then obtain k' where "k = Suc k'" "length kvs \<le> k'" by (cases k) auto
  with Cons.IH show ?case by (simp add: read_json_object)
qed

lemma length_json_object: "length kvs \<le> length (concat (map json_object kvs))"
proof (induction kvs)
  case (Cons kv kvs)
  have "1 \<le> length (json_object kv)" by (simp add: json_object_def)
  with Cons show ?case by simp
qed simp

interpretation line: json_stream line_json
  by unfold_locales (simp add: line_json_def encoded_def read_encoded [OF length_json_object])

end
