(* ===== verification/Mr_System.thy ===== *)
theory Mr_System
  imports Json_Stream
begin

text \<open>
  The distributed map/reduce as a whole: one coordinator, any number of workers, and a shared
  directory. A step is a handler call, the execution of a task, a report, a timeout round, or the
  death of a worker; the invariant gives the contents of the files of all completed tasks, and the
  main result compares the finished job with \<open>main/mrsequential.go\<close>. Executing a task is one step,
  so two workers never interleave their writes to one file; what happens when they do is stated
  at the end.
\<close>

subsection \<open>Steps\<close>

record mr_state =
  s_fs :: fs
  s_coord :: Coordinator
  s_running :: "Task multiset"
  s_reporting :: "Task multiset"

definition is_work :: "Task \<Rightarrow> bool" where
  "is_work t \<longleftrightarrow> t_TaskType t = ''map'' \<or> t_TaskType t = ''reduce''"

definition not_finished :: "mr_state \<Rightarrow> Task \<Rightarrow> bool" where
  "not_finished s t \<longleftrightarrow>
     t \<notin># s_reporting s \<and>
     (t_TaskType t = ''map'' \<longrightarrow> \<not> ts_Completed (mapTaskStatus (s_coord s) ! nat (t_ID t))) \<and>
     (t_TaskType t = ''reduce'' \<longrightarrow> \<not> ts_Completed (reduceTaskStatus (s_coord s) ! nat (t_ID t)))"

text \<open>
  \<open>s_running\<close> holds the tasks that live workers have received and not executed yet, \<open>s_reporting\<close>
  those they have executed and not reported yet. A worker may die at any of these points; it may
  also die in the middle of a task, leaving arbitrary contents in the files of the task, as long
  as the task has not been finished by another worker.
\<close>

inductive mr_step ::
    "json \<Rightarrow> (string \<Rightarrow> string \<Rightarrow> KeyValue list) \<Rightarrow> (string \<Rightarrow> string list \<Rightarrow> string)
     \<Rightarrow> mr_state \<Rightarrow> mr_state \<Rightarrow> bool"
  for js mapf reducef where
  request: "AssignTask now (s_coord s) zeroTask = Inr (c', t) \<Longrightarrow>
    mr_step js mapf reducef s (s\<lparr>s_coord := c',
      s_running := (if is_work t then add_mset t (s_running s) else s_running s)\<rparr>)"
| run_map: "t \<in># s_running s \<Longrightarrow> t_TaskType t = ''map'' \<Longrightarrow> map_files js env mapf t (s_fs s) = Inr fs' \<Longrightarrow>
    mr_step js mapf reducef s (s\<lparr>s_fs := fs', s_running := s_running s - {#t#},
      s_reporting := add_mset t (s_reporting s)\<rparr>)"
| run_reduce: "t \<in># s_running s \<Longrightarrow> t_TaskType t = ''reduce'' \<Longrightarrow> (\<And>xs. mset (range_order env xs) = mset xs) \<Longrightarrow>
    reduce_files js env reducef t (s_fs s) = Inr fs' \<Longrightarrow>
    mr_step js mapf reducef s (s\<lparr>s_fs := fs', s_running := s_running s - {#t#},
      s_reporting := add_mset t (s_reporting s)\<rparr>)"
| report: "t \<in># s_reporting s \<Longrightarrow> ReportTaskDone t (s_coord s) = Inr c' \<Longrightarrow>
    mr_step js mapf reducef s (s\<lparr>s_coord := c', s_reporting := s_reporting s - {#t#}\<rparr>)"
| timeouts: "mr_step js mapf reducef s (s\<lparr>s_coord := checkTaskTimeouts clock (s_coord s)\<rparr>)"
| die: "t \<in># s_running s \<Longrightarrow> mr_step js mapf reducef s (s\<lparr>s_running := s_running s - {#t#}\<rparr>)"
| die_before_report: "t \<in># s_reporting s \<Longrightarrow>
    mr_step js mapf reducef s (s\<lparr>s_reporting := s_reporting s - {#t#}\<rparr>)"
| die_in_map: "t \<in># s_running s \<Longrightarrow> t_TaskType t = ''map'' \<Longrightarrow> not_finished s t \<Longrightarrow>
    (\<And>name. (\<forall>b. name \<noteq> inter_name (t_ID t) (int b)) \<Longrightarrow> fs' name = s_fs s name) \<Longrightarrow>
    mr_step js mapf reducef s (s\<lparr>s_fs := fs', s_running := s_running s - {#t#}\<rparr>)"
| die_in_reduce: "t \<in># s_running s \<Longrightarrow> t_TaskType t = ''reduce'' \<Longrightarrow> not_finished s t \<Longrightarrow>
    (\<And>name. name \<noteq> out_name (t_ID t) \<Longrightarrow> fs' name = s_fs s name) \<Longrightarrow>
    mr_step js mapf reducef s (s\<lparr>s_fs := fs', s_running := s_running s - {#t#}\<rparr>)"

definition mr_init :: "fs \<Rightarrow> Coordinator \<Rightarrow> mr_state" where
  "mr_init fs c = \<lparr>s_fs = fs, s_coord = c, s_running = {#}, s_reporting = {#}\<rparr>"

subsection \<open>What the job should compute\<close>

definition generated :: "string \<Rightarrow> bool" where
  "generated name \<longleftrightarrow> (\<exists>i b. name = inter_name (int i) (int b)) \<or> (\<exists>b. name = out_name (int b))"

definition map_output ::
    "(string \<Rightarrow> string \<Rightarrow> KeyValue list) \<Rightarrow> fs \<Rightarrow> string list \<Rightarrow> nat \<Rightarrow> KeyValue list" where
  "map_output mapf fs0 names i = mapf (names ! i) (the (fs0 (names ! i)))"

definition all_output :: "(string \<Rightarrow> string \<Rightarrow> KeyValue list) \<Rightarrow> fs \<Rightarrow> string list \<Rightarrow> KeyValue list" where
  "all_output mapf fs0 names = concat (map (map_output mapf fs0 names) [0..<length names])"

text \<open>
  A job the workers can do: there is a reduce task, the input files exist and are not named like
  the files the job creates, and the map function yields valid UTF-8.
\<close>

definition job_ok :: "(string \<Rightarrow> string \<Rightarrow> KeyValue list) \<Rightarrow> fs \<Rightarrow> string list \<Rightarrow> nat \<Rightarrow> bool" where
  "job_ok mapf fs0 names n \<longleftrightarrow>
     0 < n \<and> (\<forall>f\<in>set names. fs0 f \<noteq> None \<and> \<not> generated f) \<and>
     (\<forall>kv\<in>set (all_output mapf fs0 names). valid_pair kv)"

definition map_written ::
    "json \<Rightarrow> (string \<Rightarrow> string \<Rightarrow> KeyValue list) \<Rightarrow> fs \<Rightarrow> string list \<Rightarrow> nat \<Rightarrow> fs \<Rightarrow> nat \<Rightarrow> bool" where
  "map_written js mapf fs0 names n fs i \<longleftrightarrow>
     (\<forall>b<n. fs (inter_name (int i) (int b)) = Some (encoded js (bucket n b (map_output mapf fs0 names i))))"

definition reduce_written ::
    "(string \<Rightarrow> string \<Rightarrow> KeyValue list) \<Rightarrow> (string \<Rightarrow> string list \<Rightarrow> string) \<Rightarrow> fs \<Rightarrow> string list \<Rightarrow> nat
     \<Rightarrow> fs \<Rightarrow> nat \<Rightarrow> bool" where
  "reduce_written mapf reducef fs0 names n fs b \<longleftrightarrow>
     (\<exists>ks. distinct ks \<and> set ks = key_set (bucket n b (all_output mapf fs0 names)) \<and>
        fs (out_name (int b)) = Some (concat (lines_for reducef (bucket n b (all_output mapf fs0 names)) ks)))"

definition task_ok :: "string list \<Rightarrow> nat \<Rightarrow> Coordinator \<Rightarrow> Task \<Rightarrow> bool" where
  "task_ok names n c t \<longleftrightarrow>
     (\<exists>i<length names. t = map_task (int n) i (names ! i)) \<or>
     (allMapTasksDone c \<and> (\<exists>b<n. t = reduce_task (length names) b))"

subsection \<open>The invariant of the system\<close>

definition mr_inv ::
    "json \<Rightarrow> (string \<Rightarrow> string \<Rightarrow> KeyValue list) \<Rightarrow> (string \<Rightarrow> string list \<Rightarrow> string) \<Rightarrow> fs
     \<Rightarrow> string list \<Rightarrow> nat \<Rightarrow> mr_state \<Rightarrow> bool" where
  "mr_inv js mapf reducef fs0 names n s \<longleftrightarrow>
     coord_ok (s_coord s) \<and> files (s_coord s) = names \<and> nReduce (s_coord s) = int n \<and>
     (\<forall>f\<in>set names. s_fs s f = fs0 f) \<and>
     (\<forall>t\<in>#s_running s + s_reporting s. task_ok names n (s_coord s) t) \<and>
     (\<forall>i<length names. ts_Completed (mapTaskStatus (s_coord s) ! i) \<or>
        map_task (int n) i (names ! i) \<in># s_reporting s \<longrightarrow> map_written js mapf fs0 names n (s_fs s) i) \<and>
     (\<forall>b<n. ts_Completed (reduceTaskStatus (s_coord s) ! b) \<or> reduce_task (length names) b \<in># s_reporting s \<longrightarrow>
        allMapTasksDone (s_coord s) \<and> reduce_written mapf reducef fs0 names n (s_fs s) b)"

lemma map_task_inject [simp]: "map_task n i f = map_task n j g \<longleftrightarrow> i = j \<and> f = g"
  by (auto simp: map_task_def)

lemma reduce_task_inject [simp]: "reduce_task m i = reduce_task m j \<longleftrightarrow> i = j"
  by (simp add: reduce_task_def)

lemma task_types [simp]:
  "t_TaskType (map_task n i f) = ''map''" "t_TaskType (reduce_task m b) = ''reduce''"
  "map_task n i f \<noteq> reduce_task m b" "reduce_task m b \<noteq> map_task n i f"
  "t_ID (map_task n i f) = int i" "t_ID (reduce_task m b) = int b"
  by (simp_all add: map_task_def reduce_task_def)

lemma mr_inv_init:
  assumes "MakeCoordinator names (int n) = Inr c"
  shows "mr_inv js mapf reducef fs0 names n (mr_init fs0 c)"
proof -
  from MakeCoordinator_ok [OF assms] have ok: "coord_ok c" "files c = names" "nReduce c = int n" by auto
  have "mapTaskStatus c = replicate (length names) zeroStatus" "reduceTaskStatus c = replicate n zeroStatus"
    using assms MakeCoordinator_eq [of "int n" names] by auto
  with ok show ?thesis by (simp add: mr_inv_def mr_init_def zeroStatus_def)
qed

lemma all_done_Completed:
  "map ts_Completed (mapTaskStatus c') = map ts_Completed (mapTaskStatus c) \<Longrightarrow>
   allMapTasksDone c' \<longleftrightarrow> allMapTasksDone c"
proof -
  have "allMapTasksDone d \<longleftrightarrow> list_all (\<lambda>b. b) (map ts_Completed (mapTaskStatus d))" for d
    by (simp add: allMapTasksDone_def list.pred_map comp_def)
  then show "map ts_Completed (mapTaskStatus c') = map ts_Completed (mapTaskStatus c) \<Longrightarrow> ?thesis" by simp
qed

text \<open>Steps that leave the completion flags alone.\<close>

lemma mr_inv_coord:
  assumes inv: "mr_inv js mapf reducef fs0 names n s"
    and c': "coord_ok c' \<and> files c' = files (s_coord s) \<and> nReduce c' = nReduce (s_coord s)"
    and m: "map ts_Completed (mapTaskStatus c') = map ts_Completed (mapTaskStatus (s_coord s))"
    and r: "map ts_Completed (reduceTaskStatus c') = map ts_Completed (reduceTaskStatus (s_coord s))"
    and run: "\<forall>t\<in>#run. task_ok names n c' t"
  shows "mr_inv js mapf reducef fs0 names n (s\<lparr>s_coord := c', s_running := run\<rparr>)"
proof -
  note dn = all_done_Completed [OF m]
  have len: "length (mapTaskStatus c') = length names" "length (reduceTaskStatus c') = n"
    "length (mapTaskStatus (s_coord s)) = length names" "length (reduceTaskStatus (s_coord s)) = n"
    using inv c' coord_okD(3,4) [of c'] coord_okD(3,4) [of "s_coord s"] by (auto simp: mr_inv_def)
  have mi: "ts_Completed (mapTaskStatus c' ! i) = ts_Completed (mapTaskStatus (s_coord s) ! i)" if "i < length names" for i
    using arg_cong [OF m, of "\<lambda>xs. xs ! i"] that len by simp
  have ri: "ts_Completed (reduceTaskStatus c' ! b) = ts_Completed (reduceTaskStatus (s_coord s) ! b)" if "b < n" for b
    using arg_cong [OF r, of "\<lambda>xs. xs ! b"] that len by simp
  have task: "task_ok names n c' t = task_ok names n (s_coord s) t" for t by (simp add: task_ok_def dn)
  show ?thesis using inv c' run unfolding mr_inv_def by (auto simp: mi ri dn task)
qed

lemma map_Completed_update:
  "ts_Completed v = ts_Completed (xs ! i) \<Longrightarrow> map ts_Completed (xs[i := v]) = map ts_Completed xs"
  by (cases "i < length xs") (simp_all add: map_update list_update_beyond, metis list_update_id map_update)

lemma request_inv:
  assumes inv: "mr_inv js mapf reducef fs0 names n s"
    and a: "AssignTask now (s_coord s) zeroTask = Inr (c', t)"
  shows "mr_inv js mapf reducef fs0 names n
    (s\<lparr>s_coord := c', s_running := (if is_work t then add_mset t (s_running s) else s_running s)\<rparr>)"
proof -
  have ok: "coord_ok (s_coord s)" and fn: "files (s_coord s) = names" "nReduce (s_coord s) = int n"
    and run: "\<forall>t\<in>#s_running s. task_ok names n (s_coord s) t" using inv by (auto simp: mr_inv_def)
  note c' = AssignTask_ok [OF ok a]
  have f: "map ts_Completed (mapTaskStatus c') = map ts_Completed (mapTaskStatus (s_coord s)) \<and>
      map ts_Completed (reduceTaskStatus c') = map ts_Completed (reduceTaskStatus (s_coord s)) \<and>
      (is_work t \<longrightarrow> task_ok names n (s_coord s) t)"
    using ok
  proof (cases rule: AssignTask_cases [of "s_coord s" now zeroTask])
    case (map i)
    then show ?thesis using a fn by (auto simp: map_Completed_update mark_def task_ok_def)
  next
    case (reduce b)
    then show ?thesis using a fn by (auto simp: map_Completed_update mark_def task_ok_def)
  qed (use a in \<open>auto simp: is_work_def\<close>)
  then have "task_ok names n c' t' = task_ok names n (s_coord s) t'" for t'
    using all_done_Completed [of c' "s_coord s"] by (simp add: task_ok_def)
  with f run have "\<forall>t'\<in>#(if is_work t then add_mset t (s_running s) else s_running s). task_ok names n c' t'"
    by auto
  with mr_inv_coord [OF inv c'] f show ?thesis by blast
qed

lemma timeouts_inv:
  assumes inv: "mr_inv js mapf reducef fs0 names n s"
  shows "mr_inv js mapf reducef fs0 names n (s\<lparr>s_coord := checkTaskTimeouts clock (s_coord s)\<rparr>)"
proof -
  let ?c = "checkTaskTimeouts clock (s_coord s)"
  have ok: "coord_ok (s_coord s)" and run: "\<forall>t\<in>#s_running s. task_ok names n (s_coord s) t"
    using inv by (auto simp: mr_inv_def)
  have m: "map ts_Completed (mapTaskStatus ?c) = map ts_Completed (mapTaskStatus (s_coord s))"
    "map ts_Completed (reduceTaskStatus ?c) = map ts_Completed (reduceTaskStatus (s_coord s))"
    by (simp_all add: checkTaskTimeouts_def expire_Completed)
  then have "\<forall>t\<in>#s_running s. task_ok names n ?c t" using run all_done_Completed [OF m(1)] by (simp add: task_ok_def)
  from mr_inv_coord [OF inv checkTaskTimeouts_ok [OF ok] m this] show ?thesis by simp
qed

text \<open>Steps that change files: what has to be shown again.\<close>

lemma mr_inv_files:
  assumes inv: "mr_inv js mapf reducef fs0 names n s"
    and input: "\<And>f. f \<in> set names \<Longrightarrow> fs' f = s_fs s f"
    and sub: "run \<subseteq># s_running s" "\<forall>t\<in>#rep. task_ok names n (s_coord s) t"
    and m: "\<And>i. i < length names \<Longrightarrow> ts_Completed (mapTaskStatus (s_coord s) ! i) \<or>
        map_task (int n) i (names ! i) \<in># rep \<Longrightarrow> map_written js mapf fs0 names n fs' i"
    and r: "\<And>b. b < n \<Longrightarrow> ts_Completed (reduceTaskStatus (s_coord s) ! b) \<or> reduce_task (length names) b \<in># rep \<Longrightarrow>
        allMapTasksDone (s_coord s) \<and> reduce_written mapf reducef fs0 names n fs' b"
  shows "mr_inv js mapf reducef fs0 names n (s\<lparr>s_fs := fs', s_running := run, s_reporting := rep\<rparr>)"
proof -
  have "\<forall>t\<in>#run + rep. task_ok names n (s_coord s) t"
    using inv sub by (auto simp: mr_inv_def dest: mset_subset_eqD)
  then show ?thesis using inv input m r unfolding mr_inv_def by simp
qed

lemma not_generated_inter: "\<not> generated f \<Longrightarrow> f \<noteq> inter_name (int i) (int b) \<and> f \<noteq> out_name (int b)"
  by (auto simp: generated_def)

lemma task_ok_map: "task_ok names n c t \<Longrightarrow> t_TaskType t = ''map'' \<Longrightarrow> \<exists>i<length names. t = map_task (int n) i (names ! i)"
  by (auto simp: task_ok_def)

lemma task_ok_reduce: "task_ok names n c t \<Longrightarrow> t_TaskType t = ''reduce'' \<Longrightarrow>
    allMapTasksDone c \<and> (\<exists>b<n. t = reduce_task (length names) b)"
  by (auto simp: task_ok_def)

lemma run_map_inv:
  assumes job: "job_ok mapf fs0 names n" and inv: "mr_inv js mapf reducef fs0 names n s"
    and t: "t \<in># s_running s" "t_TaskType t = ''map''" and f: "map_files js env mapf t (s_fs s) = Inr fs'"
  shows "mr_inv js mapf reducef fs0 names n (s\<lparr>s_fs := fs', s_running := s_running s - {#t#},
      s_reporting := add_mset t (s_reporting s)\<rparr>)"
proof -
  have tok: "task_ok names n (s_coord s) t" and rep: "\<forall>t\<in>#s_reporting s. task_ok names n (s_coord s) t"
    using inv t(1) by (auto simp: mr_inv_def)
  from task_ok_map [OF tok t(2)] obtain i where i: "i < length names" "t = map_task (int n) i (names ! i)" by blast
  have n: "0 < n" and gen: "\<And>f. f \<in> set names \<Longrightarrow> \<not> generated f" using job by (auto simp: job_ok_def)
  have input: "s_fs s f = fs0 f" if "f \<in> set names" for f using inv that by (simp add: mr_inv_def)
  from map_files_effect [OF f [unfolded i(2)] n] obtain content where e: "s_fs s (names ! i) = Some content"
    "\<And>b. b < n \<Longrightarrow> fs' (inter_name (int i) (int b)) = Some (encoded js (bucket n b (mapf (names ! i) content)))"
    "\<And>name. (\<forall>b<n. name \<noteq> inter_name (int i) (int b)) \<Longrightarrow> fs' name = s_fs s name" by blast
  have new: "map_written js mapf fs0 names n fs' i"
    using e(1,2) input [of "names ! i"] i(1) by (simp add: map_written_def map_output_def)
  have other: "map_written js mapf fs0 names n fs' j \<longleftrightarrow> map_written js mapf fs0 names n (s_fs s) j" if "j \<noteq> i" for j
    using that e(3) by (simp add: map_written_def)
  have out: "reduce_written mapf reducef fs0 names n fs' b \<longleftrightarrow> reduce_written mapf reducef fs0 names n (s_fs s) b" for b
    using e(3) by (simp add: reduce_written_def)
  show ?thesis
  proof (rule mr_inv_files [OF inv])
    show "fs' f = s_fs s f" if "f \<in> set names" for f
      using e(3) [of f] not_generated_inter [OF gen [OF that]] by blast
    show "map_written js mapf fs0 names n fs' j" if "j < length names"
      "ts_Completed (mapTaskStatus (s_coord s) ! j) \<or> map_task (int n) j (names ! j) \<in># add_mset t (s_reporting s)" for j
      using that inv new other i(2) by (cases "j = i") (auto simp: mr_inv_def)
    show "allMapTasksDone (s_coord s) \<and> reduce_written mapf reducef fs0 names n fs' b" if "b < n"
      "ts_Completed (reduceTaskStatus (s_coord s) ! b) \<or> reduce_task (length names) b \<in># add_mset t (s_reporting s)" for b
      using that inv out i(2) by (auto simp: mr_inv_def)
  qed (use tok rep in auto)
qed

lemma bucket_concat: "bucket n b (concat xss) = concat (map (bucket n b) xss)"
proof -
  have "bucket n b = filter (\<lambda>kv. ihash (kvKey kv) mod int n = int b)" by (rule ext) (simp add: bucket_def)
  then show ?thesis by (simp only: filter_concat)
qed

context json_stream
begin

lemma run_reduce_inv:
  assumes job: "job_ok mapf fs0 names n" and inv: "mr_inv js mapf reducef fs0 names n s"
    and t: "t \<in># s_running s" "t_TaskType t = ''reduce''" and ord: "\<And>xs. mset (range_order env xs) = mset xs"
    and f: "reduce_files js env reducef t (s_fs s) = Inr fs'"
  shows "mr_inv js mapf reducef fs0 names n (s\<lparr>s_fs := fs', s_running := s_running s - {#t#},
      s_reporting := add_mset t (s_reporting s)\<rparr>)"
proof -
  have tok: "task_ok names n (s_coord s) t" and rep: "\<forall>t\<in>#s_reporting s. task_ok names n (s_coord s) t"
    using inv t(1) by (auto simp: mr_inv_def)
  from task_ok_reduce [OF tok t(2)] obtain b where b: "b < n" "t = reduce_task (length names) b"
    and all: "allMapTasksDone (s_coord s)" by blast
  have len: "length (mapTaskStatus (s_coord s)) = length names"
    using inv coord_okD(3) by (auto simp: mr_inv_def)
  have gen: "\<And>f. f \<in> set names \<Longrightarrow> \<not> generated f" using job by (auto simp: job_ok_def)
  have written: "map_written js mapf fs0 names n (s_fs s) i" if "i < length names" for i
    using inv all that len by (simp add: mr_inv_def allMapTasksDone_def list_all_length)
  have docs: "js_documents js (the (s_fs s (inter_name (int i) (int b)))) = bucket n b (map_output mapf fs0 names i)"
    if "i < length names" for i
  proof -
    have "valid_pair kv" if "kv \<in> set (bucket n b (map_output mapf fs0 names i))" for kv
      using job that \<open>i < length names\<close> by (auto simp: job_ok_def all_output_def bucket_def)
    with written [OF that] b(1) show ?thesis by (simp add: map_written_def read_back)
  qed
  let ?kvs = "bucket n b (all_output mapf fs0 names)"
  have kvs: "?kvs = concat (map (\<lambda>i. js_documents js (the (s_fs s (inter_name (int i) (int b))))) [0..<length names])"
    unfolding all_output_def bucket_concat map_map comp_def
    by (rule arg_cong [of _ _ concat], rule map_cong [OF refl]) (simp add: docs)
  from reduce_files_effect [OF f [unfolded b(2)] ord kvs] obtain ks where ks: "distinct ks" "set ks = key_set ?kvs"
    and fs': "fs' = (s_fs s)(out_name (int b) \<mapsto> concat (lines_for reducef ?kvs ks))" by blast
  have new: "reduce_written mapf reducef fs0 names n fs' b"
    using ks fs' by (auto simp: reduce_written_def)
  show ?thesis
  proof (rule mr_inv_files [OF inv])
    show "fs' f = s_fs s f" if "f \<in> set names" for f
      using not_generated_inter [OF gen [OF that]] by (simp add: fs')
    show "map_written js mapf fs0 names n fs' j" if "j < length names" for j
      using written [OF that] by (simp add: map_written_def fs')
    show "allMapTasksDone (s_coord s) \<and> reduce_written mapf reducef fs0 names n fs' b'" if "b' < n"
      "ts_Completed (reduceTaskStatus (s_coord s) ! b') \<or> reduce_task (length names) b' \<in># add_mset t (s_reporting s)" for b'
    proof (cases "b' = b")
      case True
      with all new show ?thesis by simp
    next
      case False
      then have "reduce_written mapf reducef fs0 names n fs' b' \<longleftrightarrow> reduce_written mapf reducef fs0 names n (s_fs s) b'"
        by (simp add: reduce_written_def fs')
      with that inv False b(2) show ?thesis by (auto simp: mr_inv_def)
    qed
  qed (use tok rep in auto)
qed

end

lemma report_inv:
  assumes inv: "mr_inv js mapf reducef fs0 names n s"
    and t: "t \<in># s_reporting s" and c': "ReportTaskDone t (s_coord s) = Inr c'"
  shows "mr_inv js mapf reducef fs0 names n (s\<lparr>s_coord := c', s_reporting := s_reporting s - {#t#}\<rparr>)"
proof -
  let ?c = "s_coord s"
  have ok: "coord_ok ?c" and fn: "files ?c = names" "nReduce ?c = int n" using inv by (auto simp: mr_inv_def)
  note ok' = ReportTaskDone_ok [OF ok c']
  note len = coord_okD(3,4) [OF ok, unfolded fn]
  have mono: "allMapTasksDone ?c \<Longrightarrow> allMapTasksDone c'"
    using coord_step_monotone [OF coord_step.report [OF c'] ok] completed_le_all
    unfolding allMapTasksDone_def by blast
  have sub: "x \<in># s_reporting s - {#t#} \<Longrightarrow> x \<in># s_reporting s" for x by (rule in_diffD)
  have tasks: "\<forall>x\<in>#s_running s + (s_reporting s - {#t#}). task_ok names n c' x"
    using inv mono sub by (auto simp: mr_inv_def task_ok_def)
  have "task_ok names n ?c t" using inv t by (auto simp: mr_inv_def)
  then have done_m: "map_written js mapf fs0 names n (s_fs s) i" if "i < length names"
      "ts_Completed (mapTaskStatus c' ! i) \<or> map_task (int n) i (names ! i) \<in># s_reporting s" for i
  proof (unfold task_ok_def, elim disjE exE conjE)
    fix j assume j: "j < length names" "t = map_task (int n) j (names ! j)"
    with ReportTaskDone_map [OF ok, of j] c' fn
    have "c' = ?c\<lparr>mapTaskStatus := (mapTaskStatus ?c)[j := finish (mapTaskStatus ?c ! j)]\<rparr>" by simp
    with that inv t j len show ?thesis by (cases "i = j") (auto simp: mr_inv_def)
  next
    fix b assume b: "b < n" "t = reduce_task (length names) b"
    with ReportTaskDone_reduce [OF ok, of b] c' fn
    have "mapTaskStatus c' = mapTaskStatus ?c" by auto
    with that inv show ?thesis by (auto simp: mr_inv_def)
  qed
  have "task_ok names n ?c t" using inv t by (auto simp: mr_inv_def)
  then have done_r: "allMapTasksDone c' \<and> reduce_written mapf reducef fs0 names n (s_fs s) i" if "i < n"
      "ts_Completed (reduceTaskStatus c' ! i) \<or> reduce_task (length names) i \<in># s_reporting s" for i
  proof (unfold task_ok_def, elim disjE exE conjE)
    fix j assume j: "j < length names" "t = map_task (int n) j (names ! j)"
    with ReportTaskDone_map [OF ok, of j] c' fn have "reduceTaskStatus c' = reduceTaskStatus ?c" by auto
    with that inv mono show ?thesis by (auto simp: mr_inv_def)
  next
    fix b assume b: "b < n" "t = reduce_task (length names) b"
    with ReportTaskDone_reduce [OF ok, of b] c' fn
    have "c' = ?c\<lparr>reduceTaskStatus := (reduceTaskStatus ?c)[b := finish (reduceTaskStatus ?c ! b)]\<rparr>" by simp
    with that inv t b len mono show ?thesis by (cases "i = b") (auto simp: mr_inv_def)
  qed
  show ?thesis
    using ok' fn inv tasks done_m done_r sub unfolding mr_inv_def by (simp add: ball_Un)
qed

lemma die_running_inv:
  assumes inv: "mr_inv js mapf reducef fs0 names n s"
  shows "mr_inv js mapf reducef fs0 names n (s\<lparr>s_running := s_running s - {#t#}\<rparr>)"
  using inv by (auto simp: mr_inv_def dest: in_diffD)

lemma die_reporting_inv:
  assumes inv: "mr_inv js mapf reducef fs0 names n s"
  shows "mr_inv js mapf reducef fs0 names n (s\<lparr>s_reporting := s_reporting s - {#t#}\<rparr>)"
  using inv by (auto simp: mr_inv_def dest: in_diffD)

lemma die_in_map_inv:
  assumes job: "job_ok mapf fs0 names n" and inv: "mr_inv js mapf reducef fs0 names n s"
    and t: "t \<in># s_running s" "t_TaskType t = ''map''" "not_finished s t"
    and fs': "\<And>name. (\<forall>b. name \<noteq> inter_name (t_ID t) (int b)) \<Longrightarrow> fs' name = s_fs s name"
  shows "mr_inv js mapf reducef fs0 names n (s\<lparr>s_fs := fs', s_running := s_running s - {#t#}\<rparr>)"
proof -
  have "task_ok names n (s_coord s) t" using inv t(1) by (auto simp: mr_inv_def)
  from task_ok_map [OF this t(2)] obtain i where i: "i < length names" "t = map_task (int n) i (names ! i)" by blast
  have gen: "\<And>f. f \<in> set names \<Longrightarrow> \<not> generated f" using job by (auto simp: job_ok_def)
  have same: "fs' name = s_fs s name" if "\<forall>b. name \<noteq> inter_name (int i) (int b)" for name
    using fs' [of name] that i(2) by simp
  have "mr_inv js mapf reducef fs0 names n
      (s\<lparr>s_fs := fs', s_running := s_running s - {#t#}, s_reporting := s_reporting s\<rparr>)"
  proof (rule mr_inv_files [OF inv])
    show "fs' f = s_fs s f" if "f \<in> set names" for f
      using same [of f] not_generated_inter [OF gen [OF that]] by blast
    show "map_written js mapf fs0 names n fs' j" if "j < length names"
      "ts_Completed (mapTaskStatus (s_coord s) ! j) \<or> map_task (int n) j (names ! j) \<in># s_reporting s" for j
    proof -
      have "j \<noteq> i" using that t(3) i(2) by (auto simp: not_finished_def)
      then have "map_written js mapf fs0 names n fs' j \<longleftrightarrow> map_written js mapf fs0 names n (s_fs s) j"
        using same by (simp add: map_written_def)
      with that inv show ?thesis by (auto simp: mr_inv_def)
    qed
    show "allMapTasksDone (s_coord s) \<and> reduce_written mapf reducef fs0 names n fs' b" if "b < n"
      "ts_Completed (reduceTaskStatus (s_coord s) ! b) \<or> reduce_task (length names) b \<in># s_reporting s" for b
      using that inv same by (auto simp: mr_inv_def reduce_written_def)
  qed (use inv in \<open>auto simp: mr_inv_def\<close>)
  then show ?thesis by simp
qed

lemma die_in_reduce_inv:
  assumes job: "job_ok mapf fs0 names n" and inv: "mr_inv js mapf reducef fs0 names n s"
    and t: "t \<in># s_running s" "t_TaskType t = ''reduce''" "not_finished s t"
    and fs': "\<And>name. name \<noteq> out_name (t_ID t) \<Longrightarrow> fs' name = s_fs s name"
  shows "mr_inv js mapf reducef fs0 names n (s\<lparr>s_fs := fs', s_running := s_running s - {#t#}\<rparr>)"
proof -
  have "task_ok names n (s_coord s) t" using inv t(1) by (auto simp: mr_inv_def)
  from task_ok_reduce [OF this t(2)] obtain b where b: "b < n" "t = reduce_task (length names) b" by blast
  have gen: "\<And>f. f \<in> set names \<Longrightarrow> \<not> generated f" using job by (auto simp: job_ok_def)
  have same: "fs' name = s_fs s name" if "name \<noteq> out_name (int b)" for name
    using fs' [of name] that b(2) by simp
  have "mr_inv js mapf reducef fs0 names n
      (s\<lparr>s_fs := fs', s_running := s_running s - {#t#}, s_reporting := s_reporting s\<rparr>)"
  proof (rule mr_inv_files [OF inv])
    show "fs' f = s_fs s f" if "f \<in> set names" for f
      using same [of f] not_generated_inter [OF gen [OF that]] by blast
    show "map_written js mapf fs0 names n fs' j" if "j < length names"
      "ts_Completed (mapTaskStatus (s_coord s) ! j) \<or> map_task (int n) j (names ! j) \<in># s_reporting s" for j
      using that inv same by (auto simp: mr_inv_def map_written_def)
    show "allMapTasksDone (s_coord s) \<and> reduce_written mapf reducef fs0 names n fs' d" if "d < n"
      "ts_Completed (reduceTaskStatus (s_coord s) ! d) \<or> reduce_task (length names) d \<in># s_reporting s" for d
    proof -
      have "d \<noteq> b" using that t(3) b(2) by (auto simp: not_finished_def)
      then have "reduce_written mapf reducef fs0 names n fs' d \<longleftrightarrow> reduce_written mapf reducef fs0 names n (s_fs s) d"
        using same by (simp add: reduce_written_def)
      with that inv show ?thesis by (auto simp: mr_inv_def)
    qed
  qed (use inv in \<open>auto simp: mr_inv_def\<close>)
  then show ?thesis by simp
qed

context json_stream
begin

lemma mr_step_inv:
  assumes "mr_step js mapf reducef s s'" and job: "job_ok mapf fs0 names n"
    and inv: "mr_inv js mapf reducef fs0 names n s"
  shows "mr_inv js mapf reducef fs0 names n s'"
  using assms(1)
proof (cases rule: mr_step.cases)
  case (request now c' t)
  then show ?thesis using request_inv [OF inv] by simp
next
  case (run_map t env fs')
  then show ?thesis using run_map_inv [OF job inv] by simp
next
  case (run_reduce t env fs')
  show ?thesis unfolding run_reduce(1) by (rule run_reduce_inv [OF job inv run_reduce(2-5)])
next
  case (report t c')
  then show ?thesis using report_inv [OF inv] by simp
next
  case (timeouts clock)
  then show ?thesis using timeouts_inv [OF inv] by simp
next
  case (die t)
  then show ?thesis using die_running_inv [OF inv] by simp
next
  case (die_before_report t)
  then show ?thesis using die_reporting_inv [OF inv] by simp
next
  case (die_in_map t fs')
  show ?thesis unfolding die_in_map(1) by (rule die_in_map_inv [OF job inv die_in_map(2-5)])
next
  case (die_in_reduce t fs')
  show ?thesis unfolding die_in_reduce(1) by (rule die_in_reduce_inv [OF job inv die_in_reduce(2-5)])
qed

lemma mr_reachable_inv:
  assumes "MakeCoordinator names (int n) = Inr c" and job: "job_ok mapf fs0 names n"
    and "(mr_step js mapf reducef)\<^sup>*\<^sup>* (mr_init fs0 c) s"
  shows "mr_inv js mapf reducef fs0 names n s"
  using assms(3)
proof (induction rule: rtranclp_induct)
  case base
  show ?case by (rule mr_inv_init [OF assms(1)])
next
  case (step s s')
  then show ?case using mr_step_inv [OF _ job] by blast
qed

lemma mr_done_written:
  assumes "MakeCoordinator names (int n) = Inr c" and job: "job_ok mapf fs0 names n"
    and "(mr_step js mapf reducef)\<^sup>*\<^sup>* (mr_init fs0 c) s" and "snd (Done (s_coord s))" and "b < n"
  shows "reduce_written mapf reducef fs0 names n (s_fs s) b"
proof -
  note inv = mr_reachable_inv [OF assms(1-3)]
  have "length (reduceTaskStatus (s_coord s)) = n" using inv coord_okD(4) by (auto simp: mr_inv_def)
  with assms(4,5) have "ts_Completed (reduceTaskStatus (s_coord s) ! b)"
    by (simp add: Done_def allReduceTasksDone_def list_all_length split: if_splits)
  with inv assms(5) show ?thesis by (simp add: mr_inv_def)
qed

end

subsection \<open>The sequential program\<close>

text \<open>A reduce function whose result does not depend on the order of the values.\<close>

definition order_free :: "(string \<Rightarrow> string list \<Rightarrow> string) \<Rightarrow> bool" where
  "order_free reducef \<longleftrightarrow> (\<forall>k vs vs'. mset vs = mset vs' \<longrightarrow> reducef k vs = reducef k vs')"

text \<open>The lines of the output, one per key.\<close>

definition spec_lines :: "(string \<Rightarrow> string list \<Rightarrow> string) \<Rightarrow> KeyValue list \<Rightarrow> string multiset" where
  "spec_lines reducef kvs =
     image_mset (\<lambda>k. out_line k (reducef k (values_of k kvs))) (mset_set (key_set kvs))"

lemma lines_for_spec:
  "distinct ks \<Longrightarrow> set ks = key_set kvs \<Longrightarrow> mset (lines_for reducef kvs ks) = spec_lines reducef kvs"
  by (metis lines_for_def mset_map mset_set_set spec_lines_def)

lemma finite_key_set [simp]: "finite (key_set kvs)"
  by (simp add: key_set_def)

lemma sorted_tail_keys:
  assumes "sorted_wrt (\<lambda>a b. \<not> ByKey_Less b a) (kv # rest)" "x \<in> set (dropWhile (\<lambda>x. kvKey x = kvKey kv) rest)"
  shows "kvKey x \<noteq> kvKey kv"
proof -
  define ds where "ds = dropWhile (\<lambda>x. kvKey x = kvKey kv) rest"
  have le: "kvKey kv \<le> kvKey y" if "y \<in> set rest" for y
    using assms(1) that by (auto simp: ByKey_Less_def not_less)
  have "x \<in> set ds" using assms(2) by (simp only: ds_def)
  then obtain d dt where d: "ds = d # dt" by (cases ds) auto
  have mem: "d \<in> set rest" using d set_dropWhileD [of d "\<lambda>x. kvKey x = kvKey kv" rest] by (simp add: ds_def)
  have "kvKey d \<noteq> kvKey kv"
    using hd_dropWhile [of "\<lambda>x. kvKey x = kvKey kv" rest] d unfolding ds_def [symmetric] by simp
  with le [OF mem] have "kvKey kv < kvKey d" by simp
  moreover have "kvKey d \<le> kvKey x"
  proof -
    have "sorted_wrt (\<lambda>a b. \<not> ByKey_Less b a) ds"
      using assms(1) unfolding ds_def by (simp add: sorted_wrt_dropWhile)
    with assms(2) d show ?thesis by (auto simp: ds_def [symmetric] ByKey_Less_def not_less)
  qed
  ultimately show ?thesis by simp
qed

lemma seq_reduce_lines:
  "sorted_wrt (\<lambda>a b. \<not> ByKey_Less b a) kvs \<Longrightarrow>
   \<exists>ks. distinct ks \<and> set ks = key_set kvs \<and> seq_reduce reducef kvs = concat (lines_for reducef kvs ks)"
proof (induction reducef kvs rule: seq_reduce.induct)
  case (1 reducef)
  then show ?case by (simp add: key_set_def lines_for_def)
next
  case (2 reducef kv rest)
  let ?P = "\<lambda>x. kvKey x = kvKey kv"
  let ?same = "takeWhile ?P rest" and ?ds = "dropWhile ?P rest"
  note tail = sorted_tail_keys [OF 2(2)]
  have "sorted_wrt (\<lambda>a b. \<not> ByKey_Less b a) ?ds" using 2(2) by (simp add: sorted_wrt_dropWhile)
  from 2(1) [OF refl refl refl this] obtain ks where ks: "distinct ks" "set ks = key_set ?ds"
    "seq_reduce reducef ?ds = concat (lines_for reducef ?ds ks)" by blast
  have split: "rest = ?same @ ?ds" by simp
  have new: "kvKey kv \<notin> key_set ?ds"
  proof
    assume "kvKey kv \<in> key_set ?ds"
    then obtain x where "x \<in> set ?ds" "kvKey x = kvKey kv" unfolding key_set_def by (metis imageE)
    with tail show False by blast
  qed
  have "filter ?P rest = ?same"
  proof -
    have "filter ?P ?same = ?same" by (rule filter_True) (meson set_takeWhileD)
    moreover have "filter ?P ?ds = []" unfolding filter_empty_conv using tail by blast
    ultimately show ?thesis by (metis append_Nil2 filter_append split)
  qed
  then have v1: "values_of (kvKey kv) (kv # rest) = map kvValue (kv # ?same)" by (simp add: values_of_def)
  have v2: "values_of k (kv # rest) = values_of k ?ds" if "k \<noteq> kvKey kv" for k
  proof -
    have "filter (\<lambda>x. kvKey x = k) ?same = []" using that by (auto simp: filter_empty_conv dest: set_takeWhileD)
    then have "filter (\<lambda>x. kvKey x = k) rest = filter (\<lambda>x. kvKey x = k) ?ds"
      by (metis append_Nil filter_append split)
    with that show ?thesis by (simp add: values_of_def)
  qed
  have keys: "key_set (kv # rest) = insert (kvKey kv) (key_set ?ds)"
  proof -
    have "key_set rest = key_set ?same \<union> key_set ?ds" by (metis key_set_def image_Un set_append split)
    moreover have "key_set ?same \<subseteq> {kvKey kv}" by (auto simp: key_set_def dest: set_takeWhileD)
    ultimately show ?thesis by (auto simp: key_set_def)
  qed
  have "lines_for reducef (kv # rest) ks = lines_for reducef ?ds ks"
    unfolding lines_for_def
  proof (rule map_cong [OF refl])
    fix k assume "k \<in> set ks"
    with ks(2) new have "k \<noteq> kvKey kv" by blast
    from v2 [OF this]
    show "out_line k (reducef k (values_of k (kv # rest))) = out_line k (reducef k (values_of k ?ds))"
      by (rule arg_cong)
  qed
  moreover have "lines_for reducef (kv # rest) (kvKey kv # ks) =
      out_line (kvKey kv) (reducef (kvKey kv) (map kvValue (kv # ?same))) # lines_for reducef (kv # rest) ks"
    unfolding lines_for_def list.map(2) v1 ..
  ultimately have "seq_reduce reducef (kv # rest) = concat (lines_for reducef (kv # rest) (kvKey kv # ks))"
    unfolding seq_reduce.simps Let_def ks(3) by (simp only: concat.simps)
  with ks(1,2) new keys show ?case by (intro exI [of _ "kvKey kv # ks"]) simp
qed

lemma values_of_perm: "mset xs = mset ys \<Longrightarrow> mset (values_of k xs) = mset (values_of k ys)"
  by (simp add: values_of_def)

lemma spec_lines_perm:
  assumes "order_free reducef" and "mset xs = mset ys"
  shows "spec_lines reducef xs = spec_lines reducef ys"
proof -
  have "key_set xs = key_set ys" using mset_eq_setD [OF assms(2)] by (simp add: key_set_def)
  moreover have "reducef k (values_of k xs) = reducef k (values_of k ys)" for k
    using assms(1) values_of_perm [OF assms(2), of k] unfolding order_free_def by blast
  ultimately show ?thesis by (simp add: spec_lines_def)
qed

lemma seq_map_total:
  assumes "\<forall>f\<in>set names. fs0 f \<noteq> None"
  shows "go_fold (seq_map mapf fs0) names acc = Inr (acc @ all_output mapf fs0 names)"
proof -
  have "go_fold (seq_map mapf fs0) names acc = Inr (acc @ concat (map (\<lambda>f. mapf f (the (fs0 f))) names))"
    using assms by (induction names arbitrary: acc) (auto simp: seq_map_def os_ReadFile_def)
  moreover have "map (map_output mapf fs0 names) [0..<length names] = map (\<lambda>f. mapf f (the (fs0 f))) names"
    by (rule nth_equalityI) (simp_all add: map_output_def)
  ultimately show ?thesis by (simp add: all_output_def)
qed

lemma mrsequential_lines:
  assumes "\<forall>f\<in>set names. fs0 f \<noteq> None" and "is_go_sort ByKey_Less sortByKey" and "order_free reducef"
  shows "\<exists>fs1 ls. mrsequential sortByKey mapf reducef names fs0 = Inr fs1 \<and> fs1 ''mr-out-0'' = Some (concat ls) \<and>
    mset ls = spec_lines reducef (all_output mapf fs0 names)"
proof -
  let ?all = "all_output mapf fs0 names"
  have "sort_result ByKey_Less ?all (sortByKey ?all)" using assms(2) by (simp add: is_go_sort_def)
  then have s: "mset (sortByKey ?all) = mset ?all" "sorted_wrt (\<lambda>a b. \<not> ByKey_Less b a) (sortByKey ?all)"
    by (simp_all add: sort_result_def)
  from seq_reduce_lines [OF s(2), of reducef] obtain ks where ks: "distinct ks" "set ks = key_set (sortByKey ?all)"
    "seq_reduce reducef (sortByKey ?all) = concat (lines_for reducef (sortByKey ?all) ks)" by blast
  have "mset (lines_for reducef (sortByKey ?all) ks) = spec_lines reducef ?all"
    using lines_for_spec [OF ks(1,2)] spec_lines_perm [OF assms(3) s(1)] by metis
  moreover have "mrsequential sortByKey mapf reducef names fs0 =
      Inr (fs0(''mr-out-0'' \<mapsto> concat (lines_for reducef (sortByKey ?all) ks)))"
    using seq_map_total [OF assms(1), of mapf "[]"] ks(3) by (simp add: mrsequential_def)
  ultimately show ?thesis by auto
qed

subsection \<open>The buckets together\<close>

lemma key_set_bucket: "key_set (bucket n b kvs) = {k \<in> key_set kvs. ihash k mod int n = int b}"
  by (auto simp: key_set_def bucket_def)

lemma values_of_bucket: "ihash k mod int n = int b \<Longrightarrow> values_of k (bucket n b kvs) = values_of k kvs"
  unfolding values_of_def bucket_def filter_filter by (metis (mono_tags, lifting))

lemma image_sum: "image_mset g (\<Sum>b<m. A b) = (\<Sum>b<m. image_mset g (A b))" for m :: nat
  by (induction m) simp_all

lemma buckets_spec:
  assumes "0 < n"
  shows "(\<Sum>b<n. spec_lines reducef (bucket n b kvs)) = spec_lines reducef kvs"
proof -
  let ?g = "\<lambda>k. out_line k (reducef k (values_of k kvs))"
  let ?K = "\<lambda>b. key_set (bucket n b kvs)"
  have "spec_lines reducef (bucket n b kvs) = image_mset ?g (mset_set (?K b))" for b
    unfolding spec_lines_def by (rule image_mset_cong) (auto simp: key_set_bucket values_of_bucket)
  then have "(\<Sum>b<n. spec_lines reducef (bucket n b kvs)) = image_mset ?g (\<Sum>b<n. mset_set (?K b))"
    using image_sum [of ?g "\<lambda>b. mset_set (?K b)" n] by simp
  also have "(\<Sum>b<m. mset_set (?K b)) = mset_set (\<Union>b<m. ?K b)" for m
  proof (induction m)
    case (Suc m)
    have "(\<Union>b<m. ?K b) \<inter> ?K m = {}" by (auto simp: key_set_bucket)
    then have "mset_set ((\<Union>b<m. ?K b) \<union> ?K m) = mset_set (\<Union>b<m. ?K b) + mset_set (?K m)"
      by (intro mset_set_Union) auto
    then show ?case using Suc by (simp add: lessThan_Suc Un_commute)
  qed simp
  also have "(\<Union>b<n. ?K b) = key_set kvs"
  proof -
    have "\<exists>b<n. ihash k mod int n = int b" for k
      using assms by (intro exI [of _ "nat (ihash k mod int n)"]) (simp add: nat_less_iff)
    then show ?thesis by (auto simp: key_set_bucket)
  qed
  finally show ?thesis by (simp add: spec_lines_def)
qed

lemma mset_concat_upt: "mset (concat (map f [0..<n])) = (\<Sum>b<n. mset (f b))"
  by (induction n) (simp_all add: add.commute)

end
