(* ===== verification/Mr_Run.thy ===== *)
theory Mr_Run
  imports Mr_System
begin

text \<open>
  Runs of the distributed map/reduce: what a finished job leaves in its output files, compared
  with the sequential program; that a single undisturbed worker finishes the job; and what goes
  wrong when a task is executed again while another worker reads its files.
\<close>

subsection \<open>A single worker\<close>

definition good_env :: "worker_env \<Rightarrow> bool" where
  "good_env env \<longleftrightarrow> (\<forall>name. os_create_ok env name) \<and> (\<forall>name. os_write_ok env name) \<and>
     (\<forall>xs. mset (range_order env xs) = mset xs) \<and> request_conn env = CallOk \<and> notify_conn env = CallOk"

definition none_assigned :: "Coordinator \<Rightarrow> bool" where
  "none_assigned c \<longleftrightarrow> (\<forall>st\<in>set (mapTaskStatus c) \<union> set (reduceTaskStatus c). \<not> ts_Assigned st)"

definition todo :: "TaskStatus list \<Rightarrow> nat" where
  "todo sts = length (filter (\<lambda>st. \<not> ts_Completed st) sts)"

definition idle_state :: "world \<Rightarrow> mr_state" where
  "idle_state w = \<lparr>s_fs = w_fs w, s_coord = w_coord w, s_running = {#}, s_reporting = {#}\<rparr>"

lemma todo_finish:
  assumes "i < length sts" and "\<not> ts_Completed (sts ! i)"
  shows "todo (sts[i := finish v]) < todo sts"
proof -
  have "todo (take i sts @ sts ! i # drop (Suc i) sts) = todo (take i sts) + 1 + todo (drop (Suc i) sts)"
    using assms(2) by (simp add: todo_def)
  then have "todo sts = todo (take i sts) + 1 + todo (drop (Suc i) sts)"
    using id_take_nth_drop [OF assms(1)] by simp
  moreover have "sts[i := finish v] = take i sts @ finish v # drop (Suc i) sts"
    using assms(1) by (rule upd_conv_take_nth_drop)
  ultimately show ?thesis by (simp add: todo_def finish_def)
qed

lemma none_assigned_finish:
  "none_assigned c \<Longrightarrow> none_assigned (c\<lparr>mapTaskStatus := (mapTaskStatus c)[i := finish v]\<rparr>)"
  "none_assigned c \<Longrightarrow> none_assigned (c\<lparr>reduceTaskStatus := (reduceTaskStatus c)[i := finish v]\<rparr>)"
  by (auto simp: none_assigned_def finish_def dest!: set_update_subset_insert [THEN subsetD])

text \<open>A round in which the worker is given a task is a request, an execution and a report.\<close>

lemma round_steps:
  assumes a: "AssignTask now (w_coord w) zeroTask = Inr (c1, t)" "is_work t"
    and f: "t_TaskType t = ''map'' \<and> map_files js env mapf t (w_fs w) = Inr fs' \<or>
      t_TaskType t = ''reduce'' \<and> (\<forall>xs. mset (range_order env xs) = mset xs) \<and> reduce_files js env reducef t (w_fs w) = Inr fs'"
    and r: "ReportTaskDone t c1 = Inr c2"
  shows "(mr_step js mapf reducef)\<^sup>*\<^sup>* (idle_state w) (idle_state (w\<lparr>w_fs := fs', w_coord := c2\<rparr>))"
proof -
  let ?s0 = "idle_state w"
  let ?s1 = "?s0\<lparr>s_coord := c1, s_running := {#t#}\<rparr>"
  let ?s2 = "?s1\<lparr>s_fs := fs', s_running := {#}, s_reporting := {#t#}\<rparr>"
  have "mr_step js mapf reducef ?s0 ?s1"
    using mr_step.request [of now ?s0 c1 t js mapf reducef] a by (simp add: idle_state_def)
  moreover have "mr_step js mapf reducef ?s1 ?s2"
    using f mr_step.run_map [of t ?s1 js env mapf fs' reducef] mr_step.run_reduce [of t ?s1 env js reducef fs' mapf]
    by (auto simp: idle_state_def)
  moreover have "mr_step js mapf reducef ?s2 (?s2\<lparr>s_coord := c2, s_reporting := {#}\<rparr>)"
    using r mr_step.report [of t ?s2 c2 js mapf reducef] by (simp add: idle_state_def)
  moreover have "?s2\<lparr>s_coord := c2, s_reporting := {#}\<rparr> = idle_state (w\<lparr>w_fs := fs', w_coord := c2\<rparr>)"
    by (simp add: idle_state_def)
  ultimately show ?thesis by (metis converse_rtranclp_into_rtranclp rtranclp.rtrancl_refl)
qed

lemma Worker_round_work:
  assumes "good_env env" and "AssignTask (request_now env) (w_coord w) zeroTask = Inr (c1, t)"
    and "t_TaskType t = ''map'' \<and> map_files js env mapf t (w_fs w) = Inr fs' \<or>
      t_TaskType t = ''reduce'' \<and> reduce_files js env reducef t (w_fs w) = Inr fs'"
    and "ReportTaskDone t c1 = Inr c2"
  shows "Worker_round js mapf reducef env w = Inr (True, w\<lparr>w_fs := fs', w_coord := c2\<rparr>)"
  using assms by (auto simp: Worker_round_def RequestTask_def good_env_def ExecuteMapTask_def
      ExecuteReduceTask_def NotifyTaskDone_def)

lemma Worker_round_progress:
  assumes job: "job_ok mapf fs0 names n" and env: "good_env env"
    and inv: "mr_inv js mapf reducef fs0 names n (idle_state w)" and free: "none_assigned (w_coord w)"
  shows "(\<exists>w'. Worker_round js mapf reducef env w = Inr (True, w') \<and>
      (mr_step js mapf reducef)\<^sup>*\<^sup>* (idle_state w) (idle_state w') \<and> none_assigned (w_coord w') \<and>
      todo (mapTaskStatus (w_coord w')) + todo (reduceTaskStatus (w_coord w')) <
      todo (mapTaskStatus (w_coord w)) + todo (reduceTaskStatus (w_coord w))) \<or>
    (Worker_round js mapf reducef env w = Inr (False, w) \<and> snd (Done (w_coord w)))"
proof -
  let ?c = "w_coord w" and ?now = "request_now env"
  have ok: "coord_ok ?c" and fn: "files ?c = names" "nReduce ?c = int n" using inv by (auto simp: mr_inv_def idle_state_def)
  note len = coord_okD(3,4) [OF ok, unfolded fn]
  have n: "0 < n" using job by (simp add: job_ok_def)
  show ?thesis
    using ok
  proof (cases rule: AssignTask_cases [of ?c ?now zeroTask])
    case (map i)
    let ?sts = "(mapTaskStatus ?c)[i := mark ?now (mapTaskStatus ?c ! i)]"
    let ?c1 = "?c\<lparr>mapTaskStatus := ?sts\<rparr>" and ?t = "map_task (int n) i (names ! i)"
    let ?c2 = "?c\<lparr>mapTaskStatus := (mapTaskStatus ?c)[i := finish (?sts ! i)]\<rparr>"
    have i: "i < length names" using map(1) fn by simp
    have a: "AssignTask ?now ?c zeroTask = Inr (?c1, ?t)" using map(4) fn by simp
    have "w_fs w (names ! i) \<noteq> None" using inv job i by (auto simp: mr_inv_def idle_state_def job_ok_def)
    then obtain content where content: "w_fs w (names ! i) = Some content" by blast
    have io: "os_create_ok env name" "os_write_ok env name" for name using env by (auto simp: good_env_def)
    from map_files_total [of env "w_fs w", OF io content n] obtain fs'
      where f: "map_files js env mapf ?t (w_fs w) = Inr fs'" by blast
    have "coord_ok ?c1" using AssignTask_ok [OF ok a] by simp
    from ReportTaskDone_map [OF this, of i "int n" "names ! i"] i fn
    have r: "ReportTaskDone ?t ?c1 = Inr ?c2" by simp
    have "(mr_step js mapf reducef)\<^sup>*\<^sup>* (idle_state w) (idle_state (w\<lparr>w_fs := fs', w_coord := ?c2\<rparr>))"
      by (rule round_steps [where env = env, OF a _ _ r]) (use f in \<open>simp_all add: is_work_def\<close>)
    moreover have "Worker_round js mapf reducef env w = Inr (True, w\<lparr>w_fs := fs', w_coord := ?c2\<rparr>)"
      by (rule Worker_round_work [OF env a _ r]) (simp add: f)
    moreover have "todo (mapTaskStatus ?c2) < todo (mapTaskStatus ?c)"
      using todo_finish [of i "mapTaskStatus ?c"] map(2) i len by simp
    ultimately show ?thesis using none_assigned_finish(1) [OF free] by auto
  next
    case (reduce b)
    let ?sts = "(reduceTaskStatus ?c)[b := mark ?now (reduceTaskStatus ?c ! b)]"
    let ?c1 = "?c\<lparr>reduceTaskStatus := ?sts\<rparr>" and ?t = "reduce_task (length names) b"
    let ?c2 = "?c\<lparr>reduceTaskStatus := (reduceTaskStatus ?c)[b := finish (?sts ! b)]\<rparr>"
    have b: "b < n" using reduce(2) fn by simp
    have a: "AssignTask ?now ?c zeroTask = Inr (?c1, ?t)" using reduce(5) fn by simp
    have ex: "w_fs w (inter_name (int i) (int b)) \<noteq> None" if "i < length names" for i
      using inv reduce(1) that len b
      by (auto simp: mr_inv_def idle_state_def allMapTasksDone_def list_all_length map_written_def)
    have io: "os_create_ok env name" for name using env by (simp add: good_env_def)
    from reduce_files_total [of env "length names" "w_fs w" b, OF io ex] obtain fs'
      where f: "reduce_files js env reducef ?t (w_fs w) = Inr fs'" by blast
    have "coord_ok ?c1" using AssignTask_ok [OF ok a] by simp
    from ReportTaskDone_reduce [OF this, of b "length names"] b fn
    have r: "ReportTaskDone ?t ?c1 = Inr ?c2" by simp
    have "(mr_step js mapf reducef)\<^sup>*\<^sup>* (idle_state w) (idle_state (w\<lparr>w_fs := fs', w_coord := ?c2\<rparr>))"
      by (rule round_steps [where env = env, OF a _ _ r]) (use f env in \<open>simp_all add: is_work_def good_env_def\<close>)
    moreover have "Worker_round js mapf reducef env w = Inr (True, w\<lparr>w_fs := fs', w_coord := ?c2\<rparr>)"
      by (rule Worker_round_work [OF env a _ r]) (simp add: f)
    moreover have "todo (reduceTaskStatus ?c2) < todo (reduceTaskStatus ?c)"
      using todo_finish [of b "reduceTaskStatus ?c"] reduce(3) b len by simp
    ultimately show ?thesis using none_assigned_finish(2) [OF free] by auto
  next
    case exit
    then show ?thesis using env by (simp add: Worker_round_def RequestTask_def good_env_def Done_def)
  next
    case wait
    then show ?thesis using free by (auto simp: none_assigned_def)
  qed
qed

lemma steps_inv:
  assumes "json_stream js" and "job_ok mapf fs0 names n"
    and "(mr_step js mapf reducef)\<^sup>*\<^sup>* s s'" and "mr_inv js mapf reducef fs0 names n s"
  shows "mr_inv js mapf reducef fs0 names n s'"
  using assms(3,4) by induction (use json_stream.mr_step_inv [OF assms(1) _ assms(2)] in blast)+

lemma Worker_finishes:
  assumes js: "json_stream js" and job: "job_ok mapf fs0 names n" and envs: "\<And>k. good_env (envs k)"
  shows "mr_inv js mapf reducef fs0 names n (idle_state w) \<Longrightarrow> none_assigned (w_coord w) \<Longrightarrow>
    \<exists>w'. Worker js mapf reducef envs k w = Some (Inr w') \<and> snd (Done (w_coord w')) \<and>
      (mr_step js mapf reducef)\<^sup>*\<^sup>* (idle_state w) (idle_state w')"
proof (induction "todo (mapTaskStatus (w_coord w)) + todo (reduceTaskStatus (w_coord w))" arbitrary: w k rule: less_induct)
  case less
  from Worker_round_progress [OF job envs [of k] less.prems] show ?case
  proof (elim disjE exE conjE)
    fix w' assume r: "Worker_round js mapf reducef (envs k) w = Inr (True, w')"
      and st: "(mr_step js mapf reducef)\<^sup>*\<^sup>* (idle_state w) (idle_state w')" "none_assigned (w_coord w')"
      and "todo (mapTaskStatus (w_coord w')) + todo (reduceTaskStatus (w_coord w')) <
        todo (mapTaskStatus (w_coord w)) + todo (reduceTaskStatus (w_coord w))"
    with less.hyps [of w' "Suc k"] steps_inv [OF js job st(1) less.prems(1)] obtain v where
      "Worker js mapf reducef envs (Suc k) w' = Some (Inr v)" "snd (Done (w_coord v))"
      "(mr_step js mapf reducef)\<^sup>*\<^sup>* (idle_state w') (idle_state v)" by blast
    then show ?thesis using r st(1) by (subst Worker.simps) (auto intro: rtranclp_trans)
  next
    assume "Worker_round js mapf reducef (envs k) w = Inr (False, w)" "snd (Done (w_coord w))"
    then show ?thesis by (subst Worker.simps) simp
  qed
qed

lemma none_assigned_init: "MakeCoordinator names nr = Inr c \<Longrightarrow> none_assigned c"
proof (cases "0 \<le> nr")
  case True
  then show "MakeCoordinator names nr = Inr c \<Longrightarrow> ?thesis"
    using MakeCoordinator_eq [of nr names] by (auto simp: none_assigned_def zeroStatus_def)
next
  case False
  then show "MakeCoordinator names nr = Inr c \<Longrightarrow> ?thesis" by (simp add: MakeCoordinator_def make_slice_def)
qed

lemma idle_init: "idle_state \<lparr>w_fs = fs0, w_coord = c\<rparr> = mr_init fs0 c"
  by (simp add: idle_state_def mr_init_def)

lemma single_worker:
  assumes "json_stream js" and "MakeCoordinator names (int n) = Inr c" and "job_ok mapf fs0 names n"
    and "\<And>k. good_env (envs k)"
  obtains w where "Worker js mapf reducef envs 0 \<lparr>w_fs = fs0, w_coord = c\<rparr> = Some (Inr w)"
    "snd (Done (w_coord w))" "(mr_step js mapf reducef)\<^sup>*\<^sup>* (mr_init fs0 c) (idle_state w)"
proof -
  have "none_assigned (w_coord \<lparr>w_fs = fs0, w_coord = c\<rparr>)" using none_assigned_init [OF assms(2)] by simp
  from Worker_finishes [where envs = envs, OF assms(1,3,4) _ this] mr_inv_init [OF assms(2)] that
  show thesis unfolding idle_init by blast
qed

subsection \<open>The output of a finished job\<close>

lemma finished_lines:
  assumes "json_stream js" and "MakeCoordinator names (int n) = Inr c" and "job_ok mapf fs0 names n"
    and "(mr_step js mapf reducef)\<^sup>*\<^sup>* (mr_init fs0 c) s" and "snd (Done (s_coord s))"
  shows "\<exists>out. \<forall>b<n. s_fs s (out_name (int b)) = Some (concat (out b)) \<and>
    mset (out b) = spec_lines reducef (bucket n b (all_output mapf fs0 names))"
proof -
  let ?all = "all_output mapf fs0 names"
  have "\<exists>ks. distinct ks \<and> set ks = key_set (bucket n b ?all) \<and>
      s_fs s (out_name (int b)) = Some (concat (lines_for reducef (bucket n b ?all) ks))" if "b < n" for b
    using json_stream.mr_done_written [OF assms that] by (simp add: reduce_written_def)
  then obtain ks where "\<And>b. b < n \<Longrightarrow> distinct (ks b) \<and> set (ks b) = key_set (bucket n b ?all) \<and>
      s_fs s (out_name (int b)) = Some (concat (lines_for reducef (bucket n b ?all) (ks b)))" by metis
  then show ?thesis
    using lines_for_spec by (intro exI [of _ "\<lambda>b. lines_for reducef (bucket n b ?all) (ks b)"]) metis
qed

subsection \<open>Properties\<close>

text \<open>
  The distributed job computes what the sequential program computes. Take any interleaving of
  requests, task executions, reports, timeouts and worker deaths that leads to a state in which
  \<open>Done\<close> answers \<open>true\<close>: then every output file \<open>mr-out-b\<close> is there, and the lines of all of them
  together are, as a multiset, the lines that mrsequential writes to its \<open>mr-out-0\<close> for the same
  input, for every sort it may use, provided the result of the reduce function does not depend on
  the order of the values.
\<close>

lemma mapreduce_matches_sequential:
  assumes "json_stream js" and "MakeCoordinator names (int n) = Inr c" and "job_ok mapf fs0 names n"
    and "order_free reducef" and "is_go_sort ByKey_Less sortByKey"
    and "(mr_step js mapf reducef)\<^sup>*\<^sup>* (mr_init fs0 c) s" and "snd (Done (s_coord s))"
  shows "\<exists>out seq fs1. (\<forall>b<n. s_fs s (out_name (int b)) = Some (concat (out b))) \<and>
    mrsequential sortByKey mapf reducef names fs0 = Inr fs1 \<and> fs1 ''mr-out-0'' = Some (concat seq) \<and>
    mset (concat (map out [0..<n])) = mset seq"
proof -
  let ?all = "all_output mapf fs0 names"
  have n: "0 < n" and input: "\<forall>f\<in>set names. fs0 f \<noteq> None" using assms(3) by (auto simp: job_ok_def)
  obtain out where out: "\<And>b. b < n \<Longrightarrow> s_fs s (out_name (int b)) = Some (concat (out b)) \<and>
      mset (out b) = spec_lines reducef (bucket n b ?all)"
    using finished_lines [OF assms(1-3,6,7)] by blast
  from mrsequential_lines [OF input assms(5,4)] obtain fs1 seq where
    s: "mrsequential sortByKey mapf reducef names fs0 = Inr fs1" "fs1 ''mr-out-0'' = Some (concat seq)"
    "mset seq = spec_lines reducef ?all" by blast
  have "mset (concat (map out [0..<n])) = (\<Sum>b<n. spec_lines reducef (bucket n b ?all))"
    unfolding mset_concat_upt using out by simp
  also have "\<dots> = mset seq" using buckets_spec [OF n] s(3) by simp
  finally show ?thesis using out s(1,2) by blast
qed

text \<open>A job with one input file, one reduce task, and the identity as its application.\<close>

definition tiny_map :: "string \<Rightarrow> string \<Rightarrow> KeyValue list" where
  "tiny_map f content = [\<lparr>kvKey = ''k'', kvValue = ''v''\<rparr>]"

definition tiny_reduce :: "string \<Rightarrow> string list \<Rightarrow> string" where
  "tiny_reduce k vs = itoa (int (length vs))"

definition tiny_env :: worker_env where
  "tiny_env = \<lparr>os_create_ok = (\<lambda>_. True), os_write_ok = (\<lambda>_. True), range_order = (\<lambda>xs. xs),
     request_conn = CallOk, request_now = 0, notify_conn = CallOk\<rparr>"

definition tiny_fs :: fs where
  "tiny_fs = [''f'' \<mapsto> ''text'']"

lemma tiny_job: "job_ok tiny_map tiny_fs [''f''] 1"
proof -
  have "valid_utf8 ''k''" "valid_utf8 ''v''" by (simp_all add: valid_utf8_def RuneError_def)
  then show ?thesis
    by (auto simp: job_ok_def generated_def inter_name_def out_name_def tiny_fs_def all_output_def map_output_def
        tiny_map_def valid_pair_def)
qed

lemma tiny_good: "good_env tiny_env"
  by (simp add: good_env_def tiny_env_def)

lemma order_free_count: "order_free (\<lambda>k vs. itoa (int (length vs)))"
  by (auto simp: order_free_def dest: mset_eq_length)

lemma ByKey_Less_sort: "is_go_sort ByKey_Less (sort_by ByKey_Less)"
  by (rule sort_by_is_go_sort) (auto simp: ByKey_Less_def)

text \<open>
  One worker finishes the job: when the coordinator can be reached and files can be created
  and written, \<open>Worker\<close> returns, and then \<open>Done\<close> answers \<open>true\<close> and every output file holds one line
  for each key of its bucket.
\<close>

lemma single_worker_finishes:
  assumes "json_stream js" and "MakeCoordinator names (int n) = Inr c" and "job_ok mapf fs0 names n"
    and "\<And>k. good_env (envs k)"
  shows "\<exists>w. Worker js mapf reducef envs 0 \<lparr>w_fs = fs0, w_coord = c\<rparr> = Some (Inr w) \<and> snd (Done (w_coord w)) \<and>
    (\<forall>b<n. reduce_written mapf reducef fs0 names n (w_fs w) b)"
proof -
  obtain w where w: "Worker js mapf reducef envs 0 \<lparr>w_fs = fs0, w_coord = c\<rparr> = Some (Inr w)"
    "snd (Done (w_coord w))" "(mr_step js mapf reducef)\<^sup>*\<^sup>* (mr_init fs0 c) (idle_state w)"
    using single_worker [where envs = envs, OF assms] by blast
  have "reduce_written mapf reducef fs0 names n (w_fs w) b" if "b < n" for b
    using json_stream.mr_done_written [OF assms(1-3) w(3) _ that] w(2) by (simp add: idle_state_def)
  with w(1,2) show ?thesis by blast
qed

text \<open>
  C30. Intermediate files are not written atomically. Suppose a worker that was too slow starts
  its map task \<open>i\<close> again after another worker has completed it: from the moment it has re-created
  the files, a reduce task still succeeds, but its output is computed without any of the pairs of
  input file \<open>i\<close>, and no error is raised anywhere.
\<close>

theorem late_map_loses_pairs:
  assumes "json_stream js" and "\<And>xs. mset (range_order env' xs) = mset xs" and "b < n" and "i < nf"
    and "create_intermediate env (map_task (int n) i f) fs = Inr fs1"
    and "reduce_files js env' reducef (reduce_task nf b) fs1 = Inr fs2"
  shows "\<exists>ks kvs. kvs = concat (map (\<lambda>j. js_documents js (the (fs (inter_name (int j) (int b)))))
        ([0..<i] @ [Suc i..<nf])) \<and> distinct ks \<and> set ks = key_set kvs \<and>
     fs2 (out_name (int b)) = Some (concat (lines_for reducef kvs ks))"
proof -
  let ?d = "\<lambda>fs j. js_documents js (the (fs (inter_name (int j) (int b))))"
  have "go_fold (\<lambda>b. os_Create env (inter_name (int i) (int b)) ''Cannot create file'') [0..<n] fs = Inr fs1"
    using assms(5) by (simp add: create_intermediate_def map_task_def)
  note c = create_fold_effect [OF this]
  have "js_documents js [] = []" using json_stream.read_back [OF assms(1), of "[]"] by (simp add: encoded_def)
  then have i: "?d fs1 i = []" using c assms(3) by simp
  have j: "?d fs1 j = ?d fs j" if "j \<noteq> i" for j using c that by simp
  let ?kvs = "concat (map (?d fs) ([0..<i] @ [Suc i..<nf]))"
  have "[0..<nf] = [0..<i] @ i # [Suc i..<nf]" using assms(4) 
    upt_add_eq_append [of 0 i "nf - i"] by (simp add: upt_conv_Cons)
  then have "concat (map (?d fs1) [0..<nf]) = concat (map (?d fs1) [0..<i]) @ concat (map (?d fs1) [Suc i..<nf])"
    using i by simp
  also have "map (?d fs1) [0..<i] = map (?d fs) [0..<i]" by (rule map_cong [OF refl]) (simp add: j)
  also have "map (?d fs1) [Suc i..<nf] = map (?d fs) [Suc i..<nf]" by (rule map_cong [OF refl]) (simp add: j)
  finally have kvs: "?kvs = concat (map (?d fs1) [0..<nf])" by simp
  from reduce_files_effect [OF assms(6,2) kvs] obtain ks where "distinct ks" "set ks = key_set ?kvs"
    "fs2 = fs1(out_name (int b) \<mapsto> concat (lines_for reducef ?kvs ks))" by blast
  then show ?thesis by (intro exI [of _ ks] exI [of _ ?kvs]) simp
qed

theorem late_map_loses_pairs_witness:
  "\<exists>fs1 fs2. create_intermediate tiny_env (map_task (int 1) 0 ''f'')
       [inter_name 0 0 \<mapsto> encoded line_json [\<lparr>kvKey = ''k'', kvValue = ''v''\<rparr>]] = Inr fs1 \<and>
     reduce_files line_json tiny_env tiny_reduce (reduce_task 1 0) fs1 = Inr fs2 \<and> fs2 (out_name 0) = Some []"
proof -
  let ?fs = "[inter_name 0 0 \<mapsto> encoded line_json [\<lparr>kvKey = ''k'', kvValue = ''v''\<rparr>]]"
  have c: "create_intermediate tiny_env (map_task (int 1) 0 ''f'') ?fs = Inr (?fs(inter_name 0 0 \<mapsto> []))"
    by (simp add: create_intermediate_def map_task_def os_Create_def tiny_env_def)
  obtain fs2 where r: "reduce_files line_json tiny_env tiny_reduce (reduce_task 1 0) (?fs(inter_name 0 0 \<mapsto> [])) = Inr fs2"
    using reduce_files_total [of tiny_env 1 "?fs(inter_name 0 0 \<mapsto> [])" 0] by (auto simp: tiny_env_def)
  have "fs2 (out_name 0) = Some []"
    using late_map_loses_pairs [OF line.json_stream_axioms _ _ _ c r] by (auto simp: tiny_env_def key_set_def lines_for_def)
  with c r show ?thesis by blast
qed

end
