(* ===== verification/Mr_Apps.thy ===== *)
theory Mr_Apps
  imports Mr_Run
begin

text \<open>
  The map/reduce applications of \<open>mrapps/\<close>: word count, the indexer, the crashing and the
  non-crashing test applications, early exit, the job counter, and the parts of the timing
  applications that do not look at the process table (\<open>Mr_Timing\<close> has the others). The Unicode tables, random numbers, process
  ids and directory listings are arguments.
\<close>

subsection \<open>Word count (wc.go)\<close>

definition wc_Map :: "(nat \<Rightarrow> bool) \<Rightarrow> string \<Rightarrow> string \<Rightarrow> KeyValue list" where
  "wc_Map isLetter filename contents =
     (let words = FieldsFunc contents (\<lambda>r. \<not> isLetter r)
      in map (\<lambda>w. \<lparr>kvKey = w, kvValue = ''1''\<rparr>) words)"

definition wc_Reduce :: "string \<Rightarrow> string list \<Rightarrow> string" where
  "wc_Reduce key values = itoa (int (length values))"

subsection \<open>Indexer (indexer.go)\<close>

definition indexer_Map ::
    "(nat \<Rightarrow> bool) \<Rightarrow> (string list \<Rightarrow> string list) \<Rightarrow> string \<Rightarrow> string \<Rightarrow> KeyValue list" where
  "indexer_Map isLetter mapOrder document val =
     (let words = FieldsFunc val (\<lambda>x. \<not> isLetter x);
          m = fold (\<lambda>w m. AList.update w True m) words []
      in map (\<lambda>w. \<lparr>kvKey = w, kvValue = document\<rparr>) (mapOrder (map fst m)))"

definition indexer_Reduce :: "string \<Rightarrow> string list \<Rightarrow> string" where
  "indexer_Reduce key values =
     (let vals = sort values in itoa (int (length vals)) @ '' '' @ join vals '','')"

subsection \<open>The crashing application (crash.go) and its tame twin (nocrash.go)\<close>

text \<open>\<open>rr\<close> is the random number below 1000; the delay of the middle branch has no effect on values.\<close>

definition crash_maybeCrash :: "int \<Rightarrow> unit go" where
  "crash_maybeCrash rr = (if rr < 330 then Inl (OsExit 1) else if rr < 660 then Inr () else Inr ())"

definition nocrash_maybeCrash :: "int \<Rightarrow> unit go" where
  "nocrash_maybeCrash rr = (if False \<and> rr < 500 then Inl (OsExit 1) else Inr ())"

definition four_pairs :: "string \<Rightarrow> string \<Rightarrow> KeyValue list" where
  "four_pairs filename contents =
     [\<lparr>kvKey = ''a'', kvValue = filename\<rparr>, \<lparr>kvKey = ''b'', kvValue = itoa (int (length filename))\<rparr>,
      \<lparr>kvKey = ''c'', kvValue = itoa (int (length contents))\<rparr>, \<lparr>kvKey = ''d'', kvValue = ''xyzzy''\<rparr>]"

definition crash_Map :: "int \<Rightarrow> string \<Rightarrow> string \<Rightarrow> KeyValue list go" where
  "crash_Map rr filename contents =
     go_bind (crash_maybeCrash rr) (\<lambda>_. Inr (four_pairs filename contents))"

definition crash_Reduce :: "int \<Rightarrow> string \<Rightarrow> string list \<Rightarrow> string go" where
  "crash_Reduce rr key values =
     go_bind (crash_maybeCrash rr) (\<lambda>_.
       let vv = copy_slice (replicate (length values) []) values in Inr (join (sort vv) '' ''))"

definition nocrash_Map :: "int \<Rightarrow> string \<Rightarrow> string \<Rightarrow> KeyValue list go" where
  "nocrash_Map rr filename contents =
     go_bind (nocrash_maybeCrash rr) (\<lambda>_. Inr (four_pairs filename contents))"

definition nocrash_Reduce :: "int \<Rightarrow> string \<Rightarrow> string list \<Rightarrow> string go" where
  "nocrash_Reduce rr key values =
     go_bind (nocrash_maybeCrash rr) (\<lambda>_.
       let vv = copy_slice (replicate (length values) []) values in Inr (join (sort vv) '' ''))"

subsection \<open>Early exit (early_exit.go)\<close>

definition early_Map :: "string \<Rightarrow> string \<Rightarrow> KeyValue list" where
  "early_Map filename contents = [\<lparr>kvKey = filename, kvValue = ''1''\<rparr>]"

text \<open>The result with the time slept, in nanoseconds.\<close>

definition early_Reduce :: "string \<Rightarrow> string list \<Rightarrow> int \<times> string" where
  "early_Reduce key values =
     (if contains key ''sherlock'' \<or> contains key ''tom'' then 3000000000 else 0, itoa (int (length values)))"

subsection \<open>Job counter (jobcount.go)\<close>

definition jobcount_Map ::
    "int \<Rightarrow> (string \<Rightarrow> bool) \<Rightarrow> int \<Rightarrow> fs \<Rightarrow> string \<Rightarrow> string \<Rightarrow> (int \<times> fs \<times> KeyValue list) go" where
  "jobcount_Map pid writable cnt fs filename contents =
     (let f = ''mr-worker-jobcount-'' @ itoa pid @ ''-'' @ itoa cnt
      in if writable f then Inr (cnt + 1, fs(f \<mapsto> ''x''), [\<lparr>kvKey = ''a'', kvValue = ''x''\<rparr>])
         else Inl (ExplicitPanic f))"

text \<open>\<open>listing\<close> is the result of \<open>ioutil.ReadDir\<close>, absent on an error.\<close>

definition jobcount_Reduce :: "string list option \<Rightarrow> string \<Rightarrow> string list \<Rightarrow> string go" where
  "jobcount_Reduce listing key values =
     (case listing of None \<Rightarrow> Inl (ExplicitPanic ''ReadDir'')
      | Some names \<Rightarrow>
          Inr (itoa (foldl (\<lambda>n name. if has_prefix name ''mr-worker-jobcount'' then n + 1 else n) 0 names)))"

subsection \<open>The timing applications (mtiming.go, rtiming.go)\<close>

definition mtiming_Reduce :: "string \<Rightarrow> string list \<Rightarrow> string" where
  "mtiming_Reduce key values =
     (let vv = copy_slice (replicate (length values) []) values in join (sort vv) '' '')"

definition rtiming_Map :: "string \<Rightarrow> string \<Rightarrow> KeyValue list" where
  "rtiming_Map filename contents =
     map (\<lambda>k. \<lparr>kvKey = k, kvValue = ''1''\<rparr>)
       [''a'', ''b'', ''c'', ''d'', ''e'', ''f'', ''g'', ''h'', ''i'', ''j'']"

subsection \<open>Words are valid UTF-8\<close>

lemma decode_rune_prefix:
  assumes "decode_rune bs = (r, w)" "bs \<noteq> []" "\<not> (r = RuneError \<and> w = 1)"
  shows "decode_rune (take w bs @ ys) = (r, w)"
proof -
  obtain b0 b where bs: "bs = b0 # b" using assms(2) by (cases bs) auto
  have d2: "decode2 c (take (w - 1) b @ ys) = (r, w)" if d: "decode2 c b = (r, w)" for c
  proof -
    from d assms(3) obtain b1 bt where "b = b1 # bt" "w = 2"
      by (auto simp: decode2_def split: list.splits if_splits)
    with d show ?thesis by (simp add: decode2_def)
  qed
  have d3: "decode3 c lo hi (take (w - 1) b @ ys) = (r, w)" if d: "decode3 c lo hi b = (r, w)" for c lo hi
  proof -
    from d assms(3) obtain b1 b2 bt where "b = b1 # b2 # bt" "w = Suc (Suc (Suc 0))"
      by (auto simp: decode3_def split: list.splits if_splits)
    with d show ?thesis by (simp add: decode3_def)
  qed
  have d4: "decode4 c lo hi (take (w - 1) b @ ys) = (r, w)" if d: "decode4 c lo hi b = (r, w)" for c lo hi
  proof -
    from d assms(3) obtain b1 b2 b3 bt where "b = b1 # b2 # b3 # bt" "w = Suc (Suc (Suc (Suc 0)))"
      by (auto simp: decode4_def split: list.splits if_splits)
    with d show ?thesis by (simp add: decode4_def)
  qed
  have "1 \<le> w" using decode_rune_width [OF assms(2)] assms(1) by simp
  then have tk: "take w bs @ ys = b0 # (take (w - 1) b @ ys)" by (cases w) (simp_all add: bs)
  show ?thesis
    unfolding tk using assms(1,3) unfolding bs by (auto simp: d2 [unfolded One_nat_def] d3 [unfolded One_nat_def] d4 [unfolded One_nat_def] split: if_splits)
qed

text \<open>A segment of a string that was decoded to a code point, as opposed to an invalid byte.\<close>

definition good_rune :: "nat \<times> string \<Rightarrow> bool" where
  "good_rune p \<longleftrightarrow> decode_rune (map of_char (snd p)) = (fst p, length (snd p)) \<and> snd p \<noteq> [] \<and>
     \<not> (fst p = RuneError \<and> length (snd p) = 1)"

lemma runes_good:
  "(r, bs) \<in> set (runes s) \<Longrightarrow> \<not> (r = RuneError \<and> length bs = 1) \<Longrightarrow> good_rune (r, bs)"
proof (induction s rule: runes.induct)
  case (2 c cs)
  let ?bs = "map of_char (c # cs) :: nat list"
  obtain r' w where d: "decode_rune ?bs = (r', w)" by fastforce
  have w: "1 \<le> w" "w \<le> length ?bs" using decode_rune_width [of ?bs] d by auto
  from 2(2) consider "(r, bs) = (r', take w (c # cs))" | "(r, bs) \<in> set (runes (drop w (c # cs)))"
    unfolding runes.simps d by auto
  then show ?case
  proof cases
    case 1
    have "length (take w (c # cs)) = w" using w by simp
    then have "\<not> (r' = RuneError \<and> w = 1)" using 1 2(3) by auto
    have "?bs \<noteq> []" by simp
    from decode_rune_prefix [OF d this \<open>\<not> (r' = RuneError \<and> w = 1)\<close>, of "[]"]
    have "decode_rune (take w ?bs) = (r', w)" unfolding append_Nil2 .
    then have "decode_rune (map of_char (take w (c # cs))) = (r', w)" unfolding take_map .
    with 1 2(3) w \<open>length (take w (c # cs)) = w\<close> show ?thesis unfolding good_rune_def by auto
  next
    case 2
    with "2.IH" [OF refl d [symmetric]] "2.prems"(2) show ?thesis by blast
  qed
qed simp

lemma runes_concat_good: "\<forall>p\<in>set ps. good_rune p \<Longrightarrow> runes (concat (map snd ps)) = ps"
proof (induction ps)
  case (Cons p ps)
  obtain r bs where p: "p = (r, bs)" by (cases p)
  with Cons.prems have g: "decode_rune (map of_char bs) = (r, length bs)" "bs \<noteq> []" "\<not> (r = RuneError \<and> length bs = 1)"
    by (auto simp: good_rune_def)
  let ?rest = "concat (map snd ps)"
  obtain c cs where cs: "bs @ ?rest = c # cs" using g(2) by (cases bs) auto
  have "decode_rune (map of_char (bs @ ?rest)) = (r, length bs)"
    using decode_rune_prefix [OF g(1) _ g(3), of "map of_char ?rest"] g(2) by simp
  then have "runes (bs @ ?rest) = (r, bs) # runes ?rest"
    unfolding cs runes.simps by (simp flip: cs)
  with Cons p show ?case by simp
qed simp

lemma valid_concat_good: "\<forall>p\<in>set ps. good_rune p \<Longrightarrow> valid_utf8 (concat (map snd ps))"
  unfolding valid_utf8_def by (subst runes_concat_good) (auto simp: good_rune_def)

lemma fields_loop_valid:
  assumes "\<forall>(r, bs)\<in>set rs. \<not> (r = RuneError \<and> length bs = 1) \<longrightarrow> good_rune (r, bs)"
    and "cur = concat (map snd ps)" and "\<forall>p\<in>set ps. good_rune p" and "w \<in> set (fields_loop f cur rs)"
    and "f RuneError"
  shows "valid_utf8 w"
  using assms
proof (induction f cur rs arbitrary: ps rule: fields_loop.induct)
  case (1 f cur)
  then show ?case using valid_concat_good by (auto split: if_splits)
next
  case (2 f cur r bs rs)
  show ?case
  proof (cases "f r")
    case True
    with 2(6) consider "w = cur" | "w \<in> set (fields_loop f [] rs)" by (auto split: if_splits)
    then show ?thesis
    proof cases
      case 1
      with 2(4,5) valid_concat_good show ?thesis by blast
    next
      case 2
      with "2.IH"(1) [OF True, of "[]"] "2.prems"(1,5) show ?thesis by simp
    qed
  next
    case False
    then have "r \<noteq> RuneError" using 2(7) by auto
    then have "good_rune (r, bs)" using 2(3) by auto
    with 2(2) [OF False, of "ps @ [(r, bs)]"] 2(3-7) False show ?thesis by simp
  qed
qed

lemma FieldsFunc_valid:
  assumes "f RuneError" and "w \<in> set (FieldsFunc s f)"
  shows "valid_utf8 w"
proof (rule fields_loop_valid [of "runes s" "[]" "[]" w f])
  show "\<forall>(r, bs)\<in>set (runes s). \<not> (r = RuneError \<and> length bs = 1) \<longrightarrow> good_rune (r, bs)"
    using runes_good by blast
qed (use assms in \<open>auto simp: FieldsFunc_def\<close>)

subsection \<open>Reduce functions and the order of their values\<close>

lemma order_free_wc: "order_free wc_Reduce"
  using order_free_count by (simp add: wc_Reduce_def [abs_def])

lemma sort_eq_of_mset: "mset vs = mset vs' \<Longrightarrow> sort vs = sort vs'" for vs :: "string list"
  by (metis mset_sort properties_for_sort sorted_sort)

lemma order_free_indexer: "order_free indexer_Reduce"
  unfolding order_free_def indexer_Reduce_def Let_def by (metis sort_eq_of_mset)

lemma order_free_mtiming: "order_free mtiming_Reduce"
  unfolding order_free_def mtiming_Reduce_def Let_def copy_slice_fresh [OF length_replicate]
  by (metis sort_eq_of_mset)

subsection \<open>The words of the input\<close>

definition words_of :: "(nat \<Rightarrow> bool) \<Rightarrow> fs \<Rightarrow> string list \<Rightarrow> string list" where
  "words_of isLetter fs0 names =
     concat (map (\<lambda>f. FieldsFunc (the (fs0 f)) (\<lambda>r. \<not> isLetter r)) names)"

lemma wc_all_output:
  "all_output (wc_Map isLetter) fs0 names =
     map (\<lambda>w. \<lparr>kvKey = w, kvValue = ''1''\<rparr>) (words_of isLetter fs0 names)"
proof -
  have "map (map_output (wc_Map isLetter) fs0 names) [0..<length names] =
      map (\<lambda>f. map (\<lambda>w. \<lparr>kvKey = w, kvValue = ''1''\<rparr>) (FieldsFunc (the (fs0 f)) (\<lambda>r. \<not> isLetter r))) names"
    by (rule nth_equalityI) (simp_all add: map_output_def wc_Map_def)
  then show ?thesis by (simp add: all_output_def words_of_def map_concat comp_def)
qed

lemma wc_values: "length (values_of k (map (\<lambda>w. \<lparr>kvKey = w, kvValue = v\<rparr>) ws)) = count (mset ws) k"
  by (induction ws) (auto simp: values_of_def)

lemma wc_lines:
  "spec_lines wc_Reduce (all_output (wc_Map isLetter) fs0 names) =
     image_mset (\<lambda>w. out_line w (itoa (int (count (mset (words_of isLetter fs0 names)) w))))
       (mset_set (set (words_of isLetter fs0 names)))"
  by (simp add: spec_lines_def wc_all_output wc_Reduce_def wc_values key_set_def image_image)

lemma wc_job:
  assumes "0 < n" and "\<forall>f\<in>set names. fs0 f \<noteq> None \<and> \<not> generated f" and "\<not> isLetter RuneError"
  shows "job_ok (wc_Map isLetter) fs0 names n"
proof -
  have "valid_utf8 ''1''" by (simp add: valid_utf8_def RuneError_def)
  moreover have "valid_utf8 w" if "w \<in> set (words_of isLetter fs0 names)" for w
    using that FieldsFunc_valid [of "\<lambda>r. \<not> isLetter r"] assms(3) by (auto simp: words_of_def)
  ultimately show ?thesis using assms(1,2) by (auto simp: job_ok_def wc_all_output valid_pair_def)
qed

subsection \<open>Properties\<close>


definition ascii_letter :: "nat \<Rightarrow> bool" where
  "ascii_letter r \<longleftrightarrow> 65 \<le> r \<and> r \<le> 90 \<or> 97 \<le> r \<and> r \<le> 122"


text \<open>
  The indexer, the crash test and the timing test sort their values, and word count only
  counts them: their reduce functions do not depend on the order in which the values arrive.
\<close>

lemma reduce_functions_order_free:
  "order_free wc_Reduce \<and> order_free indexer_Reduce \<and> order_free mtiming_Reduce \<and>
   order_free (\<lambda>k vs. snd (early_Reduce k vs)) \<and>
   order_free (\<lambda>k vs. case nocrash_Reduce rr k vs of Inl _ \<Rightarrow> [] | Inr s \<Rightarrow> s)"
proof -
  have "nocrash_Reduce rr k vs = Inr (mtiming_Reduce k vs)" for k vs
    by (simp add: nocrash_Reduce_def nocrash_maybeCrash_def mtiming_Reduce_def Let_def)
  moreover have "order_free (\<lambda>k vs. snd (early_Reduce k vs))"
    using order_free_count by (simp add: early_Reduce_def)
  ultimately show ?thesis using order_free_wc order_free_indexer order_free_mtiming by simp
qed

end
