(* ===== verification/Mr_Main.thy ===== *)
theory Mr_Main
  imports Mr_Apps
begin

text \<open>
  The programs of the map/reduce lab (\<open>main/mrcoordinator.go\<close>, \<open>main/mrworker.go\<close> and the command line of
  \<open>main/mrsequential.go\<close>), with the socket of the coordinator (\<open>mr/rpc.go\<close>, \<open>mr/coordinator.go\<close>). The argument
  lists have the program's name first. Plugins are an argument: what \<open>plugin.Open\<close> and \<open>Lookup\<close> find.
\<close>

subsection \<open>Plugins\<close>

datatype plugin_symbol =
    MapFun "string \<Rightarrow> string \<Rightarrow> KeyValue list"
  | ReduceFun "string \<Rightarrow> string list \<Rightarrow> string"
  | OtherSymbol

type_synonym plugin = "string \<rightharpoonup> plugin_symbol"

definition loadPlugin ::
    "(string \<rightharpoonup> plugin) \<Rightarrow> string \<Rightarrow> ((string \<Rightarrow> string \<Rightarrow> KeyValue list) \<times> (string \<Rightarrow> string list \<Rightarrow> string)) go" where
  "loadPlugin plugins filename =
     (case plugins filename of
        None \<Rightarrow> Inl (LogFatal ''cannot load plugin'')
      | Some p \<Rightarrow> (case p ''Map'' of
          None \<Rightarrow> Inl (LogFatal ''cannot find Map'')
        | Some xmapf \<Rightarrow> (case xmapf of
            MapFun mapf \<Rightarrow> (case p ''Reduce'' of
                None \<Rightarrow> Inl (LogFatal ''cannot find Reduce'')
              | Some xreducef \<Rightarrow> (case xreducef of ReduceFun reducef \<Rightarrow> Inr (mapf, reducef) | _ \<Rightarrow> Inl TypeAssertion))
          | _ \<Rightarrow> Inl TypeAssertion)))"

subsection \<open>The coordinator's program\<close>

definition coordinatorSock :: "int \<Rightarrow> string" where
  "coordinatorSock uid = ''/var/tmp/5840-mr-'' @ itoa uid"

text \<open>\<open>server\<close>: \<open>listen\<close> tells whether the socket can be opened; the result is the socket that is served.\<close>

definition coord_server :: "(string \<Rightarrow> bool) \<Rightarrow> int \<Rightarrow> string go" where
  "coord_server listen uid =
     (let sockname = coordinatorSock uid in if listen sockname then Inr sockname else Inl (LogFatal ''listen error:''))"

text \<open>The loop of \<open>main\<close>: \<open>cs k\<close> is the coordinator at the \<open>k\<close>-th poll; the result is how often \<open>main\<close> slept.\<close>

partial_function (option) await_done :: "(nat \<Rightarrow> Coordinator) \<Rightarrow> nat \<Rightarrow> nat option" where
  "await_done cs k = (if snd (Done (cs k)) = False then await_done cs (Suc k) else Some k)"

definition mrcoordinator_main ::
    "(string \<Rightarrow> bool) \<Rightarrow> int \<Rightarrow> (Coordinator \<Rightarrow> nat \<Rightarrow> Coordinator) \<Rightarrow> string list \<Rightarrow> nat go_run" where
  "mrcoordinator_main listen uid run args =
     (if length args < 2 then Some (Inl (OsExit 1))
      else run_bind (Some (MakeCoordinator (tl args) 10)) (\<lambda>m.
           run_bind (Some (coord_server listen uid)) (\<lambda>_. map_option Inr (await_done (run m) 0))))"

subsection \<open>The worker's and the sequential program\<close>

definition mrworker_main ::
    "json \<Rightarrow> (string \<rightharpoonup> plugin) \<Rightarrow> (nat \<Rightarrow> worker_env) \<Rightarrow> string list \<Rightarrow> world \<Rightarrow> world go_run" where
  "mrworker_main js plugins envs args w =
     (if length args \<noteq> 2 then Some (Inl (OsExit 1))
      else run_bind (Some (loadPlugin plugins (args ! 1))) (\<lambda>(mapf, reducef). Worker js mapf reducef envs 0 w))"

definition mrsequential_main ::
    "(KeyValue list \<Rightarrow> KeyValue list) \<Rightarrow> (string \<rightharpoonup> plugin) \<Rightarrow> string list \<Rightarrow> fs \<Rightarrow> fs go" where
  "mrsequential_main sortByKey plugins args fs =
     (if length args < 3 then Inl (OsExit 1)
      else go_bind (loadPlugin plugins (args ! 1)) (\<lambda>(mapf, reducef). mrsequential sortByKey mapf reducef (drop 2 args) fs))"

subsection \<open>Polling\<close>

text \<open>\<open>main\<close> returns at the first poll that finds the job done, and only then.\<close>

lemma await_done_first:
  assumes "snd (Done (cs (k + n)))" and "\<And>i. i < n \<Longrightarrow> \<not> snd (Done (cs (k + i)))"
  shows "await_done cs k = Some (k + n)"
  using assms
proof (induction n arbitrary: k)
  case 0
  then show ?case by (subst await_done.simps) simp
next
  case (Suc n)
  have "\<not> snd (Done (cs (Suc k + i)))" if "i < n" for i using Suc.prems(2) [of "Suc i"] that by simp
  then have "await_done cs (Suc k) = Some (Suc k + n)" using Suc.IH [of "Suc k"] Suc.prems(1) by simp
  moreover have "\<not> snd (Done (cs k))" using Suc.prems(2) [of 0] by simp
  ultimately show ?case by (subst await_done.simps) simp
qed

lemma await_done_done:
  assumes "await_done cs k = Some j"
  shows "k \<le> j \<and> snd (Done (cs j))"
proof (rule await_done.raw_induct [of "\<lambda>cs k j. k \<le> j \<and> snd (Done (cs j))", OF _ assms])
  fix f cs k j
  assume IH: "\<And>cs k j. f cs k = Some j \<Longrightarrow> k \<le> j \<and> snd (Done (cs j))"
    and "(if snd (Done (cs k)) = False then f cs (Suc k) else Some k) = Some j"
  then show "k \<le> j \<and> snd (Done (cs j))" by (auto split: if_splits dest!: IH)
qed

text \<open>The steps of the system move the coordinator by its own steps, so a finished job stays finished.\<close>

lemma mr_step_coord: "mr_step js mapf reducef s s' \<Longrightarrow> coord_step\<^sup>*\<^sup>* (s_coord s) (s_coord s')"
  by (induction rule: mr_step.induct) (auto intro: coord_step.intros)

lemma mr_steps_coord: "(mr_step js mapf reducef)\<^sup>*\<^sup>* s s' \<Longrightarrow> coord_step\<^sup>*\<^sup>* (s_coord s) (s_coord s')"
proof (induction rule: rtranclp_induct)
  case (step s' s'')
  then show ?case using mr_step_coord rtranclp_trans by metis
qed simp

lemma coord_steps_ok: "coord_step\<^sup>*\<^sup>* c c' \<Longrightarrow> coord_ok c \<Longrightarrow> coord_ok c'"
  by (induction rule: rtranclp_induct) (auto dest: coord_step_ok)

lemma MakeCoordinator_10: "\<exists>c. MakeCoordinator inputs 10 = Inr c"
  using MakeCoordinator_eq [of 10 inputs] by auto

text \<open>As soon as a poll can find the job done, \<open>mrcoordinator\<close> returns.\<close>

lemma mrcoordinator_returns:
  assumes "MakeCoordinator inputs 10 = Inr c" and "inputs \<noteq> []" and "listen (coordinatorSock uid)" and "snd (Done (cs j))"
  shows "\<exists>k\<le>j. mrcoordinator_main listen uid (\<lambda>_. cs) (prog # inputs) = Some (Inr k)"
proof -
  define k where "k = (LEAST k. snd (Done (cs k)))"
  have k: "snd (Done (cs k))" "k \<le> j"
    using LeastI [of "\<lambda>k. snd (Done (cs k))", OF assms(4)] Least_le [of "\<lambda>k. snd (Done (cs k))", OF assms(4)] by (simp_all add: k_def)
  have "\<not> snd (Done (cs i))" if "i < k" for i using not_less_Least that unfolding k_def by blast
  then have "await_done cs 0 = Some k" using await_done_first [of cs 0 k] k(1) by simp
  then have "mrcoordinator_main listen uid (\<lambda>_. cs) (prog # inputs) = Some (Inr k)"
    using assms(1-3) by (simp add: mrcoordinator_main_def coord_server_def Let_def Suc_le_eq)
  then show ?thesis using k(2) by blast
qed

subsection \<open>Recovery\<close>

text \<open>All workers may die, whatever they are doing.\<close>

lemma running_die: "(mr_step js mapf reducef)\<^sup>*\<^sup>* s (s\<lparr>s_running := {#}\<rparr>)"
proof (induction "s_running s" arbitrary: s)
  case empty
  then have "s\<lparr>s_running := {#}\<rparr> = s" by simp
  then show ?case by simp
next
  case (add t ts)
  let ?s = "s\<lparr>s_running := s_running s - {#t#}\<rparr>"
  have "mr_step js mapf reducef s ?s" by (rule mr_step.die) (simp flip: add.hyps(2))
  moreover have "(mr_step js mapf reducef)\<^sup>*\<^sup>* ?s (?s\<lparr>s_running := {#}\<rparr>)" using add.hyps(1) [of ?s] add.hyps(2) [symmetric] by simp
  ultimately show ?case by (simp add: converse_rtranclp_into_rtranclp)
qed

lemma reporting_die: "(mr_step js mapf reducef)\<^sup>*\<^sup>* s (s\<lparr>s_reporting := {#}\<rparr>)"
proof (induction "s_reporting s" arbitrary: s)
  case empty
  then have "s\<lparr>s_reporting := {#}\<rparr> = s" by simp
  then show ?case by simp
next
  case (add t ts)
  let ?s = "s\<lparr>s_reporting := s_reporting s - {#t#}\<rparr>"
  have "mr_step js mapf reducef s ?s" by (rule mr_step.die_before_report) (simp flip: add.hyps(2))
  moreover have "(mr_step js mapf reducef)\<^sup>*\<^sup>* ?s (?s\<lparr>s_reporting := {#}\<rparr>)" using add.hyps(1) [of ?s] add.hyps(2) [symmetric] by simp
  ultimately show ?case by (simp add: converse_rtranclp_into_rtranclp)
qed

lemma all_die_and_expire:
  "(mr_step js mapf reducef)\<^sup>*\<^sup>* s (idle_state \<lparr>w_fs = s_fs s, w_coord = checkTaskTimeouts clock (s_coord s)\<rparr>)"
proof -
  let ?s1 = "s\<lparr>s_running := {#}\<rparr>" and ?s2 = "s\<lparr>s_running := {#}, s_reporting := {#}\<rparr>"
  have "(mr_step js mapf reducef)\<^sup>*\<^sup>* s ?s1" by (rule running_die)
  moreover have "(mr_step js mapf reducef)\<^sup>*\<^sup>* ?s1 ?s2" using reporting_die [of js mapf reducef ?s1] by simp
  moreover have "mr_step js mapf reducef ?s2 (?s2\<lparr>s_coord := checkTaskTimeouts clock (s_coord ?s2)\<rparr>)" by (rule mr_step.timeouts)
  moreover have "?s2\<lparr>s_coord := checkTaskTimeouts clock (s_coord ?s2)\<rparr> =
      idle_state \<lparr>w_fs = s_fs s, w_coord = checkTaskTimeouts clock (s_coord s)\<rparr>" by (simp add: idle_state_def)
  ultimately show ?thesis by (metis rtranclp.rtrancl_into_rtrancl rtranclp_trans)
qed

text \<open>A timeout round more than ten seconds after every assignment takes all open tasks back.\<close>

definition long_after :: "(nat \<Rightarrow> int) \<Rightarrow> Coordinator \<Rightarrow> bool" where
  "long_after clock c \<longleftrightarrow>
     (\<forall>st\<in>set (mapTaskStatus c) \<union> set (reduceTaskStatus c). \<forall>k. clock k - ts_StartTime st > 10 * 1000000000)"

lemma expire_none:
  assumes "list_all status_ok sts" and "\<forall>st\<in>set sts. \<forall>k. clock k - ts_StartTime st > taskTimeout"
  shows "\<forall>st\<in>set (expire clock k sts). \<not> ts_Assigned st"
  using assms by (induction sts arbitrary: k) (auto simp: status_ok_def)

lemma timeouts_free:
  assumes "coord_ok c" and "long_after clock c"
  shows "none_assigned (checkTaskTimeouts clock c)"
proof -
  have "\<forall>st\<in>set (expire clock k (mapTaskStatus c)) \<union> set (expire clock k' (reduceTaskStatus c)). \<not> ts_Assigned st" for k k'
    using expire_none [OF coord_okD(7) [OF assms(1)], of clock k] expire_none [OF coord_okD(8) [OF assms(1)], of clock k'] assms(2)
    by (auto simp: long_after_def taskTimeout_def)
  then show ?thesis by (simp add: none_assigned_def checkTaskTimeouts_def)
qed

lemma worker_recovers:
  assumes "json_stream js" and "MakeCoordinator names (int n) = Inr c" and "job_ok mapf fs0 names n"
    and "(mr_step js mapf reducef)\<^sup>*\<^sup>* (mr_init fs0 c) s" and "long_after clock (s_coord s)" and "\<And>k. good_env (envs k)"
  shows "\<exists>w. Worker js mapf reducef envs 0 \<lparr>w_fs = s_fs s, w_coord = checkTaskTimeouts clock (s_coord s)\<rparr> = Some (Inr w) \<and>
    snd (Done (w_coord w)) \<and> (mr_step js mapf reducef)\<^sup>*\<^sup>* s (idle_state w) \<and>
    (\<forall>b<n. reduce_written mapf reducef fs0 names n (w_fs w) b)"
proof -
  let ?w = "\<lparr>w_fs = s_fs s, w_coord = checkTaskTimeouts clock (s_coord s)\<rparr>"
  have inv: "mr_inv js mapf reducef fs0 names n s" by (rule json_stream.mr_reachable_inv [OF assms(1-4)])
  then have free: "none_assigned (w_coord ?w)" using timeouts_free [OF _ assms(5)] by (simp add: mr_inv_def)
  have reach: "(mr_step js mapf reducef)\<^sup>*\<^sup>* s (idle_state ?w)" by (rule all_die_and_expire)
  obtain w where w: "Worker js mapf reducef envs 0 ?w = Some (Inr w)" "snd (Done (w_coord w))"
      "(mr_step js mapf reducef)\<^sup>*\<^sup>* (idle_state ?w) (idle_state w)"
    using Worker_finishes [where envs = envs and k = 0, OF assms(1,3,6) steps_inv [OF assms(1,3) reach inv] free] by blast
  have steps: "(mr_step js mapf reducef)\<^sup>*\<^sup>* s (idle_state w)" using reach w(3) by (rule rtranclp_trans)
  have "reduce_written mapf reducef fs0 names n (w_fs w) b" if "b < n" for b
    using json_stream.mr_done_written [OF assms(1-3) rtranclp_trans [OF assms(4) steps] _ that] w(2) by (simp add: idle_state_def)
  then show ?thesis using w(1,2) steps by blast
qed

subsection \<open>Properties\<close>


lemma ten_job:
  assumes "job_ok mapf fs0 names n"
  shows "job_ok mapf fs0 names 10"
  using assms by (simp add: job_ok_def)

definition tiny_plugins :: "string \<rightharpoonup> plugin" where
  "tiny_plugins = [''t.so'' \<mapsto> [''Map'' \<mapsto> MapFun tiny_map, ''Reduce'' \<mapsto> ReduceFun tiny_reduce]]"

lemma tiny_loaded: "loadPlugin tiny_plugins ''t.so'' = Inr (tiny_map, tiny_reduce)"
  by (simp add: loadPlugin_def tiny_plugins_def)


text \<open>A single worker that is not disturbed finishes the job from the start.\<close>

lemma mr_programs_finish:
  assumes "json_stream js" and "loadPlugin plugins so = Inr (mapf, reducef)" and "MakeCoordinator inputs 10 = Inr c" and "inputs \<noteq> []"
    and "job_ok mapf fs0 inputs 10" and "\<And>k. good_env (envs k)" and "listen (coordinatorSock uid)"
  shows "\<exists>w. mrworker_main js plugins envs [prog, so] \<lparr>w_fs = fs0, w_coord = c\<rparr> = Some (Inr w) \<and>
    (\<forall>cs j. cs j = w_coord w \<longrightarrow> (\<exists>k\<le>j. mrcoordinator_main listen uid (\<lambda>_. cs) (prog' # inputs) = Some (Inr k))) \<and>
    (\<forall>b<10. reduce_written mapf reducef fs0 inputs 10 (w_fs w) b)"
proof -
  have c: "MakeCoordinator inputs (int 10) = Inr c" using assms(3) by simp
  obtain w where w: "Worker js mapf reducef envs 0 \<lparr>w_fs = fs0, w_coord = c\<rparr> = Some (Inr w)" "snd (Done (w_coord w))"
      "\<forall>b<10. reduce_written mapf reducef fs0 inputs 10 (w_fs w) b"
    using single_worker_finishes [where envs = envs and reducef = reducef, OF assms(1) c assms(5,6)] by blast
  have "\<forall>cs j. cs j = w_coord w \<longrightarrow> (\<exists>k\<le>j. mrcoordinator_main listen uid (\<lambda>_. cs) (prog' # inputs) = Some (Inr k))"
    using mrcoordinator_returns [where listen = listen, OF assms(3,4,7)] w(2) by metis
  then show ?thesis using w(1,3) assms(2) by (intro exI [of _ w]) (simp add: mrworker_main_def)
qed



end
