(* ===== verification/Go_Parse.thy ===== *)
theory Go_Parse
  imports Go_Strings
begin

text \<open>
  Reading numbers: \<open>strconv.ParseInt\<close> for base 10 and 64 bits (\<open>strconv.Atoi\<close> is the same on a 64-bit machine),
  \<open>strconv.ParseBool\<close>, and the verb \<open>%d\<close> of \<open>fmt.Sscanf\<close>. Nothing here models a file of the repository.
\<close>

definition is_digit :: "char \<Rightarrow> bool" where
  "is_digit c \<longleftrightarrow> 48 \<le> (of_char c :: nat) \<and> (of_char c :: nat) \<le> 57"

text \<open>The value that is returned and whether an error is returned with it; on overflow the value is the nearest bound.\<close>

definition ParseInt :: "string \<Rightarrow> int \<times> bool" where
  "ParseInt s =
     (let (neg, ds) = (case s of [] \<Rightarrow> (False, []) | c # cs \<Rightarrow>
            if c = CHR ''-'' then (True, cs) else if c = CHR ''+'' then (False, cs) else (False, s))
      in if ds = [] \<or> \<not> list_all is_digit ds then (0, True)
         else let n = int (undigits ds) in
           if \<not> neg \<and> n \<ge> 2 ^ 63 then (2 ^ 63 - 1, True)
           else if neg \<and> n > 2 ^ 63 then (- (2 ^ 63), True)
           else (if neg then - n else n, False))"

definition ParseBool :: "string \<Rightarrow> bool \<times> bool" where
  "ParseBool s =
     (if s \<in> set [''1'', ''t'', ''T'', ''true'', ''TRUE'', ''True''] then (True, False)
      else if s \<in> set [''0'', ''f'', ''F'', ''false'', ''FALSE'', ''False''] then (False, False)
      else (False, True))"

text \<open>\<open>%d\<close>: spaces are skipped (space characters outside ASCII are not recognised here), then an optional sign and as many digits as there are.\<close>

definition is_space :: "char \<Rightarrow> bool" where
  "is_space c \<longleftrightarrow> c = CHR '' '' \<or> c = CHR 0x09 \<or> c = CHR 0x0B \<or> c = CHR 0x0C \<or> c = CHR 0x0D"

definition scan_d :: "string \<Rightarrow> int option" where
  "scan_d s =
     (let s1 = dropWhile is_space s;
          (sg, s2) = (case s1 of [] \<Rightarrow> ([], []) | c # cs \<Rightarrow> if c = CHR ''-'' \<or> c = CHR ''+'' then ([c], cs) else ([], s1));
          ds = takeWhile is_digit s2
      in if ds = [] then None
         else let (v, err) = ParseInt (sg @ ds) in if err then None else Some v)"

text \<open>\<open>Sscanf(name, pre + "%d", &v)\<close> for a prefix without spaces and percent signs, when it reads the value without an error.\<close>

definition Sscanf_d :: "string \<Rightarrow> string \<Rightarrow> int option" where
  "Sscanf_d name pre = (if has_prefix name pre then scan_d (drop (length pre) name) else None)"

lemma digits_all: "list_all is_digit (digits n)"
  using digits_chars by (auto simp: list_all_iff is_digit_def)

lemma digits_hd:
  assumes "digits n = c # cs"
  shows "is_digit c" "c \<noteq> CHR ''-''" "c \<noteq> CHR ''+''" "\<not> is_space c"
proof -
  show d: "is_digit c" using digits_all [of n] assms by simp
  then show "c \<noteq> CHR ''-''" "c \<noteq> CHR ''+''" "\<not> is_space c" by (auto simp: is_digit_def is_space_def)
qed

lemma ParseInt_itoa:
  assumes "- (2 ^ 63) \<le> i" and "i < 2 ^ 63"
  shows "ParseInt (itoa i) = (i, False)"
proof (cases "i < 0")
  case True
  then show ?thesis using assms digits_all [of "nat (- i)"] by (simp add: ParseInt_def itoa_def undigits_digits)
next
  case False
  obtain c cs where c: "digits (nat i) = c # cs" by (cases "digits (nat i)") auto
  have "ParseInt (c # cs) = (i, False)"
    using digits_hd [OF c] digits_all [of "nat i"] undigits_digits [of "nat i"] assms False by (simp add: ParseInt_def c)
  then show ?thesis using False by (simp add: itoa_def c)
qed

lemma takeWhile_digits: "takeWhile is_digit (digits n) = digits n"
  using digits_all [of n] by (simp add: list_all_iff)

lemma scan_d_itoa:
  assumes "- (2 ^ 63) \<le> i" and "i < 2 ^ 63"
  shows "scan_d (itoa i) = Some i"
proof (cases "i < 0")
  case True
  then have "itoa i = CHR ''-'' # digits (nat (- i))" by (simp add: itoa_def)
  then show ?thesis using ParseInt_itoa [OF assms] by (simp add: scan_d_def takeWhile_digits is_space_def)
next
  case False
  obtain c cs where c: "digits (nat i) = c # cs" by (cases "digits (nat i)") auto
  have i: "itoa i = c # cs" using False by (simp add: itoa_def c)
  have t: "takeWhile is_digit cs = cs" using takeWhile_digits [of "nat i"] digits_hd(1) [OF c] by (simp add: c)
  show ?thesis using digits_hd [OF c] ParseInt_itoa [OF assms] by (simp add: scan_d_def i t)
qed

lemma has_prefix_append [simp]: "has_prefix (pre @ s) pre"
  by (induction pre) auto

lemma Sscanf_d_itoa: "- (2 ^ 63) \<le> i \<Longrightarrow> i < 2 ^ 63 \<Longrightarrow> Sscanf_d (pre @ itoa i) pre = Some i"
  by (simp add: Sscanf_d_def scan_d_itoa)

end
