(* ===== verification/Mr_Timing.thy ===== *)
theory Mr_Timing
  imports Mr_Apps Go_Parse
begin

text \<open>
  The part of the timing applications that looks at other processes (\<open>mrapps/mtiming.go\<close>,
  \<open>mrapps/rtiming.go\<close>): \<open>nparallel\<close> leaves a file named after the process in the working directory, counts
  the files of live processes, waits and removes its file. Both applications have the same \<open>nparallel\<close>.
  What the system calls report, which processes are alive and what happens to the directory during the
  wait are arguments; so is the formatted clock reading of \<open>Map\<close>.
\<close>

definition worker_file :: "string \<Rightarrow> int \<Rightarrow> string" where
  "worker_file phase pid = ''mr-worker-'' @ phase @ ''-'' @ itoa pid"

record timing_env =
  te_pid :: int
  te_write_ok :: bool
  te_listing :: "fs \<Rightarrow> string list option"
  te_alive :: "int \<Rightarrow> bool"
  te_wait :: "fs \<Rightarrow> fs"

text \<open>The loop over the names in the directory.\<close>

definition count_alive :: "(int \<Rightarrow> bool) \<Rightarrow> string \<Rightarrow> string list \<Rightarrow> int" where
  "count_alive alive phase names =
     foldl (\<lambda>ret name. case Sscanf_d name (''mr-worker-'' @ phase @ ''-'') of
         Some xpid \<Rightarrow> if alive xpid then ret + 1 else ret
       | None \<Rightarrow> ret) 0 names"

definition nparallel :: "timing_env \<Rightarrow> string \<Rightarrow> fs \<Rightarrow> (int \<times> fs) go" where
  "nparallel env phase fs =
     (let myfilename = worker_file phase (te_pid env) in
      if \<not> te_write_ok env then Inl (ExplicitPanic ''WriteFile'')
      else let fs1 = fs(myfilename \<mapsto> ''x'') in
        case te_listing env fs1 of
          None \<Rightarrow> Inl (ExplicitPanic ''Readdirnames'')
        | Some names \<Rightarrow>
            let ret = count_alive (te_alive env) phase names; fs2 = te_wait env fs1
            in if fs2 myfilename = None then Inl (ExplicitPanic ''Remove'') else Inr (ret, fs2(myfilename := None)))"

definition mtiming_Map :: "timing_env \<Rightarrow> string \<Rightarrow> string \<Rightarrow> string \<Rightarrow> fs \<Rightarrow> (KeyValue list \<times> fs) go" where
  "mtiming_Map env ts filename contents fs =
     go_bind (nparallel env ''map'' fs) (\<lambda>(n, fs').
       Inr ([\<lparr>kvKey = ''times-'' @ itoa (te_pid env), kvValue = ts\<rparr>,
             \<lparr>kvKey = ''parallel-'' @ itoa (te_pid env), kvValue = itoa n\<rparr>], fs'))"

definition rtiming_Reduce :: "timing_env \<Rightarrow> string \<Rightarrow> string list \<Rightarrow> fs \<Rightarrow> (string \<times> fs) go" where
  "rtiming_Reduce env key values fs =
     go_bind (nparallel env ''reduce'' fs) (\<lambda>(n, fs'). Inr (itoa n, fs'))"

subsection \<open>Counting\<close>

definition pid_ok :: "int \<Rightarrow> bool" where
  "pid_ok p \<longleftrightarrow> - (2 ^ 63) \<le> p \<and> p < 2 ^ 63"

lemma worker_file_scan: "pid_ok p \<Longrightarrow> Sscanf_d (worker_file phase p) (''mr-worker-'' @ phase @ ''-'') = Some p"
  using Sscanf_d_itoa [of p "''mr-worker-'' @ phase @ ''-''"] by (simp add: worker_file_def pid_ok_def)

lemma worker_file_inject: "worker_file phase p = worker_file phase q \<longleftrightarrow> p = q"
  by (simp add: worker_file_def)

lemma count_alive_length:
  "count_alive alive phase names =
    int (length (filter (\<lambda>name. case Sscanf_d name (''mr-worker-'' @ phase @ ''-'') of None \<Rightarrow> False | Some p \<Rightarrow> alive p) names))"
proof -
  let ?pre = "''mr-worker-'' @ phase @ ''-''"
  have "foldl (\<lambda>ret name. case Sscanf_d name ?pre of Some xpid \<Rightarrow> if alive xpid then ret + 1 else ret | None \<Rightarrow> ret) k names =
      k + int (length (filter (\<lambda>name. case Sscanf_d name ?pre of None \<Rightarrow> False | Some p \<Rightarrow> alive p) names))" for k
    by (induction names arbitrary: k) (auto split: option.splits)
  then show ?thesis by (simp add: count_alive_def)
qed

text \<open>When the files of the phase are those of the processes in \<open>P\<close>, the live ones among them are counted.\<close>

lemma count_alive_card:
  assumes "distinct names" and "finite P" and "\<forall>p\<in>P. pid_ok p"
    and "{name \<in> set names. Sscanf_d name (''mr-worker-'' @ phase @ ''-'') \<noteq> None} = worker_file phase ` P"
  shows "count_alive alive phase names = int (card {p \<in> P. alive p})"
proof -
  let ?sc = "\<lambda>name. Sscanf_d name (''mr-worker-'' @ phase @ ''-'')"
  let ?ok = "\<lambda>name. case ?sc name of None \<Rightarrow> False | Some p \<Rightarrow> alive p"
  have "set (filter ?ok names) = worker_file phase ` {p \<in> P. alive p}"
  proof (intro equalityI subsetI)
    fix x assume "x \<in> set (filter ?ok names)"
    then obtain p where p: "x \<in> set names" "?sc x = Some p" "alive p" by (auto split: option.splits)
    then have "x \<in> worker_file phase ` P" using assms(4) by blast
    then show "x \<in> worker_file phase ` {p \<in> P. alive p}" using p assms(3) worker_file_scan by auto
  next
    fix x assume "x \<in> worker_file phase ` {p \<in> P. alive p}"
    then obtain p where p: "p \<in> P" "alive p" "x = worker_file phase p" by blast
    then have "x \<in> set names" using assms(4) by blast
    then show "x \<in> set (filter ?ok names)" using p assms(3) worker_file_scan by simp
  qed
  then have "card (set (filter ?ok names)) = card {p \<in> P. alive p}"
    by (simp add: card_image inj_on_def worker_file_inject)
  then show ?thesis using assms(1) by (simp add: count_alive_length distinct_card del: set_filter)
qed

subsection \<open>Properties\<close>

text \<open>
  C33. \<open>nparallel\<close> counts the live processes in the phase: if the directory listing is complete and the
  files of the phase are those of the processes \<open>P\<close>, it returns the number of live processes among \<open>P\<close>
  and the caller, so a live caller gets at least 1, and what is left of its own file is nothing.
\<close>

theorem nparallel_counts_live_workers:
  assumes "te_write_ok env" and "te_listing env (fs(worker_file phase (te_pid env) \<mapsto> ''x'')) = Some names"
    and "distinct names" and "set names = insert (worker_file phase (te_pid env)) (dom fs)"
    and "{name \<in> dom fs. Sscanf_d name (''mr-worker-'' @ phase @ ''-'') \<noteq> None} = worker_file phase ` P"
    and "finite P" and "\<forall>p\<in>insert (te_pid env) P. pid_ok p"
    and "te_wait env (fs(worker_file phase (te_pid env) \<mapsto> ''x'')) (worker_file phase (te_pid env)) \<noteq> None"
  shows "\<exists>n fs'. nparallel env phase fs = Inr (n, fs') \<and> n = int (card {p \<in> insert (te_pid env) P. te_alive env p}) \<and>
    fs' (worker_file phase (te_pid env)) = None \<and> (te_alive env (te_pid env) \<longrightarrow> 1 \<le> n)"
proof -
  let ?f = "worker_file phase (te_pid env)" and ?P = "insert (te_pid env) P"
  have "{name \<in> set names. Sscanf_d name (''mr-worker-'' @ phase @ ''-'') \<noteq> None} = worker_file phase ` ?P"
    using assms(4,5,7) worker_file_scan [of "te_pid env" phase] by auto
  then have n: "count_alive (te_alive env) phase names = int (card {p \<in> ?P. te_alive env p})"
    using count_alive_card [OF assms(3), of ?P phase "te_alive env"] assms(6,7) by blast
  have "1 \<le> card {p \<in> ?P. te_alive env p}" if "te_alive env (te_pid env)"
    using card_mono [of "{p \<in> ?P. te_alive env p}" "{te_pid env}"] assms(6) that by simp
  then show ?thesis using assms(1,2,8) n by (simp add: nparallel_def Let_def)
qed

theorem nparallel_counts_live_workers_witness:
  "\<exists>n fs'. nparallel \<lparr>te_pid = 7, te_write_ok = True, te_listing = (\<lambda>_. Some [''mr-worker-map-7'', ''pg.txt'', ''mr-worker-map-9'']),
      te_alive = (\<lambda>p. p \<noteq> 9), te_wait = (\<lambda>fs. fs)\<rparr> ''map'' [''pg.txt'' \<mapsto> ''t'', ''mr-worker-map-9'' \<mapsto> ''x''] = Inr (n, fs') \<and> n = 1"
proof -
  let ?env = "\<lparr>te_pid = 7, te_write_ok = True, te_listing = (\<lambda>_ :: fs. Some [''mr-worker-map-7'', ''pg.txt'', ''mr-worker-map-9'']),
      te_alive = (\<lambda>p. p \<noteq> 9), te_wait = (\<lambda>fs. fs)\<rparr>"
  let ?fs = "[''pg.txt'' \<mapsto> ''t'', ''mr-worker-map-9'' \<mapsto> ''x'']"
  have f: "worker_file ''map'' 7 = ''mr-worker-map-7''" "worker_file ''map'' 9 = ''mr-worker-map-9''" by code_simp+
  have s: "Sscanf_d ''pg.txt'' ''mr-worker-map-'' = None" "Sscanf_d ''mr-worker-map-9'' ''mr-worker-map-'' = Some 9" by code_simp+
  have "{name \<in> dom ?fs. Sscanf_d name (''mr-worker-'' @ ''map'' @ ''-'') \<noteq> None} = worker_file ''map'' ` {9}"
    using s by (auto simp: f)
  then have "\<exists>n fs'. nparallel ?env ''map'' ?fs = Inr (n, fs') \<and> n = int (card {p \<in> insert (te_pid ?env) {9}. te_alive ?env p}) \<and>
    fs' (worker_file ''map'' (te_pid ?env)) = None \<and> (te_alive ?env (te_pid ?env) \<longrightarrow> 1 \<le> n)"
    by (intro nparallel_counts_live_workers [of ?env ?fs "''map''" "[''mr-worker-map-7'', ''pg.txt'', ''mr-worker-map-9'']" "{9}"])
      (auto simp: f pid_ok_def)
  moreover have "{p \<in> insert (te_pid ?env) {9}. te_alive ?env p} = {7}" by auto
  ultimately show ?thesis by auto
qed

end
