(* ===== verification/Raft_Config.thy ===== *)
theory Raft_Config
  imports Harness
begin

text \<open>
  The test harness of the Raft package (\<open>raft/config.go\<close>), first part: its state, how it starts,
  crashes, connects and disconnects servers. Pointers to peers, persisters and servers are
  addresses into heaps, so that what an old instance can still reach is part of the model. Commands
  and log entries are values of Go's empty interface, \<open>None\<close> being nil. Random strings, readings of
  the clock and \<open>labgob\<close> are arguments.
\<close>

subsection \<open>State\<close>

type_synonym 'c iface = "'c option"

text \<open>The error messages of the readers of the apply channels, with what is printed in them.\<close>

datatype 'c apply_err =
    CommitMismatch int nat "'c iface" nat "'c iface"
  | OutOfOrder nat int
  | UnexpectedIndex nat int int
  | SnapshotIndexMismatch nat

record 'c config =
  c_finished :: "32 word"
  c_net :: "(string, int) Network"
  c_n :: nat
  c_rafts :: "nat option list"
  c_applyErr :: "'c apply_err option list"
  c_connected :: "bool list"
  c_saved :: "nat option list"
  c_endnames :: endtable
  c_logs :: "(int \<rightharpoonup> 'c iface) list"
  c_lastApplied :: "int list"
  c_start :: int
  c_t0 :: int
  c_rpcs0 :: int
  c_cmds0 :: int
  c_bytes0 :: int
  c_maxIndex :: int
  c_maxIndex0 :: int
  h_persisters :: "Persister list"
  h_rafts :: "Raft list"
  h_servers :: "Raft list Server list"

subsection \<open>Connecting and disconnecting\<close>

definition connect :: "nat \<Rightarrow> 'c config \<Rightarrow> 'c config go" where
  "connect i cfg =
     go_bind (slice_set (c_connected cfg) (int i) True) (\<lambda>cs.
     go_bind (set_ends Enable True (\<lambda>j. slice_get cs (int j)) (\<lambda>j. endname_at (c_endnames cfg) i j)
       [0..<c_n cfg] (c_net cfg)) (\<lambda>rn1.
     go_bind (set_ends Enable True (\<lambda>j. slice_get cs (int j)) (\<lambda>j. endname_at (c_endnames cfg) j i)
       [0..<c_n cfg] rn1) (\<lambda>rn2.
     Inr (cfg\<lparr>c_connected := cs, c_net := rn2\<rparr>))))"

definition disconnect :: "nat \<Rightarrow> 'c config \<Rightarrow> 'c config go" where
  "disconnect i cfg =
     go_bind (slice_set (c_connected cfg) (int i) False) (\<lambda>cs.
     go_bind (set_ends Enable False (\<lambda>j. row_exists (c_endnames cfg) i) (\<lambda>j. endname_at (c_endnames cfg) i j)
       [0..<c_n cfg] (c_net cfg)) (\<lambda>rn1.
     go_bind (set_ends Enable False (\<lambda>j. row_exists (c_endnames cfg) j) (\<lambda>j. endname_at (c_endnames cfg) j i)
       [0..<c_n cfg] rn1) (\<lambda>rn2.
     Inr (cfg\<lparr>c_connected := cs, c_net := rn2\<rparr>))))"

subsection \<open>Crashing and starting a server\<close>

text \<open>If there is a persister for server \<open>i\<close>, replace it by a new one with content computed by \<open>f\<close>.\<close>

definition renew_persister :: "(Persister \<Rightarrow> Persister) \<Rightarrow> nat \<Rightarrow> 'c config \<Rightarrow> 'c config go" where
  "renew_persister f i cfg =
     go_bind (slice_get (c_saved cfg) (int i)) (\<lambda>s. case s of
       None \<Rightarrow> Inr cfg
     | Some a \<Rightarrow> Inr (cfg\<lparr>h_persisters := h_persisters cfg @ [f (h_persisters cfg ! a)],
                        c_saved := (c_saved cfg)[i := Some (length (h_persisters cfg))]\<rparr>))"

definition kill_peer :: "nat \<Rightarrow> 'c config \<Rightarrow> 'c config go" where
  "kill_peer i cfg =
     go_bind (slice_get (c_rafts cfg) (int i)) (\<lambda>r. case r of
       None \<Rightarrow> Inr cfg
     | Some a \<Rightarrow> Inr (cfg\<lparr>h_rafts := (h_rafts cfg)[a := Kill (h_rafts cfg ! a)], c_rafts := (c_rafts cfg)[i := None]\<rparr>))"

definition crash1 :: "nat \<Rightarrow> 'c config \<Rightarrow> 'c config go" where
  "crash1 i cfg =
     go_bind (disconnect i cfg) (\<lambda>c1.
     go_bind (renew_persister Copy i (c1\<lparr>c_net := DeleteServer (int i) (c_net c1)\<rparr>)) (\<lambda>c2.
     go_bind (kill_peer i c2) (\<lambda>c3.
     renew_persister (\<lambda>ps. let raftlog = ReadRaftState ps; snapshot = ReadSnapshot ps
       in Save raftlog snapshot \<lparr>ps_raftstate = [], ps_snapshot = []\<rparr>) i c3)))"

text \<open>
  \<open>ingestSnap\<close>: \<open>dec\<close> decodes the index and the entries of a snapshot; \<open>None\<close> for the snapshot is nil.
  The result is the error, if any, and the new state.
\<close>

definition ingestSnap ::
    "(string \<Rightarrow> (int \<times> 'c iface list) option) \<Rightarrow> nat \<Rightarrow> string option \<Rightarrow> int \<Rightarrow> 'c config
     \<Rightarrow> ('c apply_err option \<times> 'c config) go" where
  "ingestSnap dec i snapshot index cfg =
     (case snapshot of
        None \<Rightarrow> Inl (LogFatal ''nil snapshot'')
      | Some bs \<Rightarrow> (case dec bs of
          None \<Rightarrow> Inl (LogFatal ''snapshot decode error'')
        | Some (lastIncludedIndex, xlog) \<Rightarrow>
            if index \<noteq> -1 \<and> index \<noteq> lastIncludedIndex then Inr (Some (SnapshotIndexMismatch i), cfg)
            else
              go_bind (slice_set (c_logs cfg) (int i)
                (fold (\<lambda>j m. m(int j \<mapsto> xlog ! j)) [0..<length xlog] Map.empty)) (\<lambda>logs.
              go_bind (slice_set (c_lastApplied cfg) (int i) lastIncludedIndex) (\<lambda>la.
              Inr (None, cfg\<lparr>c_logs := logs, c_lastApplied := la\<rparr>)))))"

text \<open>
  The methods of \<open>*Raft\<close> as reflection lists them: only \<open>RequestVote\<close> has the shape of a handler. Its
  body is empty, \<open>vote\<close> is the encoding of its empty reply.
\<close>

definition raft_methods :: "string \<Rightarrow> Raft list method_info list" where
  "raft_methods vote =
     map (\<lambda>(nm, ins, ptr, outs). \<lparr>m_Name = nm, m_PkgPath = [], m_NumIn = ins, m_In2IsPtr = ptr,
         m_NumOut = outs, m_Func = (\<lambda>h args. (h, vote))\<rparr>)
       [(''GetState'', 1, False, 2), (''Kill'', 1, False, 0), (''RequestVote'', 3, True, 0),
        (''Snapshot'', 3, False, 0), (''Start'', 2, False, 3)]"

text \<open>The part of \<open>start1\<close> that prepares the persister and feeds its snapshot to the tester.\<close>

definition load_persister ::
    "(string \<Rightarrow> (int \<times> 'c iface list) option) \<Rightarrow> nat \<Rightarrow> 'c config \<Rightarrow> 'c config go" where
  "load_persister dec i cfg =
     go_bind (slice_get (c_saved cfg) (int i)) (\<lambda>s. case s of
         Some _ \<Rightarrow>
           go_bind (renew_persister Copy i cfg) (\<lambda>c1.
           let snapshot = ReadSnapshot (last (h_persisters c1)) in
           if length snapshot > 0 then
             go_bind (ingestSnap dec i (Some snapshot) (-1) c1) (\<lambda>(err, c2).
               case err of None \<Rightarrow> Inr c2 | Some _ \<Rightarrow> Inl (TestFatal ''snapshot''))
           else Inr c1)
       | None \<Rightarrow> Inr (cfg\<lparr>h_persisters := h_persisters cfg @ [MakePersister],
                          c_saved := (c_saved cfg)[i := Some (length (h_persisters cfg))]\<rparr>))"

text \<open>
  \<open>start1\<close>: \<open>names j\<close> is the random name for end \<open>j\<close>. The reader of the apply channel that it starts is
  modelled message by message.
\<close>

definition start1 ::
    "(string \<Rightarrow> (int \<times> 'c iface list) option) \<Rightarrow> string \<Rightarrow> (nat \<Rightarrow> string) \<Rightarrow> nat \<Rightarrow> 'c config \<Rightarrow> 'c config go" where
  "start1 dec vote names i cfg =
     go_bind (crash1 i cfg) (\<lambda>c1.
     go_bind (slice_set (c_endnames c1) (int i) (Some (map names [0..<c_n c1]))) (\<lambda>eds.
     go_bind (fresh_ends names (c_n c1) (c_net c1)) (\<lambda>(rn, es).
     go_bind (slice_set (c_lastApplied c1) (int i) 0) (\<lambda>la.
     go_bind (load_persister dec i (c1\<lparr>c_endnames := eds, c_net := rn, c_lastApplied := la\<rparr>)) (\<lambda>c2.
     let a = length (h_persisters c2) - 1;
         rf = Make es (int i) a (h_persisters c2 ! a);
         srv = AddService (MakeService ''Raft'' (raft_methods vote)) MakeServer
     in Inr (c2\<lparr>h_rafts := h_rafts c2 @ [rf], c_rafts := (c_rafts c2)[i := Some (length (h_rafts c2))],
                h_servers := h_servers c2 @ [srv],
                c_net := AddServer (int i) (length (h_servers c2)) (c_net c2)\<rparr>))))))"

definition setunreliable :: "bool \<Rightarrow> 'c config \<Rightarrow> 'c config" where
  "setunreliable unrel cfg = cfg\<lparr>c_net := Reliable (\<not> unrel) (c_net cfg)\<rparr>"

definition setlongreordering :: "bool \<Rightarrow> 'c config \<Rightarrow> 'c config" where
  "setlongreordering longrel cfg = cfg\<lparr>c_net := LongReordering longrel (c_net cfg)\<rparr>"

definition new_config :: "int \<Rightarrow> nat \<Rightarrow> 'c config" where
  "new_config now n =
     \<lparr>c_finished = 0, c_net = MakeNetwork, c_n = n, c_rafts = replicate n None, c_applyErr = replicate n None,
      c_connected = replicate n False, c_saved = replicate n None, c_endnames = replicate n None,
      c_logs = replicate n Map.empty, c_lastApplied = replicate n 0, c_start = now, c_t0 = 0, c_rpcs0 = 0,
      c_cmds0 = 0, c_bytes0 = 0, c_maxIndex = 0, c_maxIndex0 = 0,
      h_persisters = [], h_rafts = [], h_servers = []\<rparr>"

text \<open>\<open>make_config\<close>: \<open>names i j\<close> is the random name of end \<open>j\<close> of server \<open>i\<close>.\<close>

definition make_config ::
    "(string \<Rightarrow> (int \<times> 'c iface list) option) \<Rightarrow> string \<Rightarrow> (nat \<Rightarrow> nat \<Rightarrow> string) \<Rightarrow> int \<Rightarrow> nat \<Rightarrow> bool
     \<Rightarrow> 'c config go" where
  "make_config dec vote names now n unreliable =
     (let c0 = setunreliable unreliable (new_config now n);
          c1 = c0\<lparr>c_net := LongDelays True (c_net c0)\<rparr>
      in go_bind (go_fold (\<lambda>i c. start1 dec vote (names i) i (c\<lparr>c_logs := (c_logs c)[i := Map.empty]\<rparr>)) [0..<n] c1)
           (go_fold connect [0..<n]))"

subsection \<open>Ending a test and statistics\<close>

text \<open>\<open>checkTimeout\<close>: times are in milliseconds, \<open>failed\<close> is what \<open>t.Failed()\<close> says.\<close>

definition checkTimeout :: "bool \<Rightarrow> int \<Rightarrow> 'c config \<Rightarrow> unit go" where
  "checkTimeout failed now cfg =
     (if \<not> failed \<and> now - c_start cfg > 120000 then Inl (TestFatal ''test took longer than 120 seconds'') else Inr ())"

definition checkFinished :: "'c config \<Rightarrow> bool" where
  "checkFinished cfg \<longleftrightarrow> c_finished cfg \<noteq> 0"

definition cleanup :: "bool \<Rightarrow> int \<Rightarrow> 'c config \<Rightarrow> 'c config go" where
  "cleanup failed now cfg =
     (let c1 = cfg\<lparr>c_finished := 1\<rparr>;
          c2 = fold (\<lambda>i c. case c_rafts c ! i of None \<Rightarrow> c
                | Some a \<Rightarrow> c\<lparr>h_rafts := (h_rafts c)[a := Kill (h_rafts c ! a)]\<rparr>) [0..<length (c_rafts c1)] c1
      in go_bind (Cleanup (c_net c2)) (\<lambda>rn.
         go_bind (checkTimeout failed now c2) (\<lambda>_. Inr (c2\<lparr>c_net := rn\<rparr>))))"

definition rpcCount :: "int \<Rightarrow> 'c config \<Rightarrow> int go" where
  "rpcCount server cfg = GetCount (\<lambda>a. h_servers cfg ! a) (c_net cfg) server"

definition rpcTotal :: "'c config \<Rightarrow> int" where
  "rpcTotal cfg = GetTotalCount (c_net cfg)"

definition bytesTotal :: "'c config \<Rightarrow> int" where
  "bytesTotal cfg = GetTotalBytes (c_net cfg)"

definition cfg_begin :: "int \<Rightarrow> 'c config \<Rightarrow> 'c config" where
  "cfg_begin now cfg = cfg\<lparr>c_t0 := now, c_rpcs0 := rpcTotal cfg, c_bytes0 := bytesTotal cfg, c_cmds0 := 0,
     c_maxIndex0 := c_maxIndex cfg\<rparr>"

text \<open>What \<open>end\<close> prints: the time, the number of peers, calls, bytes and agreements.\<close>

definition cfg_end :: "bool \<Rightarrow> int \<Rightarrow> 'c config \<Rightarrow> (int \<times> nat \<times> int \<times> int \<times> int) option go" where
  "cfg_end failed now cfg =
     go_bind (checkTimeout failed now cfg) (\<lambda>_.
       if \<not> failed then Inr (Some (now - c_t0 cfg, c_n cfg, rpcTotal cfg - c_rpcs0 cfg,
         bytesTotal cfg - c_bytes0 cfg, c_maxIndex cfg - c_maxIndex0 cfg))
       else Inr None)"

definition LogSize :: "'c config \<Rightarrow> nat go" where
  "LogSize cfg =
     go_fold (\<lambda>i logsize.
       go_bind (slice_get (c_saved cfg) (int i)) (\<lambda>s. case s of
         None \<Rightarrow> Inl NilDereference
       | Some a \<Rightarrow> let n = RaftStateSize (h_persisters cfg ! a) in Inr (if n > logsize then n else logsize)))
     [0..<c_n cfg] 0"

subsection \<open>The invariant of the harness\<close>

definition config_shape :: "'c config \<Rightarrow> bool" where
  "config_shape c \<longleftrightarrow>
     length (c_rafts c) = c_n c \<and> length (c_applyErr c) = c_n c \<and> length (c_connected c) = c_n c \<and>
     length (c_saved c) = c_n c \<and> length (c_endnames c) = c_n c \<and> length (c_logs c) = c_n c \<and>
     length (c_lastApplied c) = c_n c \<and>
     (\<forall>i<c_n c. \<forall>es. c_endnames c ! i = Some es \<longrightarrow> length es = c_n c) \<and>
     (\<forall>i<c_n c. c_connected c ! i \<longrightarrow> c_endnames c ! i \<noteq> None)"

definition pointers_ok :: "'c config \<Rightarrow> bool" where
  "pointers_ok c \<longleftrightarrow>
     (\<forall>i<c_n c. \<forall>a. c_rafts c ! i = Some a \<longrightarrow> a < length (h_rafts c)) \<and>
     (\<forall>i<c_n c. \<forall>a. c_saved c ! i = Some a \<longrightarrow> a < length (h_persisters c))"

text \<open>A server is on the network exactly when the harness has an instance of it.\<close>

definition registered :: "'c config \<Rightarrow> bool" where
  "registered c \<longleftrightarrow> (\<forall>i<c_n c. servers (c_net c) (int i) = None \<longleftrightarrow> c_rafts c ! i = None)"

definition links_ok :: "'c config \<Rightarrow> bool" where
  "links_ok c \<longleftrightarrow> wired (c_endnames c) (\<lambda>i j. c_connected c ! i \<and> c_connected c ! j) {} (c_net c)"

definition config_inv :: "'c config \<Rightarrow> bool" where
  "config_inv c \<longleftrightarrow> config_shape c \<and> pointers_ok c \<and> links_ok c"

lemma shape_endname:
  assumes "config_shape c"
  shows "endname_at (c_endnames c) i j = Inr e \<longleftrightarrow>
    i < c_n c \<and> j < c_n c \<and> (\<exists>es. c_endnames c ! i = Some es \<and> e = es ! j)"
  using assms by (auto simp: endname_at_Inr config_shape_def)

lemma connect_ok:
  assumes "config_inv c" and "i < c_n c" and "c_endnames c ! i \<noteq> None"
  shows "\<exists>rn. connect i c = Inr (c\<lparr>c_connected := (c_connected c)[i := True], c_net := rn\<rparr>) \<and>
    net_rest rn = net_rest (c_net c) \<and> config_inv (c\<lparr>c_connected := (c_connected c)[i := True], c_net := rn\<rparr>)"
proof -
  let ?cs = "(c_connected c)[i := True]" and ?eds = "c_endnames c"
  have sh: "config_shape c" and pt: "pointers_ok c" and lk: "links_ok c" using assms(1) by (auto simp: config_inv_def)
  have len: "length (c_connected c) = c_n c" using sh by (simp add: config_shape_def)
  have g: "slice_get ?cs (int j) = Inr (?cs ! j)" if "j \<in> set [0..<c_n c]" for j using that len by simp
  have row: "\<exists>e. endname_at ?eds p q = Inr e" if "?cs ! p" "p < c_n c" "q < c_n c" for p q
    using that assms(2,3) len sh by (cases "p = i") (auto simp: shape_endname config_shape_def)
  have i: "?cs ! i" using assms(2) len by simp
  obtain rn1 where 1: "set_ends Enable True (\<lambda>j. slice_get ?cs (int j)) (\<lambda>j. endname_at ?eds i j) [0..<c_n c] (c_net c) = Inr rn1"
      "net_rest rn1 = net_rest (c_net c)"
      "wired ?eds (\<lambda>p q. if \<exists>j\<in>set [0..<c_n c]. ?cs ! j \<and> p = i \<and> q = j then True else c_connected c ! p \<and> c_connected c ! q) {} rn1"
    using wired_set_ends [OF lk [unfolded links_ok_def], of "[0..<c_n c]" "\<lambda>j. slice_get ?cs (int j)" "\<lambda>j. ?cs ! j" "\<lambda>_. i" "\<lambda>j. j" True]
      g row i assms(2) by auto
  obtain rn2 where 2: "set_ends Enable True (\<lambda>j. slice_get ?cs (int j)) (\<lambda>j. endname_at ?eds j i) [0..<c_n c] rn1 = Inr rn2"
      "net_rest rn2 = net_rest rn1"
      "wired ?eds (\<lambda>p q. if \<exists>j\<in>set [0..<c_n c]. ?cs ! j \<and> p = j \<and> q = i then True
        else if \<exists>j\<in>set [0..<c_n c]. ?cs ! j \<and> p = i \<and> q = j then True else c_connected c ! p \<and> c_connected c ! q) {} rn2"
    using wired_set_ends [OF 1(3), of "[0..<c_n c]" "\<lambda>j. slice_get ?cs (int j)" "\<lambda>j. ?cs ! j" "\<lambda>j. j" "\<lambda>_. i" True]
      g row assms(2) by auto
  let ?c = "c\<lparr>c_connected := ?cs, c_net := rn2\<rparr>"
  have "wired ?eds (\<lambda>p q. ?cs ! p \<and> ?cs ! q) {} rn2"
    by (rule wired_cong [OF 2(3)])
      (use len assms(2) in \<open>auto simp: shape_endname [OF sh] nth_list_update split: if_splits\<close>)
  then have "links_ok ?c" by (simp add: links_ok_def)
  moreover have "config_shape ?c" using sh assms(2,3) by (simp add: config_shape_def nth_list_update)
  moreover have "pointers_ok ?c" using pt net_rest_eq [OF 1(2)] net_rest_eq [OF 2(2)] by (simp add: pointers_ok_def)
  ultimately show ?thesis
    using 1 2 assms(2) len by (auto simp: connect_def config_inv_def)
qed

lemma connect_needs_row:
  assumes "connect i c = Inr c'" and "config_inv c" and "i < c_n c"
  shows "c_endnames c ! i \<noteq> None"
proof -
  have len: "length (c_connected c) = c_n c" using assms(2) by (simp add: config_inv_def config_shape_def)
  from assms obtain rn where
    "set_ends Enable True (\<lambda>j. slice_get ((c_connected c)[i := True]) (int j)) (\<lambda>j. endname_at (c_endnames c) i j)
       [0..<c_n c] (c_net c) = Inr rn"
    using len by (auto simp: connect_def go_bind_eq_Inr)
  from set_ends_named [OF this, of i] have "\<exists>e. endname_at (c_endnames c) i i = Inr e" using assms(3) len by simp
  then show ?thesis by (auto simp: endname_at_Inr)
qed

lemma disconnect_ok:
  assumes "config_inv c" and "i < c_n c"
  shows "\<exists>rn. disconnect i c = Inr (c\<lparr>c_connected := (c_connected c)[i := False], c_net := rn\<rparr>) \<and>
    net_rest rn = net_rest (c_net c) \<and> config_inv (c\<lparr>c_connected := (c_connected c)[i := False], c_net := rn\<rparr>)"
proof -
  let ?cs = "(c_connected c)[i := False]" and ?eds = "c_endnames c"
  let ?g = "\<lambda>j. ?eds ! j \<noteq> None"
  have sh: "config_shape c" and pt: "pointers_ok c" and lk: "links_ok c" using assms(1) by (auto simp: config_inv_def)
  have len: "length (c_connected c) = c_n c" "length ?eds = c_n c" using sh by (simp_all add: config_shape_def)
  have row: "\<exists>e. endname_at ?eds p q = Inr e" if "?g p" "p < c_n c" "q < c_n c" for p q
    using that shape_endname [OF sh, of p q] by auto
  have gi: "row_exists ?eds i = Inr (?g i)" using assms(2) len by simp
  have gj: "row_exists ?eds j = Inr (?g j)" if "j \<in> set [0..<c_n c]" for j using that len by simp
  obtain rn1 where 1: "set_ends Enable False (\<lambda>j. row_exists ?eds i) (\<lambda>j. endname_at ?eds i j) [0..<c_n c] (c_net c) = Inr rn1"
      "net_rest rn1 = net_rest (c_net c)"
      "wired ?eds (\<lambda>p q. if \<exists>j\<in>set [0..<c_n c]. ?g i \<and> p = i \<and> q = j then False else c_connected c ! p \<and> c_connected c ! q) {} rn1"
    using wired_set_ends [OF lk [unfolded links_ok_def], of "[0..<c_n c]" "\<lambda>j. row_exists ?eds i" "\<lambda>j. ?g i" "\<lambda>_. i" "\<lambda>j. j" False]
      gi row assms(2) by auto
  obtain rn2 where 2: "set_ends Enable False (\<lambda>j. row_exists ?eds j) (\<lambda>j. endname_at ?eds j i) [0..<c_n c] rn1 = Inr rn2"
      "net_rest rn2 = net_rest rn1"
      "wired ?eds (\<lambda>p q. if \<exists>j\<in>set [0..<c_n c]. ?g j \<and> p = j \<and> q = i then False
        else if \<exists>j\<in>set [0..<c_n c]. ?g i \<and> p = i \<and> q = j then False else c_connected c ! p \<and> c_connected c ! q) {} rn2"
    using wired_set_ends [OF 1(3), of "[0..<c_n c]" "\<lambda>j. row_exists ?eds j" ?g "\<lambda>j. j" "\<lambda>_. i" False]
      gj row assms(2) by auto
  let ?c = "c\<lparr>c_connected := ?cs, c_net := rn2\<rparr>"
  have "wired ?eds (\<lambda>p q. ?cs ! p \<and> ?cs ! q) {} rn2"
    by (rule wired_cong [OF 2(3)])
      (use len assms(2) in \<open>auto simp: shape_endname [OF sh] nth_list_update split: if_splits\<close>)
  then have "links_ok ?c" by (simp add: links_ok_def)
  moreover have "config_shape ?c" using sh assms(2) by (auto simp: config_shape_def nth_list_update)
  moreover have "pointers_ok ?c" using pt net_rest_eq [OF 1(2)] net_rest_eq [OF 2(2)] by (simp add: pointers_ok_def)
  ultimately show ?thesis
    using 1 2 assms(2) len by (auto simp: disconnect_def config_inv_def)
qed

subsection \<open>Crashes keep what was persisted\<close>

text \<open>What the harness would hand to the next instance of server \<open>i\<close>.\<close>

definition persisted :: "'c config \<Rightarrow> nat \<Rightarrow> Persister option" where
  "persisted c i = map_option (\<lambda>a. h_persisters c ! a) (c_saved c ! i)"

text \<open>An instance with persister \<open>a\<close> saves its state, whether it is still in use or not.\<close>

definition instance_save :: "nat \<Rightarrow> string \<Rightarrow> string \<Rightarrow> 'c config \<Rightarrow> 'c config" where
  "instance_save a st snap c = c\<lparr>h_persisters := (h_persisters c)[a := Save st snap (h_persisters c ! a)]\<rparr>"

text \<open>The heap grows, other servers keep their persisters, and server \<open>i\<close>'s persister, if any, is new.\<close>

definition renewed :: "nat \<Rightarrow> 'c config \<Rightarrow> 'c config \<Rightarrow> bool" where
  "renewed i c c' \<longleftrightarrow>
     (\<exists>ys. h_persisters c' = h_persisters c @ ys) \<and> (\<forall>k. k \<noteq> i \<longrightarrow> c_saved c' ! k = c_saved c ! k) \<and>
     (\<forall>a. c_saved c' ! i = Some a \<longrightarrow> length (h_persisters c) \<le> a)"

lemma renew_persister_ok:
  assumes "config_inv c" and "i < c_n c" and "\<And>ps. f ps = ps"
  shows "\<exists>c'. renew_persister f i c = Inr c' \<and> config_inv c' \<and> renewed i c c' \<and>
    (\<forall>k<c_n c. persisted c' k = persisted c k) \<and>
    c' = c\<lparr>h_persisters := h_persisters c', c_saved := c_saved c'\<rparr>"
proof -
  have len: "length (c_saved c) = c_n c" using assms(1) by (simp add: config_inv_def config_shape_def)
  have sv: "c_saved c ! k = Some a \<Longrightarrow> k < c_n c \<Longrightarrow> a < length (h_persisters c)" for k a
    using assms(1) by (simp add: config_inv_def pointers_ok_def)
  show ?thesis
  proof (cases "c_saved c ! i")
    case None
    then show ?thesis using assms len by (auto simp: renew_persister_def renewed_def)
  next
    case (Some a)
    let ?c = "c\<lparr>h_persisters := h_persisters c @ [f (h_persisters c ! a)], c_saved := (c_saved c)[i := Some (length (h_persisters c))]\<rparr>"
    have "config_inv ?c" using assms(1,2) sv len
      by (auto simp: config_inv_def config_shape_def pointers_ok_def links_ok_def nth_list_update less_SucI)
    moreover have "persisted ?c k = persisted c k" if "k < c_n c" for k
      using Some assms(2,3) len sv [OF _ that]
      by (cases "c_saved c ! k") (auto simp: persisted_def nth_list_update nth_append)
    ultimately show ?thesis using Some assms len by (auto simp: renew_persister_def renewed_def nth_list_update)
  qed
qed

lemma kill_peer_ok:
  assumes "config_inv c" and "i < c_n c"
  shows "\<exists>hr. kill_peer i c = Inr (c\<lparr>h_rafts := hr, c_rafts := (c_rafts c)[i := None]\<rparr>) \<and>
    length hr = length (h_rafts c) \<and> (\<forall>r. c_rafts c ! i = Some r \<longrightarrow> killed (hr ! r)) \<and>
    (\<forall>r. c_rafts c ! i \<noteq> Some r \<longrightarrow> hr ! r = h_rafts c ! r)"
proof (cases "c_rafts c ! i")
  case None
  then have "(c_rafts c)[i := None] = c_rafts c" by (metis list_update_id)
  then show ?thesis
    using None assms by (intro exI [of _ "h_rafts c"]) (simp add: kill_peer_def config_inv_def config_shape_def)
next
  case (Some r)
  then have "r < length (h_rafts c)" using assms by (simp add: config_inv_def pointers_ok_def)
  then show ?thesis
    using Some assms
    by (intro exI [of _ "(h_rafts c)[r := Kill (h_rafts c ! r)]"])
      (simp add: kill_peer_def killed_def Kill_def config_inv_def config_shape_def)
qed

lemma crash1_ok:
  assumes "config_inv c" and "i < c_n c"
  shows "\<exists>c'. crash1 i c = Inr c' \<and> config_inv c' \<and> renewed i c c' \<and> (\<forall>k<c_n c. persisted c' k = persisted c k) \<and>
    c_connected c' = (c_connected c)[i := False] \<and> c_rafts c' = (c_rafts c)[i := None] \<and>
    servers (c_net c') = (servers (c_net c))(int i := None) \<and> ends (c_net c') = ends (c_net c) \<and> length (h_rafts c') = length (h_rafts c) \<and>
    (\<forall>r. c_rafts c ! i = Some r \<longrightarrow> killed (h_rafts c' ! r)) \<and>
    (\<forall>r. c_rafts c ! i \<noteq> Some r \<longrightarrow> h_rafts c' ! r = h_rafts c ! r) \<and>
    c_n c' = c_n c \<and> c_endnames c' = c_endnames c \<and> c_logs c' = c_logs c \<and> c_lastApplied c' = c_lastApplied c \<and>
    h_servers c' = h_servers c"
proof -
  let ?f = "\<lambda>ps. let raftlog = ReadRaftState ps; snapshot = ReadSnapshot ps
    in Save raftlog snapshot \<lparr>ps_raftstate = [], ps_snapshot = []\<rparr>"
  have f: "?f ps = ps" for ps by (simp add: Save_def ReadRaftState_def ReadSnapshot_def)
  obtain rn where 1: "disconnect i c = Inr (c\<lparr>c_connected := (c_connected c)[i := False], c_net := rn\<rparr>)"
      "net_rest rn = net_rest (c_net c)" "config_inv (c\<lparr>c_connected := (c_connected c)[i := False], c_net := rn\<rparr>)"
    using disconnect_ok [OF assms] by blast
  let ?c1 = "c\<lparr>c_connected := (c_connected c)[i := False], c_net := DeleteServer (int i) rn\<rparr>"
  have i1: "config_inv ?c1" using 1(3) by (simp add: config_inv_def config_shape_def pointers_ok_def links_ok_def)
  obtain c2 where 2: "renew_persister Copy i ?c1 = Inr c2" "config_inv c2" "renewed i ?c1 c2"
      "\<forall>k<c_n c. persisted c2 k = persisted ?c1 k" "c2 = ?c1\<lparr>h_persisters := h_persisters c2, c_saved := c_saved c2\<rparr>"
    using renew_persister_ok [OF i1, of i Copy] assms(2) by auto
  have n2: "i < c_n c2" using assms(2) by (subst 2(5)) simp
  obtain hr where 3: "kill_peer i c2 = Inr (c2\<lparr>h_rafts := hr, c_rafts := (c_rafts c2)[i := None]\<rparr>)"
      "length hr = length (h_rafts c2)" "\<forall>r. c_rafts c2 ! i = Some r \<longrightarrow> killed (hr ! r)"
      "\<forall>r. c_rafts c2 ! i \<noteq> Some r \<longrightarrow> hr ! r = h_rafts c2 ! r"
    using kill_peer_ok [OF 2(2) n2] by blast
  let ?c3 = "c2\<lparr>h_rafts := hr, c_rafts := (c_rafts c2)[i := None]\<rparr>"
  have i3: "config_inv ?c3" using 2(2) 3(2) n2
    by (auto simp: config_inv_def config_shape_def pointers_ok_def links_ok_def nth_list_update split: if_splits)
  obtain c4 where 4: "renew_persister ?f i ?c3 = Inr c4" "config_inv c4" "renewed i ?c3 c4"
      "\<forall>k<c_n ?c3. persisted c4 k = persisted ?c3 k" "c4 = ?c3\<lparr>h_persisters := h_persisters c4, c_saved := c_saved c4\<rparr>"
    using renew_persister_ok [OF i3, of i ?f] n2 f by auto
  have "crash1 i c = Inr c4" using 1(1) 2(1) 3(1) 4(1) by (simp add: crash1_def)
  moreover have "renewed i c c4" using 2(3) 4(3) by (auto simp: renewed_def)
  moreover have nn: "c_n c2 = c_n c" by (subst 2(5)) simp
  moreover have "\<forall>k<c_n c. persisted c4 k = persisted c k" using 2(4) 4(4) nn by (simp add: persisted_def)
  moreover have eqs: "c_connected c2 = (c_connected c)[i := False]" "c_rafts c2 = c_rafts c" "c_net c2 = DeleteServer (int i) rn"
      "c_endnames c2 = c_endnames c" "c_logs c2 = c_logs c" "c_lastApplied c2 = c_lastApplied c" "h_rafts c2 = h_rafts c"
      "h_servers c2 = h_servers c"
    by (subst 2(5), simp)+
  moreover have "c_connected c4 = c_connected c2" "c_rafts c4 = (c_rafts c2)[i := None]" "c_net c4 = c_net c2"
      "c_endnames c4 = c_endnames c2" "c_logs c4 = c_logs c2" "c_lastApplied c4 = c_lastApplied c2" "h_rafts c4 = hr"
      "c_n c4 = c_n c2" "h_servers c4 = h_servers c2"
    by (subst 4(5), simp)+
  ultimately show ?thesis using 3 4(2) net_rest_eq(1,3) [OF 1(2)] by (simp add: DeleteServer_def)
qed

lemma crash1_registered:
  assumes "crash1 i c = Inr c'" and "config_inv c" and "registered c" and "i < c_n c"
  shows "registered c'"
proof -
  have "length (c_rafts c) = c_n c" using assms(2) by (simp add: config_inv_def config_shape_def)
  then show ?thesis using crash1_ok [OF assms(2,4)] assms by (auto simp: registered_def nth_list_update)
qed

lemma ingestSnap_frame:
  "ingestSnap dec i snapshot index c = Inr (err, c') \<Longrightarrow>
   \<exists>logs la. c' = c\<lparr>c_logs := logs, c_lastApplied := la\<rparr> \<and> length logs = length (c_logs c) \<and> length la = length (c_lastApplied c) \<and>
     (\<forall>k. k \<noteq> i \<longrightarrow> logs ! k = c_logs c ! k)"
  by (force simp: ingestSnap_def go_bind_eq_Inr split: option.splits prod.splits if_splits)

lemma config_inv_logs [simp]:
  "length logs = length (c_logs c) \<Longrightarrow> length la = length (c_lastApplied c) \<Longrightarrow>
   config_inv (c\<lparr>c_logs := logs, c_lastApplied := la\<rparr>) = config_inv c"
  by (simp add: config_inv_def config_shape_def pointers_ok_def links_ok_def)

lemma load_persister_ok:
  assumes "load_persister dec i c = Inr c'" and "config_inv c" and "i < c_n c"
  shows "config_inv c' \<and> renewed i c c' \<and> h_persisters c' \<noteq> [] \<and> c_saved c' ! i = Some (length (h_persisters c') - 1) \<and>
    persisted c' i = Some (case persisted c i of None \<Rightarrow> MakePersister | Some ps \<Rightarrow> ps) \<and>
    (\<forall>k<c_n c. k \<noteq> i \<longrightarrow> persisted c' k = persisted c k \<and> c_logs c' ! k = c_logs c ! k) \<and>
    c' = c\<lparr>h_persisters := h_persisters c', c_saved := c_saved c', c_logs := c_logs c', c_lastApplied := c_lastApplied c'\<rparr>"
proof (cases "c_saved c ! i")
  case None
  let ?h = "h_persisters c @ [MakePersister]" and ?s = "(c_saved c)[i := Some (length (h_persisters c))]"
  have len: "length (c_saved c) = c_n c" using assms(2) by (simp add: config_inv_def config_shape_def)
  have sv: "c_saved c ! k = Some a \<Longrightarrow> k < c_n c \<Longrightarrow> a < length (h_persisters c)" for k a
    using assms(2) by (simp add: config_inv_def pointers_ok_def)
  have c': "c' = c\<lparr>h_persisters := ?h, c_saved := ?s\<rparr>"
    using None assms(1,3) len by (simp add: load_persister_def)
  have "config_inv c'" using assms(2,3) len sv unfolding c'
    by (auto simp: config_inv_def config_shape_def pointers_ok_def links_ok_def nth_list_update less_SucI)
  moreover have "persisted c' k = persisted c k" if "k < c_n c" "k \<noteq> i" for k
    using sv [OF _ that(1)] that by (cases "c_saved c ! k") (auto simp: c' persisted_def nth_append)
  ultimately show ?thesis using None assms(3) len by (auto simp: c' renewed_def persisted_def)
next
  case (Some a)
  have len: "length (c_saved c) = c_n c" using assms(2) by (simp add: config_inv_def config_shape_def)
  obtain c1 where 1: "renew_persister Copy i c = Inr c1" "config_inv c1" "renewed i c c1" "\<forall>k<c_n c. persisted c1 k = persisted c k"
      "c1 = c\<lparr>h_persisters := h_persisters c1, c_saved := c_saved c1\<rparr>"
    using renew_persister_ok [OF assms(2,3), of Copy] by auto
  have c1: "h_persisters c1 = h_persisters c @ [Copy (h_persisters c ! a)]" "c_saved c1 ! i = Some (length (h_persisters c))"
    using 1(1) Some assms(3) len by (auto simp: renew_persister_def)
  from assms(1) Some 1(1) assms(3) len obtain logs la where
    l: "c' = c1\<lparr>c_logs := logs, c_lastApplied := la\<rparr>" "length logs = length (c_logs c1)"
      "length la = length (c_lastApplied c1)" "\<forall>k. k \<noteq> i \<longrightarrow> logs ! k = c_logs c1 ! k"
    by (auto simp: load_persister_def Let_def go_bind_eq_Inr split: if_splits option.splits dest!: ingestSnap_frame)
      (metis config.surjective config.update_convs(9,10))
  have eq: "c_logs c1 = c_logs c" by (subst 1(5)) simp
  have "c' = c\<lparr>h_persisters := h_persisters c', c_saved := c_saved c', c_logs := c_logs c', c_lastApplied := c_lastApplied c'\<rparr>"
    unfolding l(1) by (subst 1(5)) simp
  moreover have "persisted c' k = persisted c1 k" for k by (simp add: l(1) persisted_def)
  moreover have "renewed i c c'" using 1(3) by (simp add: renewed_def l(1))
  moreover have "persisted c i \<noteq> None" using Some by (simp add: persisted_def)
  moreover have "config_inv c'" using 1(2) l by simp
  moreover have "c_saved c' ! i = Some (length (h_persisters c') - 1) \<and> h_persisters c' \<noteq> []"
    using c1 by (simp add: l(1))
  moreover have "\<forall>k. k \<noteq> i \<longrightarrow> c_logs c' ! k = c_logs c ! k" using l eq by simp
  ultimately show ?thesis using 1(4) assms(3) by auto
qed

lemma config_inv_register:
  "config_inv c \<Longrightarrow> i < c_n c \<Longrightarrow>
   config_inv (c\<lparr>h_rafts := h_rafts c @ [rf], c_rafts := (c_rafts c)[i := Some (length (h_rafts c))], h_servers := hs,
     c_net := AddServer k a (c_net c)\<rparr>)"
  by (auto simp: config_inv_def config_shape_def pointers_ok_def links_ok_def nth_list_update less_SucI)

lemma config_inv_row:
  "config_inv c \<Longrightarrow> i < c_n c \<Longrightarrow> \<not> c_connected c ! i \<Longrightarrow>
   wired ((c_endnames c)[i := Some (map names [0..<c_n c])]) (\<lambda>p q. c_connected c ! p \<and> c_connected c ! q) {} rn \<Longrightarrow>
   config_inv (c\<lparr>c_endnames := (c_endnames c)[i := Some (map names [0..<c_n c])], c_net := rn,
     c_lastApplied := (c_lastApplied c)[i := 0]\<rparr>)"
  by (auto simp: config_inv_def config_shape_def pointers_ok_def links_ok_def nth_list_update)

lemma start1_ok:
  assumes "start1 dec vote names i c = Inr c'" and "config_inv c" and "i < c_n c"
  shows "config_inv c' \<and> renewed i c c' \<and> c_n c' = c_n c \<and>
    c_endnames c' = (c_endnames c)[i := Some (map names [0..<c_n c])] \<and> c_connected c' = (c_connected c)[i := False] \<and>
    persisted c' i = Some (case persisted c i of None \<Rightarrow> MakePersister | Some ps \<Rightarrow> ps) \<and>
    (\<forall>k<c_n c. k \<noteq> i \<longrightarrow> persisted c' k = persisted c k \<and> c_logs c' ! k = c_logs c ! k) \<and>
    c_rafts c' = (c_rafts c)[i := Some (length (h_rafts c))] \<and> length (h_rafts c') = Suc (length (h_rafts c)) \<and>
    (\<exists>a. c_saved c' ! i = Some a \<and> h_rafts c' ! length (h_rafts c) =
      \<lparr>rf_peers = map (\<lambda>j. \<lparr>ce_endname = names j\<rparr>) [0..<c_n c], rf_persister = a, rf_me = int i, rf_dead = 0\<rparr>) \<and>
    (\<forall>r. c_rafts c ! i = Some r \<longrightarrow> killed (h_rafts c' ! r)) \<and>
    servers (c_net c') = (servers (c_net c))(int i \<mapsto> length (h_servers c)) \<and>
    dom (ends (c_net c')) = dom (ends (c_net c)) \<union> names ` {..<c_n c}"
proof -
  obtain c1 where 1: "crash1 i c = Inr c1" "config_inv c1" "renewed i c c1" "\<forall>k<c_n c. persisted c1 k = persisted c k"
      "c_connected c1 = (c_connected c)[i := False]" "c_rafts c1 = (c_rafts c)[i := None]"
      "servers (c_net c1) = (servers (c_net c))(int i := None)" "length (h_rafts c1) = length (h_rafts c)"
      "\<forall>r. c_rafts c ! i = Some r \<longrightarrow> killed (h_rafts c1 ! r)"
      "c_n c1 = c_n c" "c_endnames c1 = c_endnames c" "c_logs c1 = c_logs c" "h_servers c1 = h_servers c"
      "ends (c_net c1) = ends (c_net c)"
    using crash1_ok [OF assms(2,3)] by blast
  have sh: "config_shape c1" and lk: "links_ok c1" and pt: "pointers_ok c1" using 1(2) by (auto simp: config_inv_def)
  have len: "length (c_endnames c1) = c_n c" "length (c_lastApplied c1) = c_n c" "length (c_connected c) = c_n c" "length (c_rafts c) = c_n c"
    using sh assms(2) 1(10) by (auto simp: config_shape_def config_inv_def)
  let ?eds = "(c_endnames c)[i := Some (map names [0..<c_n c])]" and ?la = "(c_lastApplied c1)[i := 0]"
  have sets: "slice_set (c_endnames c1) (int i) (Some (map names [0..<c_n c1])) = Inr ?eds" "slice_set (c_lastApplied c1) (int i) 0 = Inr ?la"
    using len assms(3) 1(10,11) by simp_all
  note run = assms(1) [unfolded start1_def 1(1) go_bind_Inr sets]
  obtain p where p: "fresh_ends names (c_n c) (c_net c1) = Inr p" using run 1(10) by (cases "fresh_ends names (c_n c) (c_net c1)") simp_all
  obtain rn es where p': "p = (rn, es)" by (cases p)
  from run obtain c2 where 2: "fresh_ends names (c_n c) (c_net c1) = Inr (rn, es)"
      "load_persister dec i (c1\<lparr>c_endnames := ?eds, c_net := rn, c_lastApplied := ?la\<rparr>) = Inr c2"
      "c' = c2\<lparr>h_rafts := h_rafts c2 @ [Make es (int i) (length (h_persisters c2) - 1) (h_persisters c2 ! (length (h_persisters c2) - 1))],
         c_rafts := (c_rafts c2)[i := Some (length (h_rafts c2))],
         h_servers := h_servers c2 @ [AddService (MakeService ''Raft'' (raft_methods vote)) MakeServer],
         c_net := AddServer (int i) (length (h_servers c2)) (c_net c2)\<rparr>"
    unfolding 1(10) p p' go_bind_Inr prod.case go_bind_eq_Inr Let_def by (elim exE conjE) (simp only: sum.inject p p')
  let ?c = "c1\<lparr>c_endnames := ?eds, c_net := rn, c_lastApplied := ?la\<rparr>"
  note F = fresh_ends_facts [OF 2(1)]
  have off: "\<not> c_connected c1 ! i" using 1(5) assms(3) len by simp
  then have "(c_connected c1 ! p \<and> c_connected c1 ! q) = (p \<noteq> i \<and> c_connected c1 ! p \<and> c_connected c1 ! q)" for p q by auto
  with off have "wired ?eds (\<lambda>p q. c_connected c1 ! p \<and> c_connected c1 ! q) {} rn"
    using wired_new_row [OF lk [unfolded links_ok_def], of i names "c_n c" rn es "\<lambda>p q. c_connected c1 ! p \<and> c_connected c1 ! q"]
      2(1) 1(11) assms(3) len by auto
  then have "config_inv ?c" using config_inv_row [OF 1(2), of i names rn] off assms(3) 1(10,11) by simp
  note L = load_persister_ok [OF 2(2) this, simplified, unfolded 1(10), OF assms(3)]
  have fr: "c2 = c1\<lparr>c_endnames := ?eds, c_net := rn, h_persisters := h_persisters c2, c_saved := c_saved c2, c_logs := c_logs c2, c_lastApplied := c_lastApplied c2\<rparr>"
    using L by blast
  have P: "config_inv c2" "renewed i ?c c2" "c_saved c2 ! i = Some (length (h_persisters c2) - 1)"
      "persisted c2 i = Some (case persisted ?c i of None \<Rightarrow> MakePersister | Some ps \<Rightarrow> ps)"
      "\<forall>k<c_n c. k \<noteq> i \<longrightarrow> persisted c2 k = persisted ?c k \<and> c_logs c2 ! k = c_logs c1 ! k"
    using L unfolding One_nat_def by blast+
  have eq: "c_n c2 = c_n c" "c_rafts c2 = (c_rafts c)[i := None]" "c_connected c2 = (c_connected c)[i := False]" "c_endnames c2 = ?eds"
      "c_net c2 = rn" "h_rafts c2 = h_rafts c1" "h_servers c2 = h_servers c"
    by (subst fr, simp add: 1)+
  have "config_inv c'" unfolding 2(3) by (rule config_inv_register [OF P(1)]) (simp add: eq(1) assms(3))
  moreover have "renewed i c c'" using 1(3) P(2) 2(3) by (auto simp: renewed_def)
  moreover have "persisted c' k = persisted c2 k" for k by (simp add: 2(3) persisted_def)
  moreover have "persisted ?c k = persisted c k" if "k < c_n c" for k using that 1(4) by (simp add: persisted_def)
  moreover have "h_rafts c' ! length (h_rafts c) = \<lparr>rf_peers = map (\<lambda>j. \<lparr>ce_endname = names j\<rparr>) [0..<c_n c],
      rf_persister = length (h_persisters c2) - 1, rf_me = int i, rf_dead = 0\<rparr>"
    using eq(6) 1(8) F by (simp add: 2(3) Make_eq nth_append)
  moreover have "\<forall>r. c_rafts c ! i = Some r \<longrightarrow> killed (h_rafts c' ! r)"
  proof (intro allI impI)
    fix r assume r: "c_rafts c ! i = Some r"
    then have "r < length (h_rafts c1)" using assms(2,3) 1(8) by (simp add: config_inv_def pointers_ok_def)
    then show "killed (h_rafts c' ! r)" using 1(9) r eq(6) by (simp add: 2(3) nth_append)
  qed
  ultimately show ?thesis using P eq 1 F assms(3) by (simp add: 2(3) AddServer_def)
qed

end
