(* ===== verification/Raft_Lifecycle.thy ===== *)
theory Raft_Lifecycle
  imports Raft_Config
begin

text \<open>
  The life of a test cluster: any sequence of starting, crashing, connecting and disconnecting
  servers after \<open>make_config\<close>. The theorems say which server an end can reach at any time, that a
  crash keeps what was persisted and cuts the old instance off, and that a fresh configuration is
  fully connected.
\<close>

subsection \<open>Operations of a test\<close>

datatype harness_op =
    Op_connect nat
  | Op_disconnect nat
  | Op_crash1 nat
  | Op_start1 nat "nat \<Rightarrow> string"
  | Op_unreliable bool
  | Op_longreordering bool

fun do_op ::
    "(string \<Rightarrow> (int \<times> 'c iface list) option) \<Rightarrow> string \<Rightarrow> harness_op \<Rightarrow> 'c config \<Rightarrow> 'c config go" where
  "do_op dec vote (Op_connect i) c = connect i c"
| "do_op dec vote (Op_disconnect i) c = disconnect i c"
| "do_op dec vote (Op_crash1 i) c = crash1 i c"
| "do_op dec vote (Op_start1 i names) c = start1 dec vote names i c"
| "do_op dec vote (Op_unreliable b) c = Inr (setunreliable b c)"
| "do_op dec vote (Op_longreordering b) c = Inr (setlongreordering b c)"

definition harness_inv :: "'c config \<Rightarrow> bool" where
  "harness_inv c \<longleftrightarrow> config_inv c \<and> registered c"

lemma index_out_of_range:
  assumes "config_inv c" and "\<not> i < c_n c"
  shows "connect i c = Inl IndexOutOfRange" "disconnect i c = Inl IndexOutOfRange"
    "crash1 i c = Inl IndexOutOfRange" "start1 dec vote names i c = Inl IndexOutOfRange"
proof -
  have len: "slice_set (c_connected c) (int i) b = Inl IndexOutOfRange" for b
    using assms by (simp add: config_inv_def config_shape_def)
  show "connect i c = Inl IndexOutOfRange" and d: "disconnect i c = Inl IndexOutOfRange"
    by (simp_all only: connect_def disconnect_def len go_bind_Inl)
  then show c: "crash1 i c = Inl IndexOutOfRange" by (simp only: crash1_def go_bind_Inl)
  then show "start1 dec vote names i c = Inl IndexOutOfRange" by (simp only: start1_def go_bind_Inl)
qed

lemma index_in_range:
  assumes "config_inv c"
  shows "connect i c = Inr c' \<Longrightarrow> i < c_n c" and "disconnect i c = Inr c' \<Longrightarrow> i < c_n c"
    and "crash1 i c = Inr c' \<Longrightarrow> i < c_n c" and "start1 dec vote names i c = Inr c' \<Longrightarrow> i < c_n c"
  using index_out_of_range [OF assms] by (metis sum.distinct(1))+

lemma registered_net_rest:
  "registered c \<Longrightarrow> net_rest rn = net_rest (c_net c) \<Longrightarrow> registered (c\<lparr>c_connected := cs, c_net := rn\<rparr>)"
  using net_rest_eq(3) [of rn "c_net c"] by (simp add: registered_def)

lemma do_op_inv:
  assumes "harness_inv c" and "do_op dec vote op c = Inr c'"
  shows "harness_inv c' \<and> c_n c' = c_n c"
proof -
  have inv: "config_inv c" and reg: "registered c" using assms(1) by (auto simp: harness_inv_def)
  show ?thesis
  proof (cases op)
    case (Op_connect i)
    then have r: "connect i c = Inr c'" using assms(2) by simp
    from connect_ok [OF inv index_in_range(1) [OF inv r] connect_needs_row [OF r inv index_in_range(1) [OF inv r]]]
    show ?thesis using r registered_net_rest [OF reg] by (auto simp: harness_inv_def)
  next
    case (Op_disconnect i)
    then have r: "disconnect i c = Inr c'" using assms(2) by simp
    from disconnect_ok [OF inv index_in_range(2) [OF inv r]]
    show ?thesis using r registered_net_rest [OF reg] by (auto simp: harness_inv_def)
  next
    case (Op_crash1 i)
    then have r: "crash1 i c = Inr c'" using assms(2) by simp
    note i = index_in_range(3) [OF inv r]
    from crash1_ok [OF inv i] crash1_registered [OF r inv reg i] show ?thesis using r by (auto simp: harness_inv_def)
  next
    case (Op_start1 i names)
    then have r: "start1 dec vote names i c = Inr c'" using assms(2) by simp
    note i = index_in_range(4) [OF inv r]
    note S = start1_ok [OF r inv i]
    have "registered c'" using S reg inv i
      by (auto simp: registered_def config_inv_def config_shape_def nth_list_update)
    then show ?thesis using S by (simp add: harness_inv_def)
  next
    case (Op_unreliable b)
    then show ?thesis using assms
      by (auto simp: setunreliable_def Reliable_def harness_inv_def config_inv_def config_shape_def pointers_ok_def
          links_ok_def wired_def registered_def)
  next
    case (Op_longreordering b)
    then show ?thesis using assms
      by (auto simp: setlongreordering_def LongReordering_def harness_inv_def config_inv_def config_shape_def pointers_ok_def
          links_ok_def wired_def registered_def)
  qed
qed

lemma do_ops_inv:
  "harness_inv c \<Longrightarrow> go_fold (do_op dec vote) ops c = Inr c' \<Longrightarrow> harness_inv c' \<and> c_n c' = c_n c"
  by (rule go_fold_invariant [where P = "\<lambda>d. harness_inv d \<and> c_n d = c_n c"]) (auto dest: do_op_inv)

subsection \<open>A new configuration\<close>

definition fresh_config :: "int \<Rightarrow> nat \<Rightarrow> bool \<Rightarrow> 'c config" where
  "fresh_config now n unreliable =
     (let c0 = setunreliable unreliable (new_config now n) in c0\<lparr>c_net := LongDelays True (c_net c0)\<rparr>)"

lemma fresh_config_facts:
  "harness_inv (fresh_config now n u)" "c_n (fresh_config now n u) = n"
  "ends (c_net (fresh_config now n u)) = Map.empty" "c_saved (fresh_config now n u) = replicate n None"
  "c_connected (fresh_config now n u) = replicate n False" "c_endnames (fresh_config now n u) = replicate n None"
  by (auto simp: fresh_config_def setunreliable_def Reliable_def LongDelays_def new_config_def MakeNetwork_def harness_inv_def
      config_inv_def config_shape_def pointers_ok_def links_ok_def wired_def registered_def endname_at_Inr Let_def)

lemma make_config_eq:
  "make_config dec vote names now n u =
     go_bind (go_fold (\<lambda>i c. start1 dec vote (names i) i (c\<lparr>c_logs := (c_logs c)[i := Map.empty]\<rparr>)) [0..<n] (fresh_config now n u))
       (go_fold connect [0..<n])"
  by (simp add: make_config_def fresh_config_def Let_def)

lemma harness_inv_logs [simp]: "harness_inv (c\<lparr>c_logs := (c_logs c)[i := m]\<rparr>) = harness_inv c"
  by (simp add: harness_inv_def config_inv_def config_shape_def pointers_ok_def links_ok_def registered_def)

lemma make_config_inv:
  assumes "make_config dec vote names now n u = Inr c"
  shows "harness_inv c \<and> c_n c = n"
proof -
  obtain d where d: "go_fold (\<lambda>i c. start1 dec vote (names i) i (c\<lparr>c_logs := (c_logs c)[i := Map.empty]\<rparr>)) [0..<n] (fresh_config now n u) = Inr d"
    and c: "go_fold connect [0..<n] d = Inr c"
    using assms by (auto simp: make_config_eq go_bind_eq_Inr)
  have "harness_inv d \<and> c_n d = n"
    by (rule go_fold_invariant [OF d, where P = "\<lambda>d. harness_inv d \<and> c_n d = n"])
      (auto simp: fresh_config_facts dest!: do_op_inv [where op = "Op_start1 i names" for i names, simplified, rotated])
  then show ?thesis
    by (rule go_fold_invariant [OF c, where P = "\<lambda>d. harness_inv d \<and> c_n d = n"])
      (auto dest: do_op_inv [where op = "Op_connect i" for i, simplified, rotated])
qed

lemma load_persister_succeeds:
  assumes "config_inv c" and "i < c_n c" and "c_saved c ! i = None \<or> (\<forall>bs. \<exists>xlog. dec bs = Some (0, xlog))"
  shows "\<exists>c'. load_persister dec i c = Inr c'"
proof -
  have len: "i < length (c_saved c)" "i < length (c_logs c)" "i < length (c_lastApplied c)"
    using assms(1,2) by (simp_all add: config_inv_def config_shape_def)
  show ?thesis
  proof (cases "c_saved c ! i")
    case None
    then show ?thesis using len by (simp add: load_persister_def)
  next
    case (Some a)
    obtain xlog where "dec (ReadSnapshot (h_persisters c ! a)) = Some (0, xlog)" using assms(3) Some by auto
    then show ?thesis using Some len by (simp add: load_persister_def renew_persister_def ingestSnap_def Let_def)
  qed
qed

lemma start1_succeeds:
  assumes "config_inv c" and "i < c_n c" and saved: "c_saved c ! i = None \<or> (\<forall>bs. \<exists>xlog. dec bs = Some (0, xlog))"
    and "inj_on names {..<c_n c}" and "\<forall>j<c_n c. ends (c_net c) (names j) = None"
  shows "\<exists>c'. start1 dec vote names i c = Inr c'"
proof -
  obtain c1 where 1: "crash1 i c = Inr c1" "config_inv c1" "\<forall>k<c_n c. persisted c1 k = persisted c k" "c_n c1 = c_n c"
      "ends (c_net c1) = ends (c_net c)" "c_connected c1 = (c_connected c)[i := False]"
    using crash1_ok [OF assms(1,2)] by blast
  have len: "i < length (c_endnames c1)" "i < length (c_lastApplied c1)" "i < length (c_connected c)"
    using 1(2,4) assms(1,2) by (simp_all add: config_inv_def config_shape_def)
  have "persisted c1 i = persisted c i" using 1(3) assms(2) by simp
  then have sv: "c_saved c1 ! i = None \<or> (\<forall>bs. \<exists>xlog. dec bs = Some (0, xlog))"
    using saved unfolding persisted_def by (metis option.map_disc_iff)
  obtain rn es where 2: "fresh_ends names (c_n c1) (c_net c1) = Inr (rn, es)"
    using fresh_ends_ok [of names "c_n c" "c_net c1"] assms(4,5) 1(4,5) by auto
  have off: "\<not> c_connected c1 ! i" using 1(6) len by simp
  have "wired ((c_endnames c1)[i := Some (map names [0..<c_n c1])]) (\<lambda>p q. c_connected c1 ! p \<and> c_connected c1 ! q) {} rn"
    using wired_new_row [of "c_endnames c1" "\<lambda>p q. c_connected c1 ! p \<and> c_connected c1 ! q" "{}" "c_net c1" i names "c_n c1" rn es
        "\<lambda>p q. c_connected c1 ! p \<and> c_connected c1 ! q"] 1(2) 2 len off
    by (auto simp: config_inv_def links_ok_def)
  note config_inv_row [OF 1(2) _ off this]
  from load_persister_succeeds [OF this, of i dec] sv obtain c2 where
    "load_persister dec i (c1\<lparr>c_endnames := (c_endnames c1)[i := Some (map names [0..<c_n c1])], c_net := rn,
      c_lastApplied := (c_lastApplied c1)[i := 0]\<rparr>) = Inr c2"
    using assms(2) 1(4) by auto
  then show ?thesis
    using 1(1) 2 len(1,2) by (simp add: start1_def Let_def)
qed

text \<open>The state after the first \<open>k\<close> servers were started, before any is connected.\<close>

definition started :: "(nat \<Rightarrow> nat \<Rightarrow> string) \<Rightarrow> nat \<Rightarrow> nat \<Rightarrow> 'c config \<Rightarrow> bool" where
  "started names n k c \<longleftrightarrow>
     harness_inv c \<and> c_n c = n \<and> (\<forall>i<n. k \<le> i \<longrightarrow> c_saved c ! i = None) \<and>
     (\<forall>i<k. c_endnames c ! i = Some (map (names i) [0..<n]) \<and> c_rafts c ! i \<noteq> None) \<and>
     dom (ends (c_net c)) = (\<Union>i<k. names i ` {..<n})"

lemma started_Suc:
  assumes "started names n k c" and "k < n"
    and nd: "names_distinct names n"
  shows "\<exists>c'. start1 dec vote (names k) k (c\<lparr>c_logs := (c_logs c)[k := Map.empty]\<rparr>) = Inr c' \<and> started names n (Suc k) c'"
proof -
  let ?c = "c\<lparr>c_logs := (c_logs c)[k := Map.empty]\<rparr>"
  have inj: "i = i' \<and> j = j'" if "i < n" "j < n" "i' < n" "j' < n" "names i j = names i' j'" for i j i' j'
    using nd that unfolding names_distinct_def by blast
  have h: "harness_inv ?c" and cn: "c_n c = n" using assms(1) by (simp_all add: started_def)
  then have inv: "config_inv ?c" by (simp add: harness_inv_def)
  have len: "length (c_endnames c) = n" "length (c_rafts c) = n" using inv cn by (auto simp: config_inv_def config_shape_def)
  have "inj_on (names k) {..<n}" using inj assms(2) by (auto intro: inj_onI)
  moreover have "ends (c_net c) (names k j) = None" if "j < n" for j
  proof (rule ccontr)
    assume "ends (c_net c) (names k j) \<noteq> None"
    then have "names k j \<in> dom (ends (c_net c))" by (simp add: domIff)
    then obtain i j' where "i < k" "j' < n" "names k j = names i j'" using assms(1) by (auto simp: started_def)
    with inj [of k j i j'] that assms(2) show False by simp
  qed
  ultimately obtain c' where c': "start1 dec vote (names k) k ?c = Inr c'"
    using start1_succeeds [OF inv, of k dec "names k" vote] assms(1,2) cn by (auto simp: started_def)
  note S = start1_ok [OF c' inv]
  have h': "harness_inv c'" using do_op_inv [OF h, of dec vote "Op_start1 k (names k)" c'] c' by simp
  have "c_saved c' ! i = None" if "i < n" "Suc k \<le> i" for i
    using S assms(1,2) cn that by (auto simp: renewed_def started_def)
  moreover have "c_endnames c' ! i = Some (map (names i) [0..<n]) \<and> c_rafts c' ! i \<noteq> None" if "i < Suc k" for i
    using S assms(1,2) cn len that by (cases "i = k") (auto simp: started_def)
  moreover have "dom (ends (c_net c')) = (\<Union>i<Suc k. names i ` {..<n})"
    using S assms(1,2) cn by (auto simp: started_def lessThan_Suc)
  ultimately show ?thesis using S assms(2) cn c' h' by (auto simp: started_def)
qed

lemma starts_succeed:
  assumes "names_distinct names n" and "k \<le> n"
  shows "\<exists>d. go_fold (\<lambda>i c. start1 dec vote (names i) i (c\<lparr>c_logs := (c_logs c)[i := Map.empty]\<rparr>)) [0..<k] (fresh_config now n u) = Inr d \<and>
    started names n k d"
  using assms(2)
proof (induction k)
  case 0
  then show ?case by (simp add: started_def fresh_config_facts)
next
  case (Suc k)
  let ?f = "\<lambda>i c. start1 dec vote (names i) i (c\<lparr>c_logs := (c_logs c)[i := Map.empty]\<rparr>)"
  obtain d where d: "go_fold ?f [0..<k] (fresh_config now n u) = Inr d" "started names n k d"
    using Suc by (meson Suc_leD)
  obtain c' where c': "?f k d = Inr c'" "started names n (Suc k) c'"
    using started_Suc [OF d(2) _ assms(1), of dec vote] Suc.prems by (meson Suc_le_lessD)
  have "go_fold ?f [0..<Suc k] (fresh_config now n u) = go_bind (go_fold ?f [0..<k] (fresh_config now n u)) (go_fold ?f [k])"
    unfolding upt_Suc_append [OF le0] by (rule go_fold_append)
  also have "\<dots> = Inr c'" unfolding d(1) go_bind_Inr go_fold.simps c'(1) ..
  finally show ?case using c'(2) by blast
qed

lemma connects_succeed:
  assumes "harness_inv d" and "\<forall>i<c_n d. c_endnames d ! i \<noteq> None \<and> c_rafts d ! i \<noteq> None" and "k \<le> c_n d"
  shows "\<exists>c. go_fold connect [0..<k] d = Inr c \<and> harness_inv c \<and> c_n c = c_n d \<and> c_endnames c = c_endnames d \<and>
    c_rafts c = c_rafts d \<and> ends (c_net c) = ends (c_net d) \<and> (\<forall>i<k. c_connected c ! i)"
  using assms(3)
proof (induction k)
  case 0
  then show ?case using assms(1) by simp
next
  case (Suc k)
  then obtain c where c: "go_fold connect [0..<k] d = Inr c" "harness_inv c" "c_n c = c_n d" "c_endnames c = c_endnames d"
      "c_rafts c = c_rafts d" "\<forall>i<k. c_connected c ! i" "ends (c_net c) = ends (c_net d)" by auto
  have inv: "config_inv c" and k: "k < c_n c" and row: "c_endnames c ! k \<noteq> None"
    using c Suc.prems assms(2) by (auto simp: harness_inv_def)
  have len: "length (c_connected c) = c_n c" using inv by (simp add: config_inv_def config_shape_def)
  obtain rn where r: "connect k c = Inr (c\<lparr>c_connected := (c_connected c)[k := True], c_net := rn\<rparr>)"
      "net_rest rn = net_rest (c_net c)"
    using connect_ok [OF inv k row] by blast
  have "harness_inv (c\<lparr>c_connected := (c_connected c)[k := True], c_net := rn\<rparr>)"
    using do_op_inv [OF c(2), of "\<lambda>_. None" "[]" "Op_connect k"] r by simp
  then show ?case using c r(1) net_rest_eq(1) [OF r(2)] k len by (auto simp: nth_list_update less_Suc_eq)
qed

lemma make_config_mesh:
  assumes "names_distinct names n"
  shows "\<exists>c. make_config dec vote names now n unreliable = Inr c \<and> c_n c = n \<and>
    dom (ends (c_net c)) = (\<Union>i<n. names i ` {..<n}) \<and>
    (\<forall>i<n. \<forall>j<n. \<exists>a. reachable_server (c_net c) (names i j) (int j) a)"
proof -
  obtain d where d: "go_fold (\<lambda>i c. start1 dec vote (names i) i (c\<lparr>c_logs := (c_logs c)[i := Map.empty]\<rparr>)) [0..<n]
      (fresh_config now n unreliable) = Inr d" "started names n n d"
    using starts_succeed [OF assms order_refl] by blast
  then obtain c where c: "go_fold connect [0..<n] d = Inr c" "harness_inv c" "c_n c = n" "c_endnames c = c_endnames d"
      "c_rafts c = c_rafts d" "\<forall>i<n. c_connected c ! i" "ends (c_net c) = ends (c_net d)"
    using connects_succeed [of d n] by (auto simp: started_def)
  have "wired (c_endnames c) (\<lambda>i j. c_connected c ! i \<and> c_connected c ! j) {} (c_net c)"
    using c(2) by (simp add: harness_inv_def config_inv_def links_ok_def)
  note R = wired_reachable [OF this]
  have "\<exists>a. reachable_server (c_net c) (names i j) (int j) a" if ij: "i < n" "j < n" for i j
  proof -
    have "length (c_endnames c) = n" using c(2,3) by (simp add: harness_inv_def config_inv_def config_shape_def)
    then have "endname_at (c_endnames c) i j = Inr (names i j)" using d(2) c(4) ij by (simp add: endname_at_Inr started_def)
    moreover have "c_rafts c ! j \<noteq> None" using c(5) d(2) ij by (simp add: started_def)
    then obtain a where "servers (c_net c) (int j) = Some a"
      using c(2,3) ij by (force simp: harness_inv_def registered_def)
    ultimately show ?thesis using R c(6) ij by blast
  qed
  then show ?thesis using d c(1,3,7) by (auto simp: make_config_eq started_def)
qed

definition sample_names :: "nat \<Rightarrow> nat \<Rightarrow> string" where
  "sample_names i j = (if i = 0 then if j = 0 then ''a'' else ''b'' else if j = 0 then ''c'' else ''d'')"

lemma sample_names_distinct: "names_distinct sample_names 2"
  by (auto simp: names_distinct_def sample_names_def less_2_cases_iff)

lemma reachable_state_inv:
  assumes "make_config dec vote names now n unreliable = Inr c0" and "go_fold (do_op dec vote) ops c0 = Inr c"
  shows "harness_inv c" "c_n c = n"
  using do_ops_inv [OF _ assms(2)] make_config_inv [OF assms(1)] by auto

lemma persisted_instance_save:
  "renewed i c c' \<Longrightarrow> a < length (h_persisters c) \<Longrightarrow> persisted (instance_save a st snap c') i = persisted c' i"
  by (cases "c_saved c' ! i") (auto simp: persisted_def instance_save_def renewed_def)

subsection \<open>Properties\<close>

text \<open>
  C12. What a client end can reach, after any sequence of connecting, disconnecting, crashing and
  starting servers: exactly the registered instance of server \<open>j\<close>, and only through the current end
  \<open>(i, j)\<close> of a server \<open>i\<close> where both \<open>i\<close> and \<open>j\<close> are connected. So the ends of earlier instances
  reach nothing. A server is registered exactly when the harness has an instance of it.
\<close>

theorem harness_reachability:
  assumes "make_config dec vote names now n unreliable = Inr c0" and "go_fold (do_op dec vote) ops c0 = Inr c"
  shows "(reachable_server (c_net c) e k a \<longleftrightarrow>
      (\<exists>i j. endname_at (c_endnames c) i j = Inr e \<and> c_connected c ! i \<and> c_connected c ! j \<and>
        k = int j \<and> servers (c_net c) (int j) = Some a)) \<and>
    (\<forall>j<n. servers (c_net c) (int j) = None \<longleftrightarrow> c_rafts c ! j = None)"
proof -
  have "wired (c_endnames c) (\<lambda>i j. c_connected c ! i \<and> c_connected c ! j) {} (c_net c)" "registered c" "c_n c = n"
    using reachable_state_inv [OF assms] by (auto simp: harness_inv_def config_inv_def links_ok_def)
  then show ?thesis using wired_reachable [of "c_endnames c" _ "c_net c" e k a] by (auto simp: registered_def)
qed

theorem harness_reachability_witness:
  "\<exists>c. \<forall>e a. \<not> reachable_server (c_net (c :: nat config)) e 0 a"
proof -
  obtain c0 :: "nat config" where m: "make_config (\<lambda>_. None) [] sample_names 0 2 False = Inr c0"
    using make_config_mesh [OF sample_names_distinct] by blast
  have inv: "config_inv c0" and n: "c_n c0 = 2" using make_config_inv [OF m] by (auto simp: harness_inv_def)
  obtain c where c: "crash1 0 c0 = Inr c" "c_connected c = (c_connected c0)[0 := False]" using crash1_ok [OF inv, of 0] n by auto
  have "0 < length (c_connected c0)" using inv n by (simp add: config_inv_def config_shape_def)
  then have "\<not> c_connected c ! 0" by (simp add: c(2))
  moreover have "reachable_server (c_net c) e 0 a \<longrightarrow> c_connected c ! 0" for e a
    using harness_reachability [OF m, of "[Op_crash1 0]" c e 0 a] c(1) by auto
  ultimately show ?thesis by blast
qed

text \<open>
  A new configuration is a full mesh: when the random end names are distinct, \<open>make_config\<close>
  succeeds, every server has an instance, and every server's end for every server (itself
  included) reaches that server's instance.
\<close>

lemma make_config_full_mesh:
  assumes "names_distinct names n"
  shows "\<exists>c. make_config dec vote names now n unreliable = Inr c \<and>
    (\<forall>i<n. \<forall>j<n. \<exists>a. reachable_server (c_net c) (names i j) (int j) a)"
  using make_config_mesh [OF assms] by blast



end
