(* ===== verification/Raft_Agreement.thy ===== *)
theory Raft_Agreement
  imports Raft_Config
begin

text \<open>
  The test harness of the Raft package, second part (\<open>raft/config.go\<close>): the readers of the apply
  channels with their checks of the committed entries, snapshots of the log, and the functions by
  which tests look for a leader and for agreement. What the peers answer, and the states of the
  harness that a polling loop sees, are arguments, since the peers run concurrently.
\<close>

subsection \<open>Checking committed entries\<close>

definition log_mismatch :: "(int \<rightharpoonup> 'c iface) list \<Rightarrow> int \<Rightarrow> 'c iface \<Rightarrow> nat \<Rightarrow> bool" where
  "log_mismatch logs idx v j \<longleftrightarrow> (case (logs ! j) idx of None \<Rightarrow> False | Some old \<Rightarrow> old \<noteq> v)"

definition checkLogs :: "nat \<Rightarrow> 'c iface ApplyMsg \<Rightarrow> 'c config \<Rightarrow> ('c apply_err option \<times> bool \<times> 'c config) go" where
  "checkLogs i m cfg =
     (let v = Command m; idx = CommandIndex m;
          err = fold (\<lambda>j e. if log_mismatch (c_logs cfg) idx v j
                  then Some (CommitMismatch idx i v j (the ((c_logs cfg ! j) idx))) else e) [0..<length (c_logs cfg)] None
      in go_bind (slice_get (c_logs cfg) (int i)) (\<lambda>log.
         let prevok = (log (idx - 1) \<noteq> None)
         in Inr (err, prevok, cfg\<lparr>c_logs := (c_logs cfg)[i := log(idx \<mapsto> v)],
              c_maxIndex := (if idx > c_maxIndex cfg then idx else c_maxIndex cfg)\<rparr>)))"

text \<open>One message read by \<open>applier\<close>; \<open>log.Fatalf\<close> ends the process, so the store after it is never reached.\<close>

definition applier_msg :: "nat \<Rightarrow> 'c iface ApplyMsg \<Rightarrow> 'c config \<Rightarrow> 'c config go" where
  "applier_msg i m cfg =
     (if \<not> CommandValid m then Inr cfg
      else go_bind (checkLogs i m cfg) (\<lambda>(err, prevok, c1).
        let err_msg = (if CommandIndex m > 1 \<and> \<not> prevok then Some (OutOfOrder i (CommandIndex m)) else err)
        in if err_msg \<noteq> None then Inl (LogFatal ''apply error'') else Inr c1))"

definition SnapShotInterval :: int where
  "SnapShotInterval = 10"

text \<open>The entries of a snapshot up to \<open>idx\<close>; reading a missing entry of the map gives nil.\<close>

definition snapshot_entries :: "(int \<rightharpoonup> 'c iface) \<Rightarrow> int \<Rightarrow> 'c iface list" where
  "snapshot_entries log idx = map (\<lambda>j. case log (int j) of None \<Rightarrow> None | Some v \<Rightarrow> v) [0..<nat (idx + 1)]"

text \<open>
  One message read by \<open>applierSnap\<close> for the peer at address \<open>rf\<close>, with the bytes handed to the peer as
  a snapshot, if any.
\<close>

definition applierSnap_msg ::
    "(int \<Rightarrow> 'c iface list \<Rightarrow> string) \<Rightarrow> (string \<Rightarrow> (int \<times> 'c iface list) option) \<Rightarrow> nat \<Rightarrow> nat
     \<Rightarrow> 'c iface ApplyMsg \<Rightarrow> 'c config \<Rightarrow> ('c config \<times> string option) go" where
  "applierSnap_msg enc dec rf i m cfg =
     (if SnapshotValid m then
        go_bind (ingestSnap dec i (am_Snapshot m) (SnapshotIndex m) cfg) (\<lambda>(err, c1).
          if err \<noteq> None then Inl (LogFatal ''apply error'') else Inr (c1, None))
      else if CommandValid m then
        go_bind (slice_get (c_lastApplied cfg) (int i)) (\<lambda>la.
        let idx = CommandIndex m;
            err0 = (if idx \<noteq> la + 1 then Some (UnexpectedIndex i (la + 1) idx) else None) in
        go_bind (if err0 = None then
            go_bind (checkLogs i m cfg) (\<lambda>(err, prevok, c1).
              Inr (if idx > 1 \<and> \<not> prevok then Some (OutOfOrder i idx) else err, c1))
          else Inr (err0, cfg)) (\<lambda>(err, c1).
        go_bind (slice_set (c_lastApplied c1) (int i) idx) (\<lambda>las.
        let c2 = c1\<lparr>c_lastApplied := las\<rparr>;
            snap = (if (idx + 1) mod SnapShotInterval = 0
              then Some (enc idx (snapshot_entries (c_logs c2 ! i) idx)) else None);
            c3 = (case snap of None \<Rightarrow> c2
              | Some bs \<Rightarrow> c2\<lparr>h_rafts := (h_rafts c2)[rf := raft_Snapshot idx bs (h_rafts c2 ! rf)]\<rparr>)
        in if err \<noteq> None then Inl (LogFatal ''apply error'') else Inr (c3, snap))))
      else Inr (cfg, None))"

subsection \<open>Looking for agreement\<close>

definition nCommitted :: "int \<Rightarrow> 'c config \<Rightarrow> (nat \<times> 'c iface) go" where
  "nCommitted index cfg =
     go_fold (\<lambda>i (count, cmd).
       go_bind (slice_get (c_applyErr cfg) (int i)) (\<lambda>e.
       if e \<noteq> None then Inl (TestFatal ''applyErr'')
       else go_bind (slice_get (c_logs cfg) (int i)) (\<lambda>log.
         case log index of
           None \<Rightarrow> Inr (count, cmd)
         | Some cmd1 \<Rightarrow>
             if count > 0 \<and> cmd \<noteq> cmd1 then Inl (TestFatal ''committed values do not match'')
             else Inr (count + 1, cmd1))))
     [0..<length (c_rafts cfg)] (0, None)"

datatype 'c wait_result = MovedOn | Decided "'c iface"

text \<open>
  \<open>wait\<close>: \<open>cfgs k\<close> is the state that round \<open>k\<close> sees, \<open>get k i\<close> what \<open>GetState\<close> of server \<open>i\<close> returns in it;
  the result \<open>MovedOn\<close> is the value -1 of the source. The pauses are left out.
\<close>

fun wait_rounds ::
    "int \<Rightarrow> nat \<Rightarrow> int \<Rightarrow> (nat \<Rightarrow> 'c config) \<Rightarrow> (nat \<Rightarrow> nat \<Rightarrow> int \<times> bool) \<Rightarrow> nat \<Rightarrow> nat \<Rightarrow> bool go" where
  "wait_rounds index n startTerm cfgs get 0 k = Inr False"
| "wait_rounds index n startTerm cfgs get (Suc left) k =
     go_bind (nCommitted index (cfgs k)) (\<lambda>(nd, _).
       if nd \<ge> n then Inr False
       else if startTerm > -1 \<and> (\<exists>i\<in>set [0..<length (c_rafts (cfgs k))]. fst (get k i) > startTerm) then Inr True
       else wait_rounds index n startTerm cfgs get left (Suc k))"

definition cfg_wait ::
    "int \<Rightarrow> nat \<Rightarrow> int \<Rightarrow> (nat \<Rightarrow> 'c config) \<Rightarrow> 'c config \<Rightarrow> (nat \<Rightarrow> nat \<Rightarrow> int \<times> bool) \<Rightarrow> 'c wait_result go" where
  "cfg_wait index n startTerm cfgs last_cfg get =
     go_bind (wait_rounds index n startTerm cfgs get 30 0) (\<lambda>moved.
       if moved then Inr MovedOn
       else go_bind (nCommitted index last_cfg) (\<lambda>(nd, cmd).
         if nd < n then Inl (TestFatal ''only some decided'') else Inr (Decided cmd)))"

text \<open>
  \<open>one\<close>: a round begins with less than ten seconds elapsed; it sees whether the test is finished, the
  state in which servers are tried, what \<open>Start\<close> returns on each of them, and the states that the
  waiting loop of two seconds looks at.
\<close>

record 'c one_round =
  or_finished :: bool
  or_cfg :: "'c config"
  or_start :: "nat \<Rightarrow> int \<times> int \<times> bool"
  or_polls :: "'c config list"

fun try_servers :: "'c config \<Rightarrow> (nat \<Rightarrow> int \<times> int \<times> bool) \<Rightarrow> nat \<Rightarrow> nat \<Rightarrow> (int \<times> nat) go" where
  "try_servers cfg st 0 starts = Inr (-1, starts)"
| "try_servers cfg st (Suc left) starts =
     (let starts' = (starts + 1) mod c_n cfg in
      go_bind (slice_get (c_connected cfg) (int starts')) (\<lambda>conn.
      go_bind (if conn then slice_get (c_rafts cfg) (int starts') else Inr None) (\<lambda>rf.
      case rf of
        None \<Rightarrow> try_servers cfg st left starts'
      | Some _ \<Rightarrow>
          (case st starts' of (index1, _, ok) \<Rightarrow>
             if ok then Inr (index1, starts') else try_servers cfg st left starts'))))"

fun poll_agreement :: "'c iface \<Rightarrow> nat \<Rightarrow> int \<Rightarrow> 'c config list \<Rightarrow> bool go" where
  "poll_agreement cmd expectedServers index [] = Inr False"
| "poll_agreement cmd expectedServers index (c # cs) =
     go_bind (nCommitted index c) (\<lambda>(nd, cmd1).
       if nd > 0 \<and> nd \<ge> expectedServers \<and> cmd1 = cmd then Inr True
       else poll_agreement cmd expectedServers index cs)"

fun one :: "'c iface \<Rightarrow> nat \<Rightarrow> bool \<Rightarrow> nat \<Rightarrow> bool \<Rightarrow> 'c one_round list \<Rightarrow> int go" where
  "one cmd expectedServers retry starts finished [] =
     (if \<not> finished then Inl (TestFatal ''failed to reach agreement'') else Inr (-1))"
| "one cmd expectedServers retry starts finished (r # rs) =
     (if or_finished r then Inr (-1)
      else go_bind (try_servers (or_cfg r) (or_start r) (c_n (or_cfg r)) starts) (\<lambda>(index, starts').
        if index \<noteq> -1 then
          go_bind (poll_agreement cmd expectedServers index (or_polls r)) (\<lambda>agreed.
            if agreed then Inr index
            else if \<not> retry then Inl (TestFatal ''failed to reach agreement'')
            else one cmd expectedServers retry starts' finished rs)
        else one cmd expectedServers retry starts' finished rs))"

subsection \<open>Looking for a leader\<close>

text \<open>The table of the leaders of each term, in the order in which the servers are asked.\<close>

definition leaders_of :: "'c config \<Rightarrow> (nat \<Rightarrow> int \<times> bool) \<Rightarrow> int \<rightharpoonup> nat list" where
  "leaders_of cfg get =
     fold (\<lambda>i tab. if c_connected cfg ! i \<and> snd (get i)
         then tab(fst (get i) \<mapsto> (case tab (fst (get i)) of None \<Rightarrow> [] | Some is \<Rightarrow> is) @ [i]) else tab)
       [0..<c_n cfg] Map.empty"

text \<open>
  \<open>checkOneLeader\<close>: \<open>get k i\<close> is what \<open>GetState\<close> of server \<open>i\<close> returns in round \<open>k\<close>, \<open>order tab\<close> the order in
  which \<open>range\<close> visits the terms of a table.
\<close>

fun leader_rounds ::
    "((int \<rightharpoonup> nat list) \<Rightarrow> int list) \<Rightarrow> 'c config \<Rightarrow> (nat \<Rightarrow> nat \<Rightarrow> int \<times> bool) \<Rightarrow> nat \<Rightarrow> nat \<Rightarrow> nat go" where
  "leader_rounds order cfg get 0 k = Inl (TestFatal ''expected one leader, got none'')"
| "leader_rounds order cfg get (Suc left) k =
     (let tab = leaders_of cfg (get k) in
      go_bind (go_fold (\<lambda>term lastTerm.
          if length (the (tab term)) > 1 then Inl (TestFatal ''term has more than one leader'')
          else Inr (if term > lastTerm then term else lastTerm)) (order tab) (-1)) (\<lambda>lastTermWithLeader.
      if order tab \<noteq> [] then
        (case tab lastTermWithLeader of None \<Rightarrow> Inl IndexOutOfRange | Some is \<Rightarrow> slice_get is 0)
      else leader_rounds order cfg get left (Suc k)))"

definition checkOneLeader ::
    "((int \<rightharpoonup> nat list) \<Rightarrow> int list) \<Rightarrow> 'c config \<Rightarrow> (nat \<Rightarrow> nat \<Rightarrow> int \<times> bool) \<Rightarrow> nat go" where
  "checkOneLeader order cfg get = leader_rounds order cfg get 10 0"

definition checkTerms :: "'c config \<Rightarrow> (nat \<Rightarrow> int \<times> bool) \<Rightarrow> int go" where
  "checkTerms cfg get =
     go_fold (\<lambda>i term.
       if c_connected cfg ! i then
         let xterm = fst (get i) in
         if term = -1 then Inr xterm
         else if term \<noteq> xterm then Inl (TestFatal ''servers disagree on term'') else Inr term
       else Inr term) [0..<c_n cfg] (-1)"

definition checkNoLeader :: "'c config \<Rightarrow> (nat \<Rightarrow> int \<times> bool) \<Rightarrow> unit go" where
  "checkNoLeader cfg get =
     go_fold (\<lambda>i _. if c_connected cfg ! i \<and> snd (get i)
       then Inl (TestFatal ''expected no leader among connected servers'') else Inr ()) [0..<c_n cfg] ()"

subsection \<open>The logs agree\<close>

definition logs_agree :: "'c config \<Rightarrow> bool" where
  "logs_agree c \<longleftrightarrow>
     (\<forall>i<length (c_logs c). \<forall>j<length (c_logs c). \<forall>idx v w.
        (c_logs c ! i) idx = Some v \<longrightarrow> (c_logs c ! j) idx = Some w \<longrightarrow> v = w)"

definition logs_contiguous :: "'c config \<Rightarrow> bool" where
  "logs_contiguous c \<longleftrightarrow>
     (\<forall>i<length (c_logs c). \<forall>idx>1. (c_logs c ! i) idx \<noteq> None \<longrightarrow> (c_logs c ! i) (idx - 1) \<noteq> None)"

definition logs_bounded :: "'c config \<Rightarrow> bool" where
  "logs_bounded c \<longleftrightarrow> (\<forall>i<length (c_logs c). \<forall>idx. (c_logs c ! i) idx \<noteq> None \<longrightarrow> idx \<le> c_maxIndex c)"

lemma fold_flag_None:
  "fold (\<lambda>j e. if P j then Some (f j) else e) xs e0 = None \<longleftrightarrow> e0 = None \<and> (\<forall>j\<in>set xs. \<not> P j)"
  by (induction xs arbitrary: e0) auto

lemma applier_msg_Inr:
  assumes "applier_msg i m c = Inr c'" and "CommandValid m"
  shows "i < length (c_logs c)" and "\<forall>j<length (c_logs c). \<not> log_mismatch (c_logs c) (CommandIndex m) (Command m) j"
    and "CommandIndex m > 1 \<longrightarrow> (c_logs c ! i) (CommandIndex m - 1) \<noteq> None"
    and "c' = c\<lparr>c_logs := (c_logs c)[i := (c_logs c ! i)(CommandIndex m \<mapsto> Command m)],
      c_maxIndex := max (CommandIndex m) (c_maxIndex c)\<rparr>"
proof -
  let ?idx = "CommandIndex m" and ?v = "Command m"
  let ?err = "fold (\<lambda>j e. if log_mismatch (c_logs c) ?idx ?v j
    then Some (CommitMismatch ?idx i ?v j (the ((c_logs c ! j) ?idx))) else e) [0..<length (c_logs c)] None"
  show i: "i < length (c_logs c)"
    using assms by (rule_tac ccontr) (simp add: applier_msg_def checkLogs_def Let_def)
  have *: "(if ?idx > 1 \<and> (c_logs c ! i) (?idx - 1) = None then Some (OutOfOrder i ?idx) else ?err) = None \<and>
      c' = c\<lparr>c_logs := (c_logs c)[i := (c_logs c ! i)(?idx \<mapsto> ?v)], c_maxIndex := (if ?idx > c_maxIndex c then ?idx else c_maxIndex c)\<rparr>"
    using assms i unfolding applier_msg_def checkLogs_def Let_def by (simp split: if_splits)
  then show "c' = c\<lparr>c_logs := (c_logs c)[i := (c_logs c ! i)(?idx \<mapsto> ?v)], c_maxIndex := max ?idx (c_maxIndex c)\<rparr>"
    by (simp add: max_def)
  have "?err = None" and "?idx > 1 \<longrightarrow> (c_logs c ! i) (?idx - 1) \<noteq> None" using * by (auto split: if_splits)
  then show "\<forall>j<length (c_logs c). \<not> log_mismatch (c_logs c) ?idx ?v j" and "?idx > 1 \<longrightarrow> (c_logs c ! i) (?idx - 1) \<noteq> None"
    unfolding fold_flag_None by auto
qed

lemma applier_msg_inv:
  assumes "applier_msg i m c = Inr c'" and "logs_agree c" and "logs_contiguous c" and "logs_bounded c"
  shows "logs_agree c' \<and> logs_contiguous c' \<and> logs_bounded c' \<and> length (c_logs c') = length (c_logs c) \<and>
    c_applyErr c' = c_applyErr c \<and> c_rafts c' = c_rafts c"
proof (cases "CommandValid m")
  case False
  then show ?thesis using assms by (simp add: applier_msg_def)
next
  case True
  note A = applier_msg_Inr [OF assms(1) True]
  have old: "w = Command m" if "j < length (c_logs c)" "(c_logs c ! j) (CommandIndex m) = Some w" for j w
    using A(2) that by (auto simp: log_mismatch_def)
  have "logs_agree c'" using assms(2) A(1) old unfolding A(4) logs_agree_def
    by (auto simp: nth_list_update split: if_splits)
  moreover have "logs_contiguous c'" using assms(3) A(1,3) unfolding A(4) logs_contiguous_def
    by (auto simp: nth_list_update split: if_splits)
  moreover have "logs_bounded c'" using assms(4) A(1) unfolding A(4) logs_bounded_def
    by (auto simp: nth_list_update le_max_iff_disj split: if_splits)
  ultimately show ?thesis by (simp add: A(4))
qed

subsection \<open>Counting commits\<close>

definition holders :: "int \<Rightarrow> 'c config \<Rightarrow> nat set" where
  "holders idx c = {i. i < length (c_rafts c) \<and> (c_logs c ! i) idx \<noteq> None}"

definition ncommit_step :: "'c config \<Rightarrow> int \<Rightarrow> nat \<Rightarrow> nat \<times> 'c iface \<Rightarrow> (nat \<times> 'c iface) go" where
  "ncommit_step cfg index = (\<lambda>i (count, cmd).
       go_bind (slice_get (c_applyErr cfg) (int i)) (\<lambda>e.
       if e \<noteq> None then Inl (TestFatal ''applyErr'')
       else go_bind (slice_get (c_logs cfg) (int i)) (\<lambda>log.
         case log index of
           None \<Rightarrow> Inr (count, cmd)
         | Some cmd1 \<Rightarrow>
             if count > 0 \<and> cmd \<noteq> cmd1 then Inl (TestFatal ''committed values do not match'')
             else Inr (count + 1, cmd1))))"

lemma nCommitted_sound:
  assumes "nCommitted idx c = Inr (cnt, cmd)"
  shows "cnt = card (holders idx c)" and "i \<in> holders idx c \<Longrightarrow> (c_logs c ! i) idx = Some cmd"
proof -
  have "go_fold (ncommit_step c idx) [0..<n] (0, None) = Inr (cnt, cmd) \<Longrightarrow>
      cnt = card {i. i < n \<and> (c_logs c ! i) idx \<noteq> None} \<and> (\<forall>i<n. \<forall>v. (c_logs c ! i) idx = Some v \<longrightarrow> v = cmd)" for n cnt cmd
  proof (induction n arbitrary: cnt cmd)
    case (Suc n)
    then obtain cnt0 cmd0 where p: "go_fold (ncommit_step c idx) [0..<n] (0, None) = Inr (cnt0, cmd0)"
        "ncommit_step c idx n (cnt0, cmd0) = Inr (cnt, cmd)"
      by (auto simp: go_bind_eq_Inr)
    note IH = Suc.IH [OF p(1)]
    have set: "{i. i < Suc n \<and> (c_logs c ! i) idx \<noteq> None} =
        (if (c_logs c ! n) idx = None then {i. i < n \<and> (c_logs c ! i) idx \<noteq> None} else insert n {i. i < n \<and> (c_logs c ! i) idx \<noteq> None})"
      by (auto simp: less_Suc_eq)
    have none: "cnt0 = 0 \<Longrightarrow> i < n \<Longrightarrow> (c_logs c ! i) idx = None" for i using IH by auto
    show ?case
    proof (cases "(c_logs c ! n) idx")
      case None
      then have "cnt = cnt0 \<and> cmd = cmd0" using p(2) by (auto simp: ncommit_step_def go_bind_eq_Inr split: if_splits)
      then show ?thesis using IH None unfolding set by (auto simp: less_Suc_eq)
    next
      case (Some v)
      then have r: "cnt = Suc cnt0" "cmd = v" "cnt0 > 0 \<longrightarrow> cmd0 = v"
        using p(2) by (auto simp: ncommit_step_def go_bind_eq_Inr split: if_splits)
      have "w = v" if "i < Suc n" "(c_logs c ! i) idx = Some w" for i w
      proof (cases "i = n")
        case False
        then have i: "i < n" using that by simp
        then have "cnt0 > 0" using none [OF _ i] that by (cases "cnt0 = 0") simp_all
        then show ?thesis using IH i that r(3) by blast
      qed (use Some that in simp)
      moreover have "card {i. i < Suc n \<and> (c_logs c ! i) idx \<noteq> None} = Suc cnt0"
        unfolding set using Some IH by simp
      ultimately show ?thesis using r(1,2) by simp
    qed
  qed simp
  from this [of "length (c_rafts c)" cnt cmd] assms
  show "cnt = card (holders idx c)" and "i \<in> holders idx c \<Longrightarrow> (c_logs c ! i) idx = Some cmd"
    by (auto simp: nCommitted_def ncommit_step_def holders_def)
qed

lemma nCommitted_succeeds:
  assumes "logs_agree c" and "length (c_rafts c) = length (c_logs c)" and "c_applyErr c = replicate (length (c_logs c)) None"
  shows "\<exists>r. nCommitted idx c = Inr r"
proof -
  have "n \<le> length (c_logs c) \<Longrightarrow> \<exists>cnt cmd. go_fold (ncommit_step c idx) [0..<n] (0, None) = Inr (cnt, cmd) \<and>
      (cnt > 0 \<longrightarrow> (\<exists>i<n. (c_logs c ! i) idx = Some cmd))" for n
  proof (induction n)
    case (Suc n)
    then obtain cnt cmd where IH: "go_fold (ncommit_step c idx) [0..<n] (0, None) = Inr (cnt, cmd)"
        "cnt > 0 \<longrightarrow> (\<exists>i<n. (c_logs c ! i) idx = Some cmd)" by auto
    have n: "n < length (c_logs c)" using Suc.prems by simp
    have "cmd = v" if "(c_logs c ! n) idx = Some v" "cnt > 0" for v
      using that IH(2) assms(1) n unfolding logs_agree_def by (meson less_trans)
    then have "\<exists>cnt' cmd'. ncommit_step c idx n (cnt, cmd) = Inr (cnt', cmd') \<and> (cnt' > 0 \<longrightarrow> (\<exists>i<Suc n. (c_logs c ! i) idx = Some cmd'))"
      using n assms(3) IH(2) by (cases "(c_logs c ! n) idx") (auto simp: ncommit_step_def less_Suc_eq)
    then show ?case using IH(1) by auto
  qed simp
  then show ?thesis using assms(2) unfolding nCommitted_def ncommit_step_def [symmetric] by (metis order_refl)
qed

subsection \<open>Leaders\<close>

definition claims :: "'c config \<Rightarrow> (nat \<Rightarrow> int \<times> bool) \<Rightarrow> nat set" where
  "claims c get = {i. i < c_n c \<and> c_connected c ! i \<and> snd (get i)}"

definition claimants :: "'c config \<Rightarrow> (nat \<Rightarrow> int \<times> bool) \<Rightarrow> int \<Rightarrow> nat list" where
  "claimants c get t = filter (\<lambda>i. i \<in> claims c get \<and> fst (get i) = t) [0..<c_n c]"

lemma leaders_of_eq: "leaders_of c get t = (if claimants c get t = [] then None else Some (claimants c get t))"
proof -
  let ?step = "\<lambda>i tab. if c_connected c ! i \<and> snd (get i)
    then tab(fst (get i) \<mapsto> (case tab (fst (get i)) of None \<Rightarrow> [] | Some is \<Rightarrow> is) @ [i]) else tab"
  let ?P = "\<lambda>t i. c_connected c ! i \<and> snd (get i) \<and> fst (get i) = t"
  have "fold ?step [0..<n] Map.empty t = (let is = filter (?P t) [0..<n] in if is = [] then None else Some is)" for n t
    by (induction n arbitrary: t) (auto simp: Let_def)
  moreover have "claimants c get t = filter (?P t) [0..<c_n c]"
    unfolding claimants_def by (rule filter_cong) (auto simp: claims_def)
  ultimately show ?thesis by (simp add: leaders_of_def Let_def)
qed

lemma set_claimants [simp]: "set (claimants c get t) = {i \<in> claims c get. fst (get i) = t}"
  by (auto simp: claimants_def claims_def)

lemma dom_leaders_of: "dom (leaders_of c get) = (\<lambda>i. fst (get i)) ` claims c get"
proof -
  have "claimants c get t \<noteq> [] \<longleftrightarrow> (\<exists>i\<in>claims c get. fst (get i) = t)" for t
    using set_claimants [of c get t] by (metis (mono_tags, lifting) empty_Collect_eq set_empty)
  then show ?thesis by (auto simp: domIff leaders_of_eq split: if_splits)
qed

lemma leaders_of_claim: "i \<in> claims c get \<Longrightarrow> leaders_of c get (fst (get i)) = Some (claimants c get (fst (get i)))"
proof -
  assume "i \<in> claims c get"
  then have "i \<in> set (claimants c get (fst (get i)))" by simp
  then have "claimants c get (fst (get i)) \<noteq> []" by (metis list.distinct(1) list.set_cases)
  then show ?thesis by (simp add: leaders_of_eq)
qed

lemma length_claimants: "length (claimants c get t) = card {i \<in> claims c get. fst (get i) = t}"
proof -
  have "distinct (claimants c get t)" by (simp add: claimants_def)
  from distinct_card [OF this] show ?thesis by simp
qed

lemma finite_claims [simp]: "finite (claims c get)"
  by (rule finite_subset [of _ "{..<c_n c}"]) (auto simp: claims_def)

lemma max_term_fold:
  assumes "\<forall>t\<in>set ts. length (the (tab t)) \<le> 1"
  shows "go_fold (\<lambda>term lastTerm. if length (the (tab term)) > 1 then Inl e
      else Inr (if term > lastTerm then term else lastTerm)) ts (l :: int) = Inr (Max (set (l # ts)))"
  using assms
proof (induction ts arbitrary: l)
  case (Cons t ts)
  have "Max (set (l # t # ts)) = Max (set ((if t > l then t else l) # ts))"
    by (cases "ts = []") (auto simp: max_def)
  with Cons show ?case by simp
qed simp

lemma term_fold_fails:
  assumes "t \<in> set ts" and "length (the (tab t)) > 1"
  shows "go_fold (\<lambda>term lastTerm. if length (the (tab term)) > 1 then Inl e
      else Inr (if term > lastTerm then term else lastTerm)) ts (l :: int) = Inl e"
  using assms
proof (induction ts arbitrary: l)
  case (Cons a ts)
  then show ?case by (cases "length (the (tab a)) > 1") auto
qed simp

text \<open>A round in which nobody claims to be leader, in which two servers claim the same term, and in which the claims differ.\<close>

lemma leader_round_none:
  assumes "set (order (leaders_of c (get k))) = dom (leaders_of c (get k))" and "claims c (get k) = {}"
  shows "leader_rounds order c get (Suc left) k = leader_rounds order c get left (Suc k)"
  using assms by (simp add: dom_leaders_of)

lemma leader_round_conflict:
  assumes order: "set (order (leaders_of c (get k))) = dom (leaders_of c (get k))"
    and "\<not> inj_on (\<lambda>i. fst (get k i)) (claims c (get k))"
  shows "leader_rounds order c get (Suc left) k = Inl (TestFatal ''term has more than one leader'')"
proof -
  let ?T = "\<lambda>i. fst (get k i)"
  obtain i j where ij: "i \<in> claims c (get k)" "j \<in> claims c (get k)" "i \<noteq> j" "?T i = ?T j"
    using assms(2) by (auto simp: inj_on_def)
  have "card {i, j} \<le> card {x \<in> claims c (get k). ?T x = ?T i}" using ij by (intro card_mono) auto
  then have len: "length (the (leaders_of c (get k) (?T i))) > 1"
    using ij by (simp add: leaders_of_claim length_claimants)
  have mem: "?T i \<in> set (order (leaders_of c (get k)))" using order ij(1) by (simp add: dom_leaders_of)
  show ?thesis unfolding leader_rounds.simps Let_def term_fold_fails [of "?T i" _ "leaders_of c (get k)", OF mem len] go_bind_Inl ..
qed

lemma leader_round_found:
  assumes order: "set (order (leaders_of c (get k))) = dom (leaders_of c (get k))"
    and pos: "\<And>i. i < c_n c \<Longrightarrow> 0 \<le> fst (get k i)"
    and inj: "inj_on (\<lambda>i. fst (get k i)) (claims c (get k))"
    and l: "l \<in> claims c (get k)" "\<forall>i\<in>claims c (get k). fst (get k i) \<le> fst (get k l)"
  shows "leader_rounds order c get (Suc left) k = Inr l"
proof -
  let ?T = "\<lambda>i. fst (get k i)" and ?C = "claims c (get k)"
  have single: "claimants c (get k) (?T i) = [i]" if "i \<in> ?C" for i
  proof -
    have eq: "{x \<in> ?C. ?T x = ?T i} = {i}" using inj that by (auto dest: inj_onD)
    then have "length (claimants c (get k) (?T i)) = 1" by (simp add: length_claimants)
    moreover have "set (claimants c (get k) (?T i)) = {i}" using eq by simp
    ultimately show ?thesis by (metis One_nat_def length_0_conv length_Suc_conv list.set_intros(1) singletonD)
  qed
  have le: "\<forall>t\<in>set (order (leaders_of c (get k))). length (the (leaders_of c (get k) t)) \<le> 1"
    using order single by (auto simp: dom_leaders_of leaders_of_claim)
  have mx: "Max (set (-1 # order (leaders_of c (get k)))) = ?T l"
    using l order pos [of l] by (intro Max_eqI) (auto simp: dom_leaders_of claims_def)
  have ne: "order (leaders_of c (get k)) \<noteq> []" using order l(1) by (auto simp: dom_leaders_of)
  show ?thesis unfolding leader_rounds.simps Let_def max_term_fold [OF le] go_bind_Inr mx
    using ne single [OF l(1)] leaders_of_claim [OF l(1)] by (simp add: slice_get_def)
qed

definition sole_leader :: "'c config \<Rightarrow> (nat \<Rightarrow> int \<times> bool) \<Rightarrow> nat \<Rightarrow> bool" where
  "sole_leader c get l \<longleftrightarrow> inj_on (\<lambda>i. fst (get i)) (claims c get) \<and> l \<in> claims c get \<and>
     (\<forall>i\<in>claims c get. fst (get i) \<le> fst (get l))"

lemma leader_round_some:
  assumes order: "set (order (leaders_of c (get k))) = dom (leaders_of c (get k))"
    and pos: "\<And>i. i < c_n c \<Longrightarrow> 0 \<le> fst (get k i)" and ne: "claims c (get k) \<noteq> {}"
  shows "(\<exists>m. leader_rounds order c get (Suc left) k = Inr m \<and> (\<forall>l. sole_leader c (get k) l \<longleftrightarrow> l = m)) \<or>
    leader_rounds order c get (Suc left) k = Inl (TestFatal ''term has more than one leader'') \<and> (\<forall>l. \<not> sole_leader c (get k) l)"
proof (cases "inj_on (\<lambda>i. fst (get k i)) (claims c (get k))")
  case True
  let ?C = "claims c (get k)" and ?T = "\<lambda>i. fst (get k i)"
  have "Max (?T ` ?C) \<in> ?T ` ?C" using ne by simp
  then obtain m where m: "m \<in> ?C" "?T m = Max (?T ` ?C)" by auto
  then have max: "\<forall>i\<in>?C. ?T i \<le> ?T m" by simp
  have "leader_rounds order c get (Suc left) k = Inr m"
    by (rule leader_round_found [of order c get k m, OF order pos True m(1) max])
  moreover have "sole_leader c (get k) l \<longleftrightarrow> l = m" for l
    using True m(1) max unfolding sole_leader_def by (metis inj_onD order.antisym)
  ultimately show ?thesis by blast
next
  case False
  then show ?thesis using leader_round_conflict [of order c get k, OF order False] by (simp add: sole_leader_def)
qed

lemma leader_rounds_spec:
  assumes order: "\<And>k. set (order (leaders_of c (get k))) = dom (leaders_of c (get k))"
    and pos: "\<And>k i. i < c_n c \<Longrightarrow> 0 \<le> fst (get k i)"
  shows "(leader_rounds order c get left k = Inr l \<longleftrightarrow>
     (\<exists>r<left. (\<forall>r'<r. claims c (get (k + r')) = {}) \<and> sole_leader c (get (k + r)) l)) \<and>
    (\<forall>p. leader_rounds order c get left k = Inl p \<longrightarrow> (\<exists>msg. p = TestFatal msg))"
proof (induction left arbitrary: k)
  case (Suc left)
  have nolead: "claims c (get k) = {} \<Longrightarrow> \<not> sole_leader c (get k) l" by (simp add: sole_leader_def)
  show ?case
  proof (cases "claims c (get k) = {}")
    case True
    then show ?thesis
      using Suc.IH [of "Suc k"] leader_round_none [of order c get k, OF order True, of left] nolead
      by (simp only: Ex_less_Suc2 All_less_Suc2) simp
  next
    case False
    have "(\<exists>r<Suc left. (\<forall>r'<r. claims c (get (k + r')) = {}) \<and> sole_leader c (get (k + r)) l) \<longleftrightarrow> sole_leader c (get k) l"
      unfolding Ex_less_Suc2 All_less_Suc2 using False by simp
    then show ?thesis
      using leader_round_some [of order c get k, OF order _ False, of left] pos by auto
  qed
qed simp

subsection \<open>Complete agreements and snapshots\<close>

lemma try_servers_found:
  "try_servers cfg st left starts = Inr (index, starts') \<Longrightarrow> index \<noteq> -1 \<Longrightarrow>
   \<exists>s t. s < length (c_connected cfg) \<and> c_connected cfg ! s \<and> c_rafts cfg ! s \<noteq> None \<and> st s = (index, t, True)"
proof (induction left arbitrary: starts)
  case (Suc left)
  let ?s = "(starts + 1) mod c_n cfg"
  show ?case
  proof (cases "?s < length (c_connected cfg) \<and> c_connected cfg ! ?s \<and> ?s < length (c_rafts cfg) \<and> c_rafts cfg ! ?s \<noteq> None \<and> snd (snd (st ?s))")
    case True
    then show ?thesis using Suc.prems by (cases "st ?s") (auto simp: Let_def)
  next
    case False
    then have "try_servers cfg st left ?s = Inr (index, starts')"
      using Suc.prems(1) by (cases "st ?s") (auto simp: Let_def go_bind_eq_Inr split: if_splits option.splits)
    from Suc.IH [OF this Suc.prems(2)] show ?thesis .
  qed
qed simp

lemma poll_agreement_found:
  "poll_agreement cmd ex index cs = Inr True \<Longrightarrow>
   \<exists>c\<in>set cs. holders index c \<noteq> {} \<and> ex \<le> card (holders index c) \<and> (\<forall>i\<in>holders index c. (c_logs c ! i) index = Some cmd)"
proof (induction cs)
  case (Cons c cs)
  obtain nd cmd1 where n: "nCommitted index c = Inr (nd, cmd1)" using Cons.prems by (cases "nCommitted index c") auto
  show ?case
  proof (cases "nd > 0 \<and> nd \<ge> ex \<and> cmd1 = cmd")
    case True
    then show ?thesis using nCommitted_sound [OF n] by fastforce
  next
    case False
    then show ?thesis using Cons n by auto
  qed
qed simp

lemma ingest_entries:
  "fold (\<lambda>j m. m(int j \<mapsto> xlog ! j)) [0..<n] Map.empty k = (if 0 \<le> k \<and> nat k < n then Some (xlog ! nat k) else None)"
  by (induction n) (auto simp: less_Suc_eq)

subsection \<open>Properties\<close>

text \<open>
  C14. Agreement: as long as the readers of the apply channels let a test go on, whatever the peers
  deliver and in whatever order, all servers' logs hold the same entry at every index, each log has
  no gap above index 1, no index exceeds \<open>maxIndex\<close>, and \<open>nCommitted\<close> never fails: it counts the
  servers that hold an entry and returns the entry they all hold.
\<close>

theorem applier_agreement:
  assumes "c_logs c0 = replicate n Map.empty" and "c_applyErr c0 = replicate n None" and "length (c_rafts c0) = n"
    and "go_fold (\<lambda>(i, m). applier_msg i m) ms c0 = Inr c"
  shows "logs_agree c \<and> logs_contiguous c \<and> logs_bounded c \<and>
    (\<forall>idx. \<exists>cnt cmd. nCommitted idx c = Inr (cnt, cmd) \<and> cnt = card (holders idx c) \<and>
       (\<forall>i\<in>holders idx c. (c_logs c ! i) idx = Some cmd))"
proof -
  let ?P = "\<lambda>c. logs_agree c \<and> logs_contiguous c \<and> logs_bounded c \<and> length (c_logs c) = n \<and>
    c_applyErr c = replicate n None \<and> length (c_rafts c) = n"
  have "?P c"
  proof (rule go_fold_invariant [OF assms(4), where P = ?P])
    show "?P c0" using assms(1-3) by (simp add: logs_agree_def logs_contiguous_def logs_bounded_def)
    show "?P s'" if "?P s" "(case x of (i, m) \<Rightarrow> applier_msg i m) s = Inr s'" for x s s'
      using applier_msg_inv [of "fst x" "snd x" s s'] that by (simp add: case_prod_beta)
  qed
  then show ?thesis using nCommitted_succeeds [of c] nCommitted_sound [of _ c] by (metis surj_pair)
qed

definition sample_msg :: "nat iface ApplyMsg" where
  "sample_msg = \<lparr>CommandValid = True, Command = Some 7, CommandIndex = 1, SnapshotValid = False, am_Snapshot = None,
     SnapshotTerm = 0, SnapshotIndex = 0\<rparr>"

theorem applier_agreement_witness:
  "\<exists>c. go_fold (\<lambda>(i, m). applier_msg i m) [(0, sample_msg), (1, sample_msg)] (new_config 0 2) = Inr c \<and> logs_agree c"
proof -
  let ?c = "(new_config 0 2 :: nat config)\<lparr>c_logs := [[1 \<mapsto> Some 7], [1 \<mapsto> Some 7]], c_maxIndex := 1\<rparr>"
  have "go_fold (\<lambda>(i, m). applier_msg i m) [(0, sample_msg), (1, sample_msg)] (new_config 0 2) = Inr ?c"
    by (simp add: applier_msg_def checkLogs_def sample_msg_def new_config_def log_mismatch_def Let_def numeral_2_eq_2 slice_get_def)
  with applier_agreement [OF _ _ _ this, of 2] show ?thesis by (simp add: new_config_def)
qed



text \<open>
  C17. A complete agreement: when \<open>one\<close> returns an index, some round found a connected server whose
  \<open>Start\<close> gave that index, and at some later look at the logs at least the expected number of servers,
  and at least one, held exactly the submitted command at that index, and none a different one.
\<close>

theorem one_means_agreement:
  assumes "one cmd expectedServers retry starts finished rounds = Inr index" and "index \<noteq> -1"
  shows "\<exists>r\<in>set rounds.
    (\<exists>s t. c_connected (or_cfg r) ! s \<and> c_rafts (or_cfg r) ! s \<noteq> None \<and> or_start r s = (index, t, True)) \<and>
    (\<exists>c\<in>set (or_polls r). holders index c \<noteq> {} \<and> expectedServers \<le> card (holders index c) \<and>
       (\<forall>i\<in>holders index c. (c_logs c ! i) index = Some cmd))"
  using assms
proof (induction rounds arbitrary: starts)
  case (Cons r rs)
  have nf: "\<not> or_finished r" using Cons.prems by (auto split: if_splits)
  then obtain index1 starts' where t: "try_servers (or_cfg r) (or_start r) (c_n (or_cfg r)) starts = Inr (index1, starts')"
    using Cons.prems by (auto simp: go_bind_eq_Inr)
  show ?case
  proof (cases "index1 \<noteq> -1 \<and> poll_agreement cmd expectedServers index1 (or_polls r) = Inr True")
    case True
    then have "index = index1" using Cons.prems nf t by simp
    then show ?thesis
      using try_servers_found [OF t] poll_agreement_found [of cmd expectedServers index1 "or_polls r"] True by (intro bexI [of _ r]) auto
  next
    case False
    then have "one cmd expectedServers retry starts' finished rs = Inr index"
      using Cons.prems nf t by (auto simp: go_bind_eq_Inr split: if_splits)
    from Cons.IH [OF this Cons.prems(2)] show ?thesis by auto
  qed
qed (simp split: if_splits)

definition sample_round :: "nat one_round" where
  "sample_round =
     (let c = (new_config 0 1)\<lparr>c_connected := [True], c_rafts := [Some 0]\<rparr>
      in \<lparr>or_finished = False, or_cfg = c, or_start = (\<lambda>_. (1, 1, True)), or_polls = [c\<lparr>c_logs := [[1 \<mapsto> Some 7]]\<rparr>]\<rparr>)"

theorem one_means_agreement_witness:
  "\<exists>c\<in>set (or_polls sample_round). 1 \<le> card (holders 1 c)"
proof -
  have "one (Some 7) 1 True 0 False [sample_round] = Inr 1"
    by (simp add: sample_round_def new_config_def nCommitted_def slice_get_def Let_def)
  from one_means_agreement [OF this] show ?thesis by auto
qed

text \<open>
  C39. Snapshots of the log, given an encoding that decodes to what was encoded: when \<open>applierSnap\<close>
  hands a snapshot to its peer after applying entry \<open>idx\<close>, a server that later installs this snapshot
  has exactly the entries \<open>0\<close> to \<open>idx\<close> in its log, equal to the entries of the server that made it,
  and continues after \<open>idx\<close>; a snapshot is made exactly at every tenth index.
\<close>

theorem snapshot_install:
  assumes codec: "\<And>i xs. dec (enc i xs) = Some (i, xs)"
    and "applierSnap_msg enc dec rf i m c = Inr (c1, snap)" and "CommandValid m" and "\<not> SnapshotValid m"
    and "0 \<le> CommandIndex m" and "j < length (c_logs d)" and "j < length (c_lastApplied d)"
  shows "(snap \<noteq> None \<longleftrightarrow> (CommandIndex m + 1) mod 10 = 0) \<and>
    (\<forall>bs. snap = Some bs \<longrightarrow> (\<exists>d'. ingestSnap dec j (Some bs) (CommandIndex m) d = Inr (None, d') \<and>
       c_lastApplied d' ! j = CommandIndex m \<and>
       (\<forall>k. 1 \<le> k \<and> k \<le> CommandIndex m \<and> (c_logs c1 ! i) k \<noteq> None \<longrightarrow> (c_logs d' ! j) k = (c_logs c1 ! i) k) \<and>
       dom (c_logs d' ! j) = {0..CommandIndex m}))"
proof -
  let ?idx = "CommandIndex m"
  from assms(2-4) have snap: "snap = (if (?idx + 1) mod 10 = 0 then Some (enc ?idx (snapshot_entries (c_logs c1 ! i) ?idx)) else None)"
    unfolding applierSnap_msg_def Let_def go_bind_eq_Inr SnapShotInterval_def
    by (auto simp: go_bind_eq_Inr split: if_splits option.splits)
  have "\<exists>d'. ingestSnap dec j (Some bs) ?idx d = Inr (None, d') \<and> c_lastApplied d' ! j = ?idx \<and>
       (\<forall>k. 1 \<le> k \<and> k \<le> ?idx \<and> (c_logs c1 ! i) k \<noteq> None \<longrightarrow> (c_logs d' ! j) k = (c_logs c1 ! i) k) \<and>
       dom (c_logs d' ! j) = {0..?idx}" if "snap = Some bs" for bs
  proof -
    let ?xs = "snapshot_entries (c_logs c1 ! i) ?idx"
    have len: "length ?xs = nat (?idx + 1)" by (simp add: snapshot_entries_def)
    have bs: "dec bs = Some (?idx, ?xs)" using that snap codec by (auto split: if_splits)
    let ?log = "fold (\<lambda>j m. m(int j \<mapsto> ?xs ! j)) [0..<length ?xs] Map.empty"
    have log: "?log k = (if 0 \<le> k \<and> k \<le> ?idx then Some (case (c_logs c1 ! i) k of None \<Rightarrow> None | Some v \<Rightarrow> v) else None)" for k
      unfolding ingest_entries len using assms(5) by (auto simp: snapshot_entries_def)
    have "ingestSnap dec j (Some bs) ?idx d =
        Inr (None, d\<lparr>c_logs := (c_logs d)[j := ?log], c_lastApplied := (c_lastApplied d)[j := ?idx]\<rparr>)"
      using assms(6,7) by (simp add: ingestSnap_def bs)
    moreover have "dom ?log = {0..?idx}" by (auto simp: log domIff split: if_splits)
    ultimately show ?thesis using assms(6,7) by (auto simp: log)
  qed
  then show ?thesis by (simp add: snap)
qed

text \<open>A concrete encoding of snapshots whose entries are nil or a unit value.\<close>

definition unit_enc :: "int \<Rightarrow> unit iface list \<Rightarrow> string" where
  "unit_enc i xs = (if i < 0 then CHR ''-'' else CHR ''+'') # replicate (nat \<bar>i\<bar>) (CHR ''1'') @
     map (\<lambda>x. if x = None then CHR ''0'' else CHR ''x'') xs"

definition unit_dec :: "string \<Rightarrow> (int \<times> unit iface list) option" where
  "unit_dec s = (case s of [] \<Rightarrow> None | c # r \<Rightarrow>
     let k = int (length (takeWhile (\<lambda>x. x = CHR ''1'') r))
     in Some (if c = CHR ''-'' then - k else k,
          map (\<lambda>x. if x = CHR ''0'' then None else Some ()) (dropWhile (\<lambda>x. x = CHR ''1'') r)))"

lemma unit_codec: "unit_dec (unit_enc i xs) = Some (i, xs)"
proof -
  let ?f = "\<lambda>x :: unit iface. if x = None then CHR ''0'' else CHR ''x''"
  have t: "takeWhile (\<lambda>x. x = CHR ''1'') (map ?f xs) = []" "dropWhile (\<lambda>x. x = CHR ''1'') (map ?f xs) = map ?f xs"
    by (cases xs; simp)+
  have "map (\<lambda>x. if x = CHR ''0'' then None else Some ()) (map ?f xs) = xs" by (induction xs) auto
  then show ?thesis by (simp add: unit_enc_def unit_dec_def Let_def takeWhile_append dropWhile_append t)
qed

definition snap_cfg :: "unit config" where
  "snap_cfg = (new_config 0 2)\<lparr>c_lastApplied := [8, 0], c_logs := [[8 \<mapsto> Some ()], Map.empty], h_rafts := [Make [] 0 0 MakePersister]\<rparr>"

definition snap_msg :: "unit iface ApplyMsg" where
  "snap_msg = \<lparr>CommandValid = True, Command = Some (), CommandIndex = 9, SnapshotValid = False, am_Snapshot = None,
     SnapshotTerm = 0, SnapshotIndex = 0\<rparr>"

theorem snapshot_install_witness:
  "\<exists>c1 bs d'. applierSnap_msg unit_enc unit_dec 0 0 snap_msg snap_cfg = Inr (c1, Some bs) \<and>
     ingestSnap unit_dec 1 (Some bs) 9 snap_cfg = Inr (None, d') \<and> dom (c_logs d' ! 1) = {0..9}"
proof -
  have "\<exists>r. applierSnap_msg unit_enc unit_dec 0 0 snap_msg snap_cfg = Inr r"
    by (simp add: applierSnap_msg_def checkLogs_def snap_cfg_def snap_msg_def new_config_def log_mismatch_def Let_def numeral_2_eq_2
        slice_get_def slice_set_def)
  then obtain c1 snap where r: "applierSnap_msg unit_enc unit_dec 0 0 snap_msg snap_cfg = Inr (c1, snap)" by auto
  have "snap \<noteq> None \<and> (\<forall>bs. snap = Some bs \<longrightarrow> (\<exists>d'. ingestSnap unit_dec 1 (Some bs) 9 snap_cfg = Inr (None, d') \<and> dom (c_logs d' ! 1) = {0..9}))"
    using snapshot_install [of unit_dec unit_enc 0 0 snap_msg snap_cfg c1 snap 1 snap_cfg, OF unit_codec r]
    by (simp add: snap_cfg_def snap_msg_def) blast
  with r show ?thesis by blast
qed

end
