(* ===== verification/Random_Names.thy ===== *)
theory Random_Names
  imports Harness
begin

text \<open>
  The random names and seeds of the harnesses (\<open>randstring\<close> and \<open>makeSeed\<close> of \<open>raft/config.go\<close>, repeated in the other
  packages), with the URL variant of base64 from the standard library. The bytes that \<open>crypto/rand\<close> delivers
  are an argument. Ends of the network are registered under such names, and a name that is registered
  twice ends the process, so what matters is when two names are equal.
\<close>

subsection \<open>Base64\<close>

definition url_alphabet :: string where
  "url_alphabet = ''ABCDEFGHIJKLMNOPQRSTUVWXYZabcdefghijklmnopqrstuvwxyz0123456789-_''"

definition b64_char :: "nat \<Rightarrow> char" where
  "b64_char i = url_alphabet ! (i mod 64)"

text \<open>Three bytes give four characters; a rest of one or two bytes is padded.\<close>

fun EncodeToString :: "8 word list \<Rightarrow> string" where
  "EncodeToString [] = []"
| "EncodeToString [a] = [b64_char (unat a div 4), b64_char (unat a mod 4 * 16), CHR ''='', CHR ''='']"
| "EncodeToString [a, b] =
     [b64_char (unat a div 4), b64_char (unat a mod 4 * 16 + unat b div 16), b64_char (unat b mod 16 * 4), CHR ''='']"
| "EncodeToString (a # b # c # bs) =
     b64_char (unat a div 4) # b64_char (unat a mod 4 * 16 + unat b div 16) #
     b64_char (unat b mod 16 * 4 + unat c div 64) # b64_char (unat c mod 64) # EncodeToString bs"

subsection \<open>Names and seeds\<close>

text \<open>\<open>rd m\<close> is what \<open>crand.Read\<close> writes into a buffer of \<open>m\<close> bytes, \<open>randInt max\<close> what \<open>crand.Int\<close> returns.\<close>

definition randstring :: "(nat \<Rightarrow> 8 word list) \<Rightarrow> nat \<Rightarrow> string" where
  "randstring rd n = (let b = rd (2 * n); s = EncodeToString b in take n s)"

definition makeSeed :: "(int \<Rightarrow> int) \<Rightarrow> 64 word" where
  "makeSeed randInt = (let max = 2 ^ 62; bigx = randInt max in word_of_int bigx)"

text \<open>A seed is never negative: the draw fits into 64 bits.\<close>

lemma makeSeed_range:
  assumes "0 \<le> randInt (2 ^ 62)" and "randInt (2 ^ 62) < 2 ^ 62"
  shows "sint (makeSeed randInt) = randInt (2 ^ 62)"
proof -
  have "randInt (2 ^ 62) < 2 ^ (LENGTH(64) - 1)" using assms(2) by simp
  moreover have "- (2 ^ (LENGTH(64) - 1)) \<le> randInt (2 ^ 62)" using assms(1) by simp
  ultimately show ?thesis by (simp only: makeSeed_def Let_def sint_sbintrunc' signed_take_bit_int_eq_self)
qed

subsection \<open>When two encodings agree\<close>

lemma alphabet_distinct: "distinct url_alphabet" and alphabet_length: "length url_alphabet = 64"
  by (simp_all add: url_alphabet_def)

lemma b64_char_inject: "i < 64 \<Longrightarrow> j < 64 \<Longrightarrow> b64_char i = b64_char j \<longleftrightarrow> i = j"
  using nth_eq_iff_index_eq [OF alphabet_distinct] by (simp add: b64_char_def alphabet_length)

lemma b64_char_alphabet: "b64_char i \<in> set url_alphabet"
  by (simp add: b64_char_def alphabet_length)

lemma byte_bound: "unat (a :: 8 word) < 256"
  using unsigned_less [of a, where 'a = nat] by simp

text \<open>The four characters of three bytes determine them.\<close>

lemma two_digits:
  fixes x y d e m :: nat
  assumes "x * m + d = y * m + e" and "d < m" and "e < m"
  shows "x = y \<and> d = e"
proof -
  have "(x * m + d) div m = (y * m + e) div m" "(x * m + d) mod m = (y * m + e) mod m" using assms(1) by simp_all
  then show ?thesis using assms(2,3) by simp
qed

lemma same_div_mod: "(x :: nat) div m = y div m \<Longrightarrow> x mod m = y mod m \<Longrightarrow> x = y"
  by (metis div_mult_mod_eq)

lemma sextets_determine:
  fixes a b c a' b' c' :: nat
  assumes "a div 4 = a' div 4" and "a mod 4 * 16 + b div 16 = a' mod 4 * 16 + b' div 16"
    and "b mod 16 * 4 + c div 64 = b' mod 16 * 4 + c' div 64" and "c mod 64 = c' mod 64"
    and "b < 256" "b' < 256" "c < 256" "c' < 256"
  shows "a = a' \<and> b = b' \<and> c = c'"
proof -
  have d: "b div 16 < 16" "b' div 16 < 16" "c div 64 < 4" "c' div 64 < 4"
    using assms(5-8) less_mult_imp_div_less [of _ 16 16] less_mult_imp_div_less [of _ 4 64] by simp_all
  have "a mod 4 = a' mod 4 \<and> b div 16 = b' div 16" by (rule two_digits [OF assms(2) d(1,2)])
  moreover have "b mod 16 = b' mod 16 \<and> c div 64 = c' div 64" by (rule two_digits [OF assms(3) d(3,4)])
  ultimately show ?thesis using assms(1,4) same_div_mod by blast
qed

lemma sextet_bounds:
  fixes a b :: "8 word"
  shows "unat a div 4 < 64" "unat a mod 4 * 16 + unat b div 16 < 64" "unat a mod 16 * 4 + unat b div 64 < 64"
proof -
  show "unat a div 4 < 64" using less_mult_imp_div_less [of "unat a" 64 4] byte_bound [of a] by simp
  have "unat a mod 4 \<le> 3" "unat b div 16 \<le> 15" "unat a mod 16 \<le> 15" "unat b div 64 \<le> 3"
    using less_mult_imp_div_less [of "unat b" 16 16] less_mult_imp_div_less [of "unat b" 4 64] byte_bound [of b]
      mod_less_divisor [of 4 "unat a"] mod_less_divisor [of 16 "unat a"] by simp_all
  then show "unat a mod 4 * 16 + unat b div 16 < 64" "unat a mod 16 * 4 + unat b div 64 < 64" by simp_all
qed

lemma EncodeToString_triple_inject:
  "EncodeToString (a # b # c # bs) = EncodeToString (a' # b' # c' # bs') \<longleftrightarrow>
     a = a' \<and> b = b' \<and> c = c' \<and> EncodeToString bs = EncodeToString bs'"
proof -
  have "a = a' \<and> b = b' \<and> c = c'"
    if "unat a div 4 = unat a' div 4" "unat a mod 4 * 16 + unat b div 16 = unat a' mod 4 * 16 + unat b' div 16"
      "unat b mod 16 * 4 + unat c div 64 = unat b' mod 16 * 4 + unat c' div 64" "unat c mod 64 = unat c' mod 64"
    using sextets_determine [OF that byte_bound byte_bound byte_bound byte_bound] word_unat_eq_iff by blast
  then show ?thesis by (auto simp: b64_char_inject sextet_bounds)
qed

text \<open>The first \<open>4 k\<close> characters are the encoding of the first \<open>3 k\<close> bytes.\<close>

lemma take_EncodeToString:
  "3 * k \<le> length bs \<Longrightarrow> take (4 * k) (EncodeToString bs) = EncodeToString (take (3 * k) bs)"
proof (induction k arbitrary: bs)
  case (Suc k)
  then obtain a b c bs' where bs: "bs = a # b # c # bs'" by (auto simp: Suc_le_length_iff numeral_3_eq_3)
  have k: "4 * Suc k = Suc (Suc (Suc (Suc (4 * k))))" "3 * Suc k = Suc (Suc (Suc (3 * k)))" by simp_all
  have "take (4 * k) (EncodeToString bs') = EncodeToString (take (3 * k) bs')" using Suc.IH [of bs'] Suc.prems by (simp add: bs)
  then show ?case unfolding k bs by simp
qed simp

lemma EncodeToString_inject:
  "length bs = 3 * k \<Longrightarrow> length bs' = 3 * k \<Longrightarrow> EncodeToString bs = EncodeToString bs' \<longleftrightarrow> bs = bs'"
proof (induction k arbitrary: bs bs')
  case (Suc k)
  then obtain a b c cs a' b' c' cs' where bs: "bs = a # b # c # cs" "bs' = a' # b' # c' # cs'"
    by (auto simp: length_Suc_conv numeral_3_eq_3)
  then show ?case using Suc.IH [of cs cs'] Suc.prems EncodeToString_triple_inject [of a b c cs a' b' c' cs'] by simp
qed simp

lemma EncodeToString_shape:
  "length bs = 3 * k \<Longrightarrow> length (EncodeToString bs) = 4 * k \<and> set (EncodeToString bs) \<subseteq> set url_alphabet"
proof (induction k arbitrary: bs)
  case (Suc k)
  then obtain a b c cs where bs: "bs = a # b # c # cs" by (auto simp: length_Suc_conv numeral_3_eq_3)
  then show ?case using Suc.IH [of cs] Suc.prems by (simp add: b64_char_alphabet)
qed simp

text \<open>Names of \<open>4 k\<close> characters: their shape, and when two of them are equal.\<close>

lemma randstring_shape:
  "length (rd (2 * (4 * k))) = 2 * (4 * k) \<Longrightarrow> length (randstring rd (4 * k)) = 4 * k \<and> set (randstring rd (4 * k)) \<subseteq> set url_alphabet"
  using EncodeToString_shape [of "take (3 * k) (rd (2 * (4 * k)))" k] take_EncodeToString [of k "rd (2 * (4 * k))"]
  by (simp add: randstring_def)

lemma randstring_eq_iff:
  assumes "length (rd (2 * (4 * k))) = 2 * (4 * k)" and "length (rd' (2 * (4 * k))) = 2 * (4 * k)"
  shows "randstring rd (4 * k) = randstring rd' (4 * k) \<longleftrightarrow> take (3 * k) (rd (2 * (4 * k))) = take (3 * k) (rd' (2 * (4 * k)))"
  using assms EncodeToString_inject [of "take (3 * k) (rd (2 * (4 * k)))" k "take (3 * k) (rd' (2 * (4 * k)))"]
  by (simp add: randstring_def take_EncodeToString)

subsection \<open>Property\<close>

text \<open>
  C34. A row of ends named by \<open>randstring(20)\<close> can be made on a network exactly when the first fifteen
  random bytes of the names differ and none of the names is registered; otherwise \<open>MakeEnd\<close> ends the
  process. The names have twenty characters of the URL alphabet, and end \<open>j\<close> is connected to server
  \<open>j\<close> and switched off.
\<close>

theorem random_row_of_ends:
  assumes "\<And>j. length (rd j 40) = 40"
  shows "((\<exists>rn' es. fresh_ends (\<lambda>j. randstring (rd j) 20) n rn = Inr (rn', es)) \<longleftrightarrow>
      inj_on (\<lambda>j. take 15 (rd j 40)) {..<n} \<and> (\<forall>j<n. ends rn (randstring (rd j) 20) = None)) \<and>
    (\<forall>j. length (randstring (rd j) 20) = 20 \<and> set (randstring (rd j) 20) \<subseteq> set url_alphabet) \<and>
    (\<forall>rn' es j. fresh_ends (\<lambda>j. randstring (rd j) 20) n rn = Inr (rn', es) \<and> j < n \<longrightarrow>
      connections rn' (randstring (rd j) 20) = Some (int j) \<and> enabled rn' (randstring (rd j) 20) = False)"
proof -
  let ?name = "\<lambda>j. randstring (rd j) 20"
  have "?name i = ?name j \<longleftrightarrow> take 15 (rd i 40) = take 15 (rd j 40)" for i j
    using randstring_eq_iff [of "rd i" 5 "rd j"] assms by simp
  then have inj: "inj_on ?name {..<n} \<longleftrightarrow> inj_on (\<lambda>j. take 15 (rd j 40)) {..<n}" by (simp add: inj_on_def)
  have "(\<exists>rn' es. fresh_ends ?name n rn = Inr (rn', es)) \<longleftrightarrow> inj_on ?name {..<n} \<and> (\<forall>j<n. ends rn (?name j) = None)"
    using fresh_ends_ok [of ?name n rn] fresh_ends_facts [of ?name n rn] by blast
  moreover have "length (?name j) = 20 \<and> set (?name j) \<subseteq> set url_alphabet" for j
    using randstring_shape [of "rd j" 5] assms by simp
  moreover have "connections rn' (?name j) = Some (int j) \<and> enabled rn' (?name j) = False"
    if "fresh_ends ?name n rn = Inr (rn', es)" "j < n" for rn' es j
    using fresh_ends_facts [OF that(1)] that(2) by blast
  ultimately show ?thesis using inj by blast
qed

text \<open>Two names from equal bytes on an empty network.\<close>

theorem random_row_of_ends_witness:
  "\<not> (\<exists>rn' es. fresh_ends (\<lambda>j. randstring (\<lambda>m. replicate m 7) 20) 2 MakeNetwork = Inr (rn', es)) \<and>
   (\<exists>rn' es. fresh_ends (\<lambda>j. randstring (\<lambda>m. replicate m (of_nat j)) 20) 2 MakeNetwork = Inr (rn', es))"
proof
  have "\<not> inj_on (\<lambda>j :: nat. take 15 (replicate 40 (7 :: 8 word))) {..<2}" by (simp add: inj_on_def lessThan_Suc numeral_2_eq_2)
  then show "\<not> (\<exists>rn' es. fresh_ends (\<lambda>j. randstring (\<lambda>m. replicate m 7) 20) 2 MakeNetwork = Inr (rn', es))"
    using random_row_of_ends [of "\<lambda>j m. replicate m 7" 2 MakeNetwork] by simp
  have "inj_on (\<lambda>j :: nat. take 15 (replicate 40 (of_nat j :: 8 word))) {..<2}" by (auto simp: inj_on_def less_Suc_eq numeral_2_eq_2)
  moreover have "ends (MakeNetwork :: (string, int) Network) e = None" for e by (simp add: MakeNetwork_def)
  ultimately show "\<exists>rn' es. fresh_ends (\<lambda>j. randstring (\<lambda>m. replicate m (of_nat j)) 20) 2 MakeNetwork = Inr (rn', es)"
    using random_row_of_ends [of "\<lambda>j m. replicate m (of_nat j)" 2 MakeNetwork] by simp
qed

end
