(* ===== verification/Cluster.thy ===== *)
theory Cluster
  imports Harness Shard_Clients
begin

text \<open>
  What the test harnesses of \<open>kvraft\<close> and \<open>shardctrler\<close> have in common, with the server type as a type
  variable: the fields of \<open>config\<close>, connecting, disconnecting and partitioning servers, the ends of
  clients, looking for a leader and dealing the servers into two groups. The two packages repeat this
  code word for word; the definitions are placed in \<open>kvraft/config.go\<close>, and \<open>Ctrler_Config\<close> names the
  operations of \<open>shardctrler/config.go\<close>.
\<close>

subsection \<open>State\<close>

record 's cluster =
  k_net :: "(string, int) Network"
  k_n :: nat
  k_servers :: "'s option list"
  k_saved :: "nat option list"
  k_endnames :: endtable
  k_clerks :: "nat \<rightharpoonup> string list"
  k_nextClientId :: int
  k_start :: int
  kh_persisters :: "Persister list"
  kh_rafts :: "Raft list"
  kh_servers :: "Raft list Server list"

definition cluster_checkTimeout :: "bool \<Rightarrow> int \<Rightarrow> ('s, 'z) cluster_scheme \<Rightarrow> unit go" where
  "cluster_checkTimeout failed now cfg =
     (if \<not> failed \<and> now - k_start cfg > 120000 then Inl (TestFatal ''test took longer than 120 seconds'') else Inr ())"

text \<open>\<open>LogSize\<close> and \<open>SnapshotSize\<close>: the largest size over all persisters.\<close>

definition max_size :: "(Persister \<Rightarrow> nat) \<Rightarrow> ('s, 'z) cluster_scheme \<Rightarrow> nat go" where
  "max_size size_of cfg =
     go_fold (\<lambda>i m. go_bind (slice_get (k_saved cfg) (int i)) (\<lambda>s. case s of
         None \<Rightarrow> Inl NilDereference
       | Some a \<Rightarrow> let k = size_of (kh_persisters cfg ! a) in Inr (if k > m then k else m))) [0..<k_n cfg] 0"

definition cluster_LogSize :: "('s, 'z) cluster_scheme \<Rightarrow> nat go" where
  "cluster_LogSize = max_size RaftStateSize"

subsection \<open>Connecting servers\<close>

definition connectUnlocked :: "nat \<Rightarrow> nat list \<Rightarrow> ('s, 'z) cluster_scheme \<Rightarrow> ('s, 'z) cluster_scheme go" where
  "connectUnlocked i tos cfg =
     go_bind (set_ends Enable True (\<lambda>_. Inr True) (\<lambda>j. endname_at (k_endnames cfg) i (tos ! j)) [0..<length tos] (k_net cfg)) (\<lambda>rn1.
     go_bind (set_ends Enable True (\<lambda>_. Inr True) (\<lambda>j. endname_at (k_endnames cfg) (tos ! j) i) [0..<length tos] rn1) (\<lambda>rn2.
     Inr (cfg\<lparr>k_net := rn2\<rparr>)))"

text \<open>The second guard reads row \<open>j\<close>, not row \<open>from[j]\<close>.\<close>

definition disconnectUnlocked :: "nat \<Rightarrow> nat list \<Rightarrow> ('s, 'z) cluster_scheme \<Rightarrow> ('s, 'z) cluster_scheme go" where
  "disconnectUnlocked i froms cfg =
     go_bind (set_ends Enable False (\<lambda>_. row_exists (k_endnames cfg) i) (\<lambda>j. endname_at (k_endnames cfg) i (froms ! j))
       [0..<length froms] (k_net cfg)) (\<lambda>rn1.
     go_bind (set_ends Enable False (\<lambda>j. row_exists (k_endnames cfg) j) (\<lambda>j. endname_at (k_endnames cfg) (froms ! j) i)
       [0..<length froms] rn1) (\<lambda>rn2.
     Inr (cfg\<lparr>k_net := rn2\<rparr>)))"

text \<open>\<open>connect\<close> and \<open>disconnect\<close> take the lock of the configuration around these.\<close>

definition cluster_connect :: "nat \<Rightarrow> nat list \<Rightarrow> ('s, 'z) cluster_scheme \<Rightarrow> ('s, 'z) cluster_scheme go" where
  "cluster_connect i tos cfg = connectUnlocked i tos cfg"

definition cluster_disconnect :: "nat \<Rightarrow> nat list \<Rightarrow> ('s, 'z) cluster_scheme \<Rightarrow> ('s, 'z) cluster_scheme go" where
  "cluster_disconnect i froms cfg = disconnectUnlocked i froms cfg"

definition All :: "('s, 'z) cluster_scheme \<Rightarrow> nat list" where
  "All cfg = [0..<k_n cfg]"

definition ConnectAll :: "('s, 'z) cluster_scheme \<Rightarrow> ('s, 'z) cluster_scheme go" where
  "ConnectAll cfg = go_fold (\<lambda>i c. connectUnlocked i (All c) c) [0..<k_n cfg] cfg"

definition split_from :: "nat list \<Rightarrow> nat list \<Rightarrow> nat list \<Rightarrow> ('s, 'z) cluster_scheme \<Rightarrow> ('s, 'z) cluster_scheme go" where
  "split_from ps qs =
     go_fold (\<lambda>i c. go_bind (disconnectUnlocked i qs c) (connectUnlocked i ps))"

definition cluster_partition :: "nat list \<Rightarrow> nat list \<Rightarrow> ('s, 'z) cluster_scheme \<Rightarrow> ('s, 'z) cluster_scheme go" where
  "cluster_partition p1 p2 cfg = go_bind (split_from p1 p2 p1 cfg) (split_from p2 p1 p2)"

text \<open>The loop of \<open>make_partition\<close> that deals the servers other than the leader \<open>l\<close>.\<close>

definition deal :: "nat \<Rightarrow> nat \<Rightarrow> nat list \<times> nat list \<times> nat \<Rightarrow> (nat list \<times> nat list \<times> nat) go" where
  "deal l i = (\<lambda>(p1, p2, j).
     if i \<noteq> l then
       if j < length p1 then go_bind (slice_set p1 (int j) i) (\<lambda>p1'. Inr (p1', p2, j + 1))
       else go_bind (slice_set p2 (int (j - length p1)) i) (\<lambda>p2'. Inr (p1, p2', j + 1))
     else Inr (p1, p2, j))"

definition deal_all :: "nat \<Rightarrow> nat \<Rightarrow> (nat list \<times> nat list) go" where
  "deal_all n l =
     (let p1 = replicate (n div 2 + 1) 0; p2 = replicate (n div 2) 0 in
      go_bind (go_fold (deal l) [0..<n] (p1, p2, 0)) (\<lambda>(p1, p2, _).
      go_bind (slice_set p2 (int (length p2) - 1) l) (\<lambda>p2'. Inr (p1, p2'))))"

subsection \<open>Clients\<close>

text \<open>\<open>random_handles\<close>: \<open>rnd i\<close> is what \<open>rand.Intn(i + 1)\<close> draws from.\<close>

definition swap_at :: "nat \<Rightarrow> nat \<Rightarrow> 'a list \<Rightarrow> 'a list" where
  "swap_at i j sa = sa[i := sa ! j, j := sa ! i]"

definition random_handles :: "(nat \<Rightarrow> nat) \<Rightarrow> 'a list \<Rightarrow> 'a list" where
  "random_handles rnd kvh = fold (\<lambda>i sa. swap_at i (rnd i mod (i + 1)) sa) [0..<length kvh] kvh"

definition ConnectClientUnlocked :: "nat \<Rightarrow> nat list \<Rightarrow> ('s, 'z) cluster_scheme \<Rightarrow> ('s, 'z) cluster_scheme go" where
  "ConnectClientUnlocked ck tos cfg =
     (let names = (case k_clerks cfg ck of None \<Rightarrow> [] | Some es \<Rightarrow> es) in
      go_bind (set_ends Enable True (\<lambda>_. Inr True) (\<lambda>j. slice_get names (int (tos ! j))) [0..<length tos] (k_net cfg)) (\<lambda>rn.
      Inr (cfg\<lparr>k_net := rn\<rparr>)))"

definition DisconnectClientUnlocked :: "nat \<Rightarrow> nat list \<Rightarrow> ('s, 'z) cluster_scheme \<Rightarrow> ('s, 'z) cluster_scheme go" where
  "DisconnectClientUnlocked ck froms cfg =
     (let names = (case k_clerks cfg ck of None \<Rightarrow> [] | Some es \<Rightarrow> es) in
      go_bind (set_ends Enable False (\<lambda>_. Inr True) (\<lambda>j. slice_get names (int (froms ! j))) [0..<length froms] (k_net cfg)) (\<lambda>rn.
      Inr (cfg\<lparr>k_net := rn\<rparr>)))"

definition ConnectClient :: "nat \<Rightarrow> nat list \<Rightarrow> ('s, 'z) cluster_scheme \<Rightarrow> ('s, 'z) cluster_scheme go" where
  "ConnectClient ck tos cfg = ConnectClientUnlocked ck tos cfg"

definition DisconnectClient :: "nat \<Rightarrow> nat list \<Rightarrow> ('s, 'z) cluster_scheme \<Rightarrow> ('s, 'z) cluster_scheme go" where
  "DisconnectClient ck froms cfg = DisconnectClientUnlocked ck froms cfg"

definition cluster_deleteClient :: "nat \<Rightarrow> ('s, 'z) cluster_scheme \<Rightarrow> ('s, 'z) cluster_scheme" where
  "cluster_deleteClient ck cfg = cfg\<lparr>k_clerks := (k_clerks cfg)(ck := None)\<rparr>"

definition cluster_copy_persister :: "nat \<Rightarrow> ('s, 'z) cluster_scheme \<Rightarrow> ('s, 'z) cluster_scheme go" where
  "cluster_copy_persister i cfg =
     go_bind (slice_get (k_saved cfg) (int i)) (\<lambda>s. case s of
       None \<Rightarrow> Inr cfg
     | Some a \<Rightarrow> Inr (cfg\<lparr>kh_persisters := kh_persisters cfg @ [Copy (kh_persisters cfg ! a)],
                        k_saved := (k_saved cfg)[i := Some (length (kh_persisters cfg))]\<rparr>))"

definition cluster_load_persister :: "nat \<Rightarrow> ('s, 'z) cluster_scheme \<Rightarrow> ('s, 'z) cluster_scheme go" where
  "cluster_load_persister i cfg =
     go_bind (slice_get (k_saved cfg) (int i)) (\<lambda>s. case s of
       Some _ \<Rightarrow> cluster_copy_persister i cfg
     | None \<Rightarrow> Inr (cfg\<lparr>kh_persisters := kh_persisters cfg @ [MakePersister],
                      k_saved := (k_saved cfg)[i := Some (length (kh_persisters cfg))]\<rparr>))"

subsection \<open>Wiring\<close>

definition rows_ok :: "endtable \<Rightarrow> nat \<Rightarrow> bool" where
  "rows_ok eds n \<longleftrightarrow> length eds = n \<and> (\<forall>i<n. \<exists>es. eds ! i = Some es \<and> length es = n)"

lemma rows_ok_name: "rows_ok eds n \<Longrightarrow> i < n \<Longrightarrow> j < n \<Longrightarrow> \<exists>e. endname_at eds i j = Inr e"
  by (auto simp: rows_ok_def endname_at_Inr)

lemma rows_ok_exists: "rows_ok eds n \<Longrightarrow> j < n \<Longrightarrow> row_exists eds j = Inr True"
  by (auto simp: rows_ok_def)

text \<open>The two loops of connecting or disconnecting server \<open>i\<close> and the servers in \<open>ps\<close>.\<close>

definition star_on :: "bool \<Rightarrow> nat \<Rightarrow> nat set \<Rightarrow> (nat \<Rightarrow> nat \<Rightarrow> bool) \<Rightarrow> nat \<Rightarrow> nat \<Rightarrow> bool" where
  "star_on b i S on p q = (if p = i \<and> q \<in> S \<or> q = i \<and> p \<in> S then b else on p q)"

lemma wired_star:
  assumes "wired eds on X rn" and "rows_ok eds n" and "i < n" and "set ps \<subseteq> {..<n}"
    and "\<And>j. j < length ps \<Longrightarrow> g1 j = Inr True" and "\<And>j. j < length ps \<Longrightarrow> g2 j = Inr True"
  shows "\<exists>rn'. go_bind (set_ends Enable b g1 (\<lambda>j. endname_at eds i (ps ! j)) [0..<length ps] rn)
      (set_ends Enable b g2 (\<lambda>j. endname_at eds (ps ! j) i) [0..<length ps]) = Inr rn' \<and> net_rest rn' = net_rest rn \<and>
    wired eds (star_on b i (set ps) on) X rn'"
proof -
  have name: "\<exists>e. endname_at eds i (ps ! j) = Inr e" "\<exists>e. endname_at eds (ps ! j) i = Inr e" if "j \<in> set [0..<length ps]" for j
  proof -
    have "j < length ps" using that by simp
    then have "ps ! j \<in> {..<n}" using subsetD [OF assms(4) nth_mem] by blast
    then show "\<exists>e. endname_at eds i (ps ! j) = Inr e" "\<exists>e. endname_at eds (ps ! j) i = Inr e"
      using rows_ok_name [OF assms(2)] assms(3) by simp_all
  qed
  obtain rn1 where 1: "set_ends Enable b g1 (\<lambda>j. endname_at eds i (ps ! j)) [0..<length ps] rn = Inr rn1" "net_rest rn1 = net_rest rn"
      "wired eds (\<lambda>p q. if \<exists>j\<in>set [0..<length ps]. True \<and> p = i \<and> q = ps ! j then b else on p q) X rn1"
    using wired_set_ends [OF assms(1), of "[0..<length ps]" g1 "\<lambda>_. True" "\<lambda>_. i" "\<lambda>j. ps ! j" b] assms(5) name by auto
  obtain rn2 where 2: "set_ends Enable b g2 (\<lambda>j. endname_at eds (ps ! j) i) [0..<length ps] rn1 = Inr rn2" "net_rest rn2 = net_rest rn1"
      "wired eds (\<lambda>p q. if \<exists>j\<in>set [0..<length ps]. True \<and> p = ps ! j \<and> q = i then b
        else if \<exists>j\<in>set [0..<length ps]. True \<and> p = i \<and> q = ps ! j then b else on p q) X rn2"
    using wired_set_ends [OF 1(3), of "[0..<length ps]" g2 "\<lambda>_. True" "\<lambda>j. ps ! j" "\<lambda>_. i" b] assms(6) name by auto
  have "wired eds (star_on b i (set ps) on) X rn2"
    by (rule wired_cong [OF 2(3)]) (auto simp: star_on_def in_set_conv_nth)
  with 1(1,2) 2(1,2) show ?thesis by auto
qed

lemma connectUnlocked_ok:
  assumes "wired (k_endnames c) on X (k_net c)" and "rows_ok (k_endnames c) (k_n c)" and "i < k_n c" and "set tos \<subseteq> {..<k_n c}"
  shows "\<exists>rn. connectUnlocked i tos c = Inr (c\<lparr>k_net := rn\<rparr>) \<and> net_rest rn = net_rest (k_net c) \<and>
    wired (k_endnames c) (star_on True i (set tos) on) X rn"
  using wired_star [OF assms, of "\<lambda>_. Inr True" "\<lambda>_. Inr True" True] by (auto simp: connectUnlocked_def go_bind_eq_Inr)

lemma disconnectUnlocked_ok:
  assumes "wired (k_endnames c) on X (k_net c)" and "rows_ok (k_endnames c) (k_n c)" and "i < k_n c" and "set froms \<subseteq> {..<k_n c}"
    and "distinct froms"
  shows "\<exists>rn. disconnectUnlocked i froms c = Inr (c\<lparr>k_net := rn\<rparr>) \<and> net_rest rn = net_rest (k_net c) \<and>
    wired (k_endnames c) (star_on False i (set froms) on) X rn"
proof -
  have "length froms \<le> k_n c" using card_mono [OF _ assms(4)] distinct_card [OF assms(5)] by simp
  then have "\<And>j. j < length froms \<Longrightarrow> row_exists (k_endnames c) j = Inr True" using rows_ok_exists [OF assms(2)] by simp
  from wired_star [OF assms(1-4), of "\<lambda>_. row_exists (k_endnames c) i" "row_exists (k_endnames c)" False,
      OF rows_ok_exists [OF assms(2,3)] this]
  show ?thesis by (auto simp: disconnectUnlocked_def go_bind_eq_Inr)
qed

definition split_on :: "nat set \<Rightarrow> nat set \<Rightarrow> nat set \<Rightarrow> (nat \<Rightarrow> nat \<Rightarrow> bool) \<Rightarrow> nat \<Rightarrow> nat \<Rightarrow> bool" where
  "split_on S P Q on p q =
     (if p \<in> S \<and> q \<in> Q \<or> q \<in> S \<and> p \<in> Q then False
      else if p \<in> S \<and> q \<in> P \<or> q \<in> S \<and> p \<in> P then True else on p q)"

lemma split_from_ok:
  assumes "wired (k_endnames c) on X (k_net c)" and "rows_ok (k_endnames c) (k_n c)" and "set ps \<subseteq> {..<k_n c}" and "set qs \<subseteq> {..<k_n c}"
    and "distinct qs" and "set ps \<inter> set qs = {}" and "set xs \<subseteq> set ps"
  shows "\<exists>rn. split_from ps qs xs c = Inr (c\<lparr>k_net := rn\<rparr>) \<and> net_rest rn = net_rest (k_net c) \<and>
    wired (k_endnames c) (split_on (set xs) (set ps) (set qs) on) X rn"
  using assms(1,2,3,4,7)
proof (induction xs arbitrary: c on)
  case Nil
  then show ?case by (auto simp: split_from_def split_on_def intro!: exI [of _ "k_net c"])
next
  case (Cons x xs)
  have x: "x < k_n c" "x \<in> set ps" using Cons.prems by auto
  obtain rn1 where 1: "disconnectUnlocked x qs c = Inr (c\<lparr>k_net := rn1\<rparr>)" "net_rest rn1 = net_rest (k_net c)"
      "wired (k_endnames c) (star_on False x (set qs) on) X rn1"
    using disconnectUnlocked_ok [OF Cons.prems(1,2) x(1) Cons.prems(4) assms(5)] by blast
  obtain rn2 where 2: "connectUnlocked x ps (c\<lparr>k_net := rn1\<rparr>) = Inr (c\<lparr>k_net := rn2\<rparr>)" "net_rest rn2 = net_rest rn1"
      "wired (k_endnames c) (split_on {x} (set ps) (set qs) on) X rn2"
  proof -
    obtain rn2 where "connectUnlocked x ps (c\<lparr>k_net := rn1\<rparr>) = Inr (c\<lparr>k_net := rn2\<rparr>)" "net_rest rn2 = net_rest rn1"
      "wired (k_endnames c) (star_on True x (set ps) (star_on False x (set qs) on)) X rn2"
      using connectUnlocked_ok [of "c\<lparr>k_net := rn1\<rparr>" "star_on False x (set qs) on" X x ps] 1(3) Cons.prems(2,3) x(1) by auto
    moreover from this(3) have "wired (k_endnames c) (split_on {x} (set ps) (set qs) on) X rn2"
      by (rule wired_cong) (use assms(6) x(2) in \<open>auto simp: split_on_def star_on_def\<close>)
    ultimately show thesis using that by blast
  qed
  obtain rn3 where 3: "split_from ps qs xs (c\<lparr>k_net := rn2\<rparr>) = Inr (c\<lparr>k_net := rn3\<rparr>)" "net_rest rn3 = net_rest rn2"
      "wired (k_endnames c) (split_on (set xs) (set ps) (set qs) (split_on {x} (set ps) (set qs) on)) X rn3"
    using Cons.IH [of "c\<lparr>k_net := rn2\<rparr>" "split_on {x} (set ps) (set qs) on"] 2(3) Cons.prems(2-5) by auto
  have "wired (k_endnames c) (split_on (set (x # xs)) (set ps) (set qs) on) X rn3"
    by (rule wired_cong [OF 3(3)]) (use assms(6) Cons.prems(5) in \<open>auto simp: split_on_def\<close>)
  moreover have "split_from ps qs (x # xs) c = Inr (c\<lparr>k_net := rn3\<rparr>)"
    using 1(1) 2(1) 3(1) by (simp add: split_from_def)
  ultimately show ?case using 1(2) 2(2) 3(2) by auto
qed

subsection \<open>Dealing the servers\<close>

definition dealt :: "nat \<Rightarrow> nat \<Rightarrow> nat list \<Rightarrow> nat list \<times> nat list \<times> nat" where
  "dealt a b xs = (take a xs @ replicate (a - length xs) 0,
     drop a xs @ replicate (b - (length xs - a)) 0, length xs)"

lemma deal_step:
  assumes "length xs < a + b"
  shows "deal l i (dealt a b xs) = Inr (if i = l then dealt a b xs else dealt a b (xs @ [i]))"
proof (cases "i = l")
  case False
  show ?thesis
  proof (cases "length xs < a")
    case True
    then have "(xs @ replicate (a - length xs) 0)[length xs := i] = xs @ i # replicate (a - Suc (length xs)) 0"
      by (simp add: list_update_append Cons_replicate_eq Suc_diff_Suc [symmetric])
    then show ?thesis using True False by (simp add: deal_def dealt_def)
  next
    case ge: False
    let ?k = "length xs - a"
    have k: "?k < b" using assms ge by linarith
    then have "replicate (b - ?k) 0 = (0 :: nat) # replicate (b - Suc ?k) 0" by (metis Suc_diff_Suc replicate_Suc)
    then have "(drop a xs @ replicate (b - ?k) 0)[?k := i] = drop a xs @ i # replicate (b - Suc ?k) 0"
      by (simp add: list_update_append)
    then show ?thesis using ge False k by (simp add: deal_def dealt_def Suc_diff_le of_nat_diff [symmetric] del: of_nat_diff)
  qed
qed (simp add: deal_def dealt_def)

lemma deal_fold:
  assumes "length xs + length (filter (\<lambda>i. i \<noteq> l) is) \<le> a + b"
  shows "go_fold (deal l) is (dealt a b xs) = Inr (dealt a b (xs @ filter (\<lambda>i. i \<noteq> l) is))"
  using assms
proof (induction "is" arbitrary: xs)
  case (Cons i "is")
  show ?case
  proof (cases "i = l")
    case True
    then show ?thesis using Cons by (simp add: deal_def dealt_def)
  next
    case False
    then show ?thesis using Cons.IH [of "xs @ [i]"] Cons.prems deal_step [of xs a b l i] by simp
  qed
qed simp

lemma length_others:
  assumes "l < n"
  shows "length (filter (\<lambda>i. i \<noteq> l) [0..<n]) = n - 1"
proof -
  have s: "set (filter (\<lambda>i. i \<noteq> l) [0..<n]) = {0..<n} - {l}" by auto
  have "length (filter (\<lambda>i. i \<noteq> l) [0..<n]) = card (set (filter (\<lambda>i. i \<noteq> l) [0..<n]))" by (simp add: distinct_card del: set_filter)
  also have "\<dots> = n - 1" unfolding s using assms by simp
  finally show ?thesis .
qed

text \<open>With an odd number of servers the dealing fills both sides exactly.\<close>

lemma deal_all_odd:
  assumes "odd n" and "3 \<le> n" and "l < n"
  shows "deal_all n l = Inr (take (n div 2 + 1) (filter (\<lambda>i. i \<noteq> l) [0..<n]), drop (n div 2 + 1) (filter (\<lambda>i. i \<noteq> l) [0..<n]) @ [l])"
proof -
  let ?xs = "filter (\<lambda>i. i \<noteq> l) [0..<n]" and ?a = "n div 2 + 1" and ?b = "n div 2"
  note len = length_others [OF assms(3)]
  have n: "n = ?a + ?b" using assms(1) by (auto elim: oddE)
  have "go_fold (deal l) [0..<n] (dealt ?a ?b []) = Inr (dealt ?a ?b ?xs)"
    using deal_fold [of "[]" l "[0..<n]" ?a ?b] len n by simp
  moreover have "?b - (length ?xs - ?a) = 1" "?a - length ?xs = 0" using len n assms(2) by linarith+
  ultimately have "go_fold (deal l) [0..<n] (replicate ?a 0, replicate ?b 0, 0) = Inr (take ?a ?xs, drop ?a ?xs @ [0], length ?xs)"
    by (simp add: dealt_def)
  moreover have "slice_set (drop ?a ?xs @ [0]) (int (length (drop ?a ?xs @ [0])) - 1) l = Inr (drop ?a ?xs @ [l])"
    by (simp add: slice_set_def list_update_append del: length_drop)
  ultimately show ?thesis by (simp add: deal_all_def Let_def)
qed

lemma deal_all_sides:
  assumes "odd n" and "3 \<le> n" and "l < n"
  shows "\<exists>p1 p2. deal_all n l = Inr (p1, p2) \<and> distinct (p1 @ p2) \<and> set (p1 @ p2) = {..<n} \<and> last p2 = l \<and> l \<in> set p2 \<and>
    length p1 = n div 2 + 1 \<and> length p2 = n div 2"
proof -
  define xs where "xs = filter (\<lambda>i. i \<noteq> l) [0..<n]"
  define p1 p2 where "p1 = take (n div 2 + 1) xs" and "p2 = drop (n div 2 + 1) xs @ [l]"
  have "distinct (xs @ [l])" "set (xs @ [l]) = {..<n}" using assms(3) by (auto simp: xs_def)
  moreover have "p1 @ p2 = xs @ [l]" by (simp add: p1_def p2_def flip: append_assoc)
  moreover have "length xs = n - 1" using length_others [OF assms(3)] by (simp add: xs_def)
  then have "length p1 = n div 2 + 1" "length p2 = n div 2" using assms(1,2) by (auto simp: p1_def p2_def elim!: oddE)
  moreover have "last p2 = l" "l \<in> set p2" by (simp_all add: p2_def)
  ultimately show ?thesis using deal_all_odd [OF assms, folded xs_def, folded p1_def p2_def] by metis
qed

text \<open>
  With an even number of servers the first group keeps a surplus place, which stays 0: server 0 is
  in both groups. With a single server there is no place for it and the index is out of range.
\<close>

lemma make_partition_even: "deal_all 4 1 = Inr ([0, 2, 3], [0, 1])" and make_partition_single: "deal_all 1 0 = Inl IndexOutOfRange"
  by code_simp+

text \<open>
  The guard of \<open>disconnectUnlocked\<close> looks at the wrong row: while server 0 was never started,
  disconnecting server 1 from server 2 leaves the end from 2 to 1 enabled.
\<close>

lemma disconnectUnlocked_wrong_row:
  assumes "k_endnames c = [None, Some [''a'', ''b'', ''c''], Some [''d'', ''e'', ''f'']]"
  shows "disconnectUnlocked 1 [2] c = Inr (c\<lparr>k_net := Enable ''c'' False (k_net c)\<rparr>)"
    and "disconnectUnlocked 1 [2, 0] c = Inl IndexOutOfRange"
  using assms by (simp_all add: disconnectUnlocked_def set_ends_def endname_at_def row_exists_def slice_get_def)

text \<open>A client's ends are shuffled, none is lost.\<close>

lemma mset_swap_at: "i < length xs \<Longrightarrow> j < length xs \<Longrightarrow> mset (swap_at i j xs) = mset xs"
  unfolding swap_at_def by (rule mset_swap)

lemma length_swap_at [simp]: "length (swap_at i j xs) = length xs"
  by (simp add: swap_at_def)

lemma random_handles_permutes: "mset (random_handles rnd kvh) = mset kvh"
proof -
  have "k \<le> length kvh \<Longrightarrow> mset (fold (\<lambda>i sa. swap_at i (rnd i mod (i + 1)) sa) [0..<k] kvh) = mset kvh \<and>
      length (fold (\<lambda>i sa. swap_at i (rnd i mod (i + 1)) sa) [0..<k] kvh) = length kvh" for k
  proof (induction k)
    case (Suc k)
    moreover have "rnd k mod Suc k < length kvh" using Suc.prems mod_less_divisor [of "Suc k" "rnd k"] by linarith
    ultimately show ?case by (simp add: mset_swap_at)
  qed simp
  then show ?thesis by (simp add: random_handles_def)
qed

end
