(* ===== verification/Cluster_Spec.thy ===== *)
theory Cluster_Spec
  imports Cluster
begin

text \<open>
  What a cluster of test servers promises: an abstract state says which server may send to which and
  which servers are up, and every operation of a harness (partition, shut down, start again, connect
  all) does to the network exactly what the abstract operation does. The locales state what the
  harness's own \<open>StartServer\<close> and \<open>ShutdownServer\<close> do to the tables; the simulation is proved once from them,
  for \<open>kvraft\<close> and \<open>shardctrler\<close>.
\<close>

subsection \<open>Connecting and partitioning\<close>

lemma list_update_None: "xs ! i = None \<Longrightarrow> xs[i := None] = xs"
  by (metis list_update_id)

lemma ConnectAll_from:
  assumes "wired (k_endnames c) on X (k_net c)" and "rows_ok (k_endnames c) (k_n c)" and "set is \<subseteq> {..<k_n c}"
  shows "\<exists>rn. go_fold (\<lambda>i c. connectUnlocked i (All c) c) is c = Inr (c\<lparr>k_net := rn\<rparr>) \<and> net_rest rn = net_rest (k_net c) \<and>
    wired (k_endnames c) (\<lambda>p q. p \<in> set is \<and> q < k_n c \<or> q \<in> set is \<and> p < k_n c \<or> on p q) X rn"
  using assms
proof (induction "is" arbitrary: c on)
  case Nil
  then show ?case by (auto intro!: exI [of _ "k_net c"])
next
  case (Cons i "is")
  obtain rn where 1: "connectUnlocked i (All c) c = Inr (c\<lparr>k_net := rn\<rparr>)" "net_rest rn = net_rest (k_net c)"
      "wired (k_endnames c) (star_on True i (set (All c)) on) X rn"
    using connectUnlocked_ok [OF Cons.prems(1,2), of i "All c"] Cons.prems(3)
    by (auto simp: All_def atLeast0LessThan)
  obtain rn' where 2: "go_fold (\<lambda>i c. connectUnlocked i (All c) c) is (c\<lparr>k_net := rn\<rparr>) = Inr (c\<lparr>k_net := rn'\<rparr>)"
      "net_rest rn' = net_rest rn"
      "wired (k_endnames c) (\<lambda>p q. p \<in> set is \<and> q < k_n c \<or> q \<in> set is \<and> p < k_n c \<or> star_on True i (set (All c)) on p q) X rn'"
    using Cons.IH [of "c\<lparr>k_net := rn\<rparr>"] 1(3) Cons.prems(2,3) by auto
  have "wired (k_endnames c) (\<lambda>p q. p \<in> set (i # is) \<and> q < k_n c \<or> q \<in> set (i # is) \<and> p < k_n c \<or> on p q) X rn'"
    by (rule wired_cong [OF 2(3)]) (auto simp: star_on_def All_def)
  with 1 2 show ?case by (auto intro!: exI [of _ rn'])
qed

definition two_sides :: "nat \<Rightarrow> nat list \<times> nat list \<Rightarrow> bool" where
  "two_sides n = (\<lambda>(p1, p2). distinct (p1 @ p2) \<and> set (p1 @ p2) \<subseteq> {..<n})"

text \<open>Which pairs a partition leaves connected.\<close>

definition parted :: "nat list \<times> nat list \<Rightarrow> (nat \<Rightarrow> nat \<Rightarrow> bool) \<Rightarrow> nat \<Rightarrow> nat \<Rightarrow> bool" where
  "parted = (\<lambda>(p1, p2) on p q.
     if p \<in> set p1 \<and> q \<in> set p2 \<or> p \<in> set p2 \<and> q \<in> set p1 then False
     else if p \<in> set p1 \<and> q \<in> set p1 \<or> p \<in> set p2 \<and> q \<in> set p2 then True else on p q)"

lemma split_twice:
  assumes "set p1 \<inter> set p2 = {}"
  shows "split_on (set p2) (set p2) (set p1) (split_on (set p1) (set p1) (set p2) on) p q = parted (p1, p2) on p q"
proof -
  have "p \<in> set p1 \<Longrightarrow> p \<notin> set p2" "q \<in> set p1 \<Longrightarrow> q \<notin> set p2" using assms by auto
  then show ?thesis by (cases "p \<in> set p1"; cases "q \<in> set p1") (simp_all add: split_on_def parted_def)
qed

lemma partition_wired:
  assumes "wired (k_endnames c) on X (k_net c)" and "rows_ok (k_endnames c) (k_n c)" and "two_sides (k_n c) (p1, p2)"
  shows "\<exists>rn. cluster_partition p1 p2 c = Inr (c\<lparr>k_net := rn\<rparr>) \<and> net_rest rn = net_rest (k_net c) \<and>
    wired (k_endnames c) (parted (p1, p2) on) X rn"
proof -
  have D: "distinct p1" "distinct p2" "set p1 \<inter> set p2 = {}" "set p2 \<inter> set p1 = {}" "set p1 \<subseteq> {..<k_n c}" "set p2 \<subseteq> {..<k_n c}"
    using assms(3) by (auto simp: two_sides_def)
  obtain r1 where 1: "split_from p1 p2 p1 c = Inr (c\<lparr>k_net := r1\<rparr>)" "net_rest r1 = net_rest (k_net c)"
      "wired (k_endnames c) (split_on (set p1) (set p1) (set p2) on) X r1"
    using split_from_ok [OF assms(1,2), of p1 p2 p1] D by auto
  obtain r2 where 2: "split_from p2 p1 p2 (c\<lparr>k_net := r1\<rparr>) = Inr (c\<lparr>k_net := r2\<rparr>)" "net_rest r2 = net_rest r1"
      "wired (k_endnames c) (split_on (set p2) (set p2) (set p1) (split_on (set p1) (set p1) (set p2) on)) X r2"
    using split_from_ok [of "c\<lparr>k_net := r1\<rparr>" "split_on (set p1) (set p1) (set p2) on" X p2 p1 p2] 1(3) assms(2) D by auto
  have "wired (k_endnames c) (parted (p1, p2) on) X r2"
    by (rule wired_cong [OF 2(3)]) (rule split_twice [OF D(3)])
  then show ?thesis using 1(1,2) 2(1,2) by (intro exI [of _ r2]) (simp add: cluster_partition_def)
qed

subsection \<open>A cluster in use\<close>

text \<open>What tests do to the servers of a cluster: partition them, shut one down, start it again with fresh names, connect all.\<close>

datatype cluster_op = Do_partition "nat list" "nat list" | Do_shutdown nat | Do_restart "nat \<Rightarrow> string" nat | Do_connect_all

fun run_op ::
    "((nat \<Rightarrow> string) \<Rightarrow> nat \<Rightarrow> ('s, 'z) cluster_scheme \<Rightarrow> ('s, 'z) cluster_scheme go) \<Rightarrow>
     (nat \<Rightarrow> ('s, 'z) cluster_scheme \<Rightarrow> ('s, 'z) cluster_scheme go) \<Rightarrow> cluster_op \<Rightarrow> ('s, 'z) cluster_scheme \<Rightarrow> ('s, 'z) cluster_scheme go" where
  "run_op start stop (Do_partition p1 p2) c = cluster_partition p1 p2 c"
| "run_op start stop (Do_shutdown i) c = stop i c"
| "run_op start stop (Do_restart names i) c = start names i c"
| "run_op start stop Do_connect_all c = ConnectAll c"

text \<open>
  The specification: which server may send to which, and which servers are up. A server is started
  only when it is down and its ends are switched off (\<open>ShutdownServer\<close> does that), as the comment on
  \<open>StartServer\<close> demands; otherwise the ends of the earlier instance would stay enabled.
\<close>

type_synonym cluster_spec = "(nat \<Rightarrow> nat \<Rightarrow> bool) \<times> nat set"

fun spec_op :: "nat \<Rightarrow> cluster_op \<Rightarrow> cluster_spec \<Rightarrow> cluster_spec" where
  "spec_op n (Do_partition p1 p2) (on, up) = (parted (p1, p2) on, up)"
| "spec_op n (Do_shutdown i) (on, up) = (\<lambda>p q. p \<noteq> i \<and> q \<noteq> i \<and> on p q, up - {i})"
| "spec_op n (Do_restart names i) (on, up) = (\<lambda>p q. p \<noteq> i \<and> on p q, insert i up)"
| "spec_op n Do_connect_all (on, up) = (\<lambda>p q. True, up)"

fun op_allowed :: "nat \<Rightarrow> cluster_op \<Rightarrow> cluster_spec \<Rightarrow> bool" where
  "op_allowed n (Do_partition p1 p2) (on, up) = two_sides n (p1, p2)"
| "op_allowed n (Do_shutdown i) (on, up) = (i < n)"
| "op_allowed n (Do_restart names i) (on, up) = (i < n \<and> i \<notin> up \<and> (\<forall>j<n. \<not> on i j))"
| "op_allowed n Do_connect_all (on, up) = True"

fun ops_allowed :: "nat \<Rightarrow> cluster_op list \<Rightarrow> cluster_spec \<Rightarrow> bool" where
  "ops_allowed n [] s = True"
| "ops_allowed n (op # ops) s = (op_allowed n op s \<and> ops_allowed n ops (spec_op n op s))"

definition all_up :: "nat \<Rightarrow> cluster_spec" where
  "all_up n = (\<lambda>_ _. True, {..<n})"

definition cluster_sim :: "nat \<Rightarrow> cluster_spec \<Rightarrow> ('s, 'z) cluster_scheme \<Rightarrow> bool" where
  "cluster_sim n = (\<lambda>(on, up) c. k_n c = n \<and> rows_ok (k_endnames c) n \<and> length (k_saved c) = n \<and> length (k_servers c) = n \<and>
     (\<forall>i<n. (k_servers c ! i \<noteq> None \<longleftrightarrow> i \<in> up) \<and> (servers (k_net c) (int i) \<noteq> None \<longleftrightarrow> i \<in> up)) \<and>
     wired (k_endnames c) on {} (k_net c))"

lemma registered:
  "servers (AddServer k a rn) = (servers rn)(k \<mapsto> a)" "servers (DeleteServer k rn) = (servers rn)(k := None)"
  by (simp_all add: AddServer_def DeleteServer_def)

lemma sim_reaches:
  assumes "cluster_sim n (on, up) c" and "i < n" and "j < n"
  shows "\<exists>e. endname_at (k_endnames c) i j = Inr e \<and> ((\<exists>a. reachable_server (k_net c) e (int j) a) \<longleftrightarrow> on i j \<and> j \<in> up)"
proof -
  have S: "rows_ok (k_endnames c) n" "servers (k_net c) (int j) \<noteq> None \<longleftrightarrow> j \<in> up" "wired (k_endnames c) on {} (k_net c)"
    using assms(1,3) unfolding cluster_sim_def by auto
  obtain e where e: "endname_at (k_endnames c) i j = Inr e" using rows_ok_name [OF S(1) assms(2,3)] by blast
  then have "endname_at (k_endnames c) i' j' = Inr e \<Longrightarrow> i' = i \<and> j' = j" for i' j' using S(3) unfolding wired_def by blast
  then show ?thesis using e wired_reachable [OF S(3)] S(2) by blast
qed

lemma sim_net:
  assumes "cluster_sim n (on, up) c" and "net_rest rn = net_rest (k_net c)" and "wired (k_endnames c) on' {} rn"
  shows "cluster_sim n (on', up) (c\<lparr>k_net := rn\<rparr>)"
  using assms net_rest_eq(3) [OF assms(2)] by (simp add: cluster_sim_def)

lemma sim_partition:
  assumes "cluster_sim n (on, up) c" and "two_sides n (p1, p2)"
  shows "\<exists>c'. cluster_partition p1 p2 c = Inr c' \<and> k_endnames c' = k_endnames c \<and> cluster_sim n (parted (p1, p2) on, up) c'"
proof -
  have M: "k_n c = n" "wired (k_endnames c) on {} (k_net c)" "rows_ok (k_endnames c) (k_n c)" using assms(1) by (auto simp: cluster_sim_def)
  obtain rn where "cluster_partition p1 p2 c = Inr (c\<lparr>k_net := rn\<rparr>)" "net_rest rn = net_rest (k_net c)" "wired (k_endnames c) (parted (p1, p2) on) {} rn"
    using partition_wired [OF M(2,3)] assms(2) M(1) by blast
  then show ?thesis using sim_net [OF assms(1)] by auto
qed

lemma sim_connect_all:
  assumes "cluster_sim n (on, up) c"
  shows "\<exists>c'. ConnectAll c = Inr c' \<and> cluster_sim n (\<lambda>_ _. True, up) c'"
proof -
  have M: "k_n c = n" "wired (k_endnames c) on {} (k_net c)" "rows_ok (k_endnames c) (k_n c)" using assms by (auto simp: cluster_sim_def)
  obtain rn where rn: "ConnectAll c = Inr (c\<lparr>k_net := rn\<rparr>)" "net_rest rn = net_rest (k_net c)"
      "wired (k_endnames c) (\<lambda>p q. p \<in> set [0..<n] \<and> q < k_n c \<or> q \<in> set [0..<n] \<and> p < k_n c \<or> on p q) {} rn"
    using ConnectAll_from [OF M(2,3), of "[0..<n]"] by (auto simp: ConnectAll_def M(1) atLeast0LessThan)
  have "wired (k_endnames c) (\<lambda>_ _. True) {} rn"
    by (rule wired_cong [OF rn(3)]) (use M in \<open>auto simp: endname_at_Inr rows_ok_def\<close>)
  then show ?thesis using sim_net [OF assms rn(2)] rn(1) by blast
qed

text \<open>The last of any partitions separates its groups, whatever came before it.\<close>

lemma sim_separates:
  assumes "cluster_sim n (on, up) c" and "two_sides n (p1, p2)"
  shows "\<exists>c'. cluster_partition p1 p2 c = Inr c' \<and> (\<forall>i<n. \<forall>j<n. \<exists>e. endname_at (k_endnames c) i j = Inr e \<and>
    ((\<exists>a. reachable_server (k_net c') e (int j) a) \<longleftrightarrow>
      (if i \<in> set (p1 @ p2) \<and> j \<in> set (p1 @ p2) then (i \<in> set p1 \<longleftrightarrow> j \<in> set p1) \<and> k_servers c ! j \<noteq> None
       else \<exists>a. reachable_server (k_net c) e (int j) a)))"
proof -
  obtain c' where c': "cluster_partition p1 p2 c = Inr c'" "k_endnames c' = k_endnames c" "cluster_sim n (parted (p1, p2) on, up) c'"
    using sim_partition [OF assms] by blast
  have "set p1 \<inter> set p2 = {}" using assms(2) by (auto simp: two_sides_def)
  then have p: "parted (p1, p2) on i j = (if i \<in> set (p1 @ p2) \<and> j \<in> set (p1 @ p2) then i \<in> set p1 \<longleftrightarrow> j \<in> set p1 else on i j)" for i j
    by (auto simp: parted_def)
  have u: "k_servers c ! j \<noteq> None \<longleftrightarrow> j \<in> up" if "j < n" for j using assms(1) that by (auto simp: cluster_sim_def)
  have "\<exists>e. endname_at (k_endnames c) i j = Inr e \<and> ((\<exists>a. reachable_server (k_net c') e (int j) a) \<longleftrightarrow>
      (if i \<in> set (p1 @ p2) \<and> j \<in> set (p1 @ p2) then (i \<in> set p1 \<longleftrightarrow> j \<in> set p1) \<and> k_servers c ! j \<noteq> None
       else \<exists>a. reachable_server (k_net c) e (int j) a))" if ij: "i < n" "j < n" for i j
  proof -
    obtain e where e: "endname_at (k_endnames c) i j = Inr e"
        "(\<exists>a. reachable_server (k_net c') e (int j) a) \<longleftrightarrow> parted (p1, p2) on i j \<and> j \<in> up"
      using sim_reaches [OF c'(3) ij] by (auto simp: c'(2))
    moreover have "(\<exists>a. reachable_server (k_net c) e (int j) a) \<longleftrightarrow> on i j \<and> j \<in> up"
      using sim_reaches [OF assms(1) ij] e(1) by auto
    ultimately show ?thesis using u [OF ij(2)] unfolding p by (intro exI [of _ e]) simp
  qed
  then show ?thesis using c'(1) by blast
qed

definition cluster_started :: "(nat \<Rightarrow> nat \<Rightarrow> string) \<Rightarrow> nat \<Rightarrow> nat \<Rightarrow> ('s, 'z) cluster_scheme \<Rightarrow> bool" where
  "cluster_started names n k c \<longleftrightarrow> k_n c = n \<and> length (k_endnames c) = n \<and> length (k_saved c) = n \<and> length (k_servers c) = n \<and>
     (\<forall>i<k. k_endnames c ! i = Some (map (names i) [0..<n]) \<and> k_servers c ! i \<noteq> None \<and> servers (k_net c) (int i) \<noteq> None) \<and>
     (\<forall>i<n. k \<le> i \<longrightarrow> k_endnames c ! i = None) \<and>
     dom (ends (k_net c)) = (\<Union>i<k. names i ` {..<n}) \<and> wired (k_endnames c) (\<lambda>_ _. False) {} (k_net c)"

lemma cluster_started_0:
  assumes "k_n c = n" and "k_endnames c = replicate n None" and "length (k_saved c) = n" and "length (k_servers c) = n" and "k_net c = MakeNetwork"
  shows "cluster_started names n 0 c"
proof -
  have "endname_at (replicate n None) i j \<noteq> Inr e" for i j e by (auto simp: endname_at_Inr)
  then show ?thesis using assms by (simp add: cluster_started_def MakeNetwork_def wired_def)
qed

lemma started_sim:
  assumes "cluster_started names n n c"
  shows "cluster_sim n (\<lambda>_ _. False, {..<n}) c"
  using assms by (simp add: cluster_started_def cluster_sim_def rows_ok_def)

definition sample_endnames :: "nat \<Rightarrow> nat \<Rightarrow> string" where
  "sample_endnames i j = replicate (Suc i) (CHR ''x'') @ replicate j (CHR ''y'')"

lemma sample_endnames_distinct: "names_distinct sample_endnames 3"
  by (auto simp: names_distinct_def sample_endnames_def numeral_3_eq_3 less_Suc_eq)

subsection \<open>The harness's own operations\<close>

text \<open>What a harness's \<open>StartServer\<close> does to the tables, however the server itself is made.\<close>

locale test_cluster =
  fixes start :: "(nat \<Rightarrow> string) \<Rightarrow> nat \<Rightarrow> ('s, 'z) cluster_scheme \<Rightarrow> ('s, 'z) cluster_scheme go"
  assumes start_row: "length (k_endnames c) = n \<Longrightarrow> length (k_saved c) = n \<Longrightarrow> length (k_servers c) = n \<Longrightarrow> k_n c = n \<Longrightarrow> k < n \<Longrightarrow>
    fresh_ends nms n (k_net c) = Inr (rn, es) \<Longrightarrow>
    \<exists>c'. start nms k c = Inr c' \<and> k_n c' = n \<and> length (k_saved c') = n \<and> k_endnames c' = (k_endnames c)[k := Some (map nms [0..<n])] \<and>
      (\<exists>kv. k_servers c' = (k_servers c)[k := Some kv]) \<and> (\<exists>a. k_net c' = AddServer (int k) a rn)"
begin

lemma cluster_started_Suc:
  assumes "cluster_started names n k c" and "k < n" and "names_distinct names n"
  shows "\<exists>c'. start (names k) k c = Inr c' \<and> cluster_started names n (Suc k) c'"
proof -
  let ?eds = "(k_endnames c)[k := Some (map (names k) [0..<n])]"
  note S = assms(1) [unfolded cluster_started_def]
  have "inj_on (names k) {..<n}" using assms(2,3) by (auto simp: names_distinct_def inj_on_def)
  moreover have "\<forall>j<n. ends (k_net c) (names k j) = None"
  proof (intro allI impI)
    fix j assume j: "j < n"
    have "names i j' \<noteq> names k j" if "i < k" "j' < n" for i j'
      using assms(2,3) j that unfolding names_distinct_def by (metis less_irrefl less_trans)
    then have "names k j \<notin> (\<Union>i<k. names i ` {..<n})" by force
    then show "ends (k_net c) (names k j) = None" using S by (metis domIff)
  qed
  ultimately obtain rn es where F: "fresh_ends (names k) n (k_net c) = Inr (rn, es)" using fresh_ends_ok by blast
  note R = fresh_ends_facts [OF F]
  have none: "endname_at (k_endnames c) k j \<noteq> Inr e" for j e using S assms(2) by (auto simp: endname_at_Inr)
  have "wired ?eds (\<lambda>_ _. False) {} rn"
    by (rule wired_new_row [OF _ _ _ F]) (use S assms(2) in auto)
  moreover have "dom (ends rn) = (\<Union>i<Suc k. names i ` {..<n})" using R S by (auto simp: lessThan_Suc)
  moreover have L: "length (k_endnames c) = n" "length (k_saved c) = n" "length (k_servers c) = n" "k_n c = n" using S by blast+
  moreover obtain c' kv a where c': "start (names k) k c = Inr c'" "k_n c' = n" "length (k_saved c') = n"
      "k_endnames c' = ?eds" "k_servers c' = (k_servers c)[k := Some kv]" "k_net c' = AddServer (int k) a rn"
    using start_row [OF L assms(2) F] by blast
  moreover have "servers (k_net c') (int i) \<noteq> None" if "i < Suc k" for i
    using c'(6) S R that by (auto simp: AddServer_def less_Suc_eq)
  moreover have "?eds ! i = Some (map (names i) [0..<n]) \<and> (k_servers c)[k := Some kv] ! i \<noteq> None" if "i < Suc k" for i
    using S that assms(2) by (auto simp: nth_list_update less_Suc_eq)
  moreover have "?eds ! i = None" if "i < n" "Suc k \<le> i" for i using S that by auto
  moreover have "ends (AddServer (int k) a rn) = ends rn" by (simp add: AddServer_def)
  ultimately have "cluster_started names n (Suc k) c'" using S unfolding cluster_started_def by simp
  with c'(1) show ?thesis by blast
qed

lemma cluster_starts_succeed:
  assumes "names_distinct names n" and "k \<le> n" and "cluster_started names n 0 c0"
  shows "\<exists>c. go_fold (\<lambda>i. start (names i) i) [0..<k] c0 = Inr c \<and> cluster_started names n k c"
  using assms(2)
proof (induction k)
  case 0
  then show ?case using assms(3) by simp
next
  case (Suc k)
  then obtain c where c: "go_fold (\<lambda>i. start (names i) i) [0..<k] c0 = Inr c" "cluster_started names n k c" by auto
  with cluster_started_Suc [OF c(2) _ assms(1)] Suc.prems show ?case by (auto simp: go_bind_eq_Inr)
qed

text \<open>\<open>make_config\<close> after the fields are set: all servers are started, connected, and the network is made reliable or not.\<close>

lemma configured:
  assumes "names_distinct names n" and "cluster_started names n 0 c0"
  shows "\<exists>c. go_bind (go_fold (\<lambda>i. start (names i) i) [0..<n] c0) (\<lambda>c1.
      go_bind (ConnectAll c1) (\<lambda>c2. Inr (c2\<lparr>k_net := Reliable r (k_net c2)\<rparr>))) = Inr c \<and> cluster_sim n (all_up n) c"
proof -
  obtain c where c: "go_fold (\<lambda>i. start (names i) i) [0..<n] c0 = Inr c" "cluster_started names n n c"
    using cluster_starts_succeed [OF assms(1) order_refl assms(2)] by blast
  obtain c' where c': "ConnectAll c = Inr c'" "cluster_sim n (all_up n) c'"
    using sim_connect_all [OF started_sim [OF c(2)]] by (auto simp: all_up_def)
  have "cluster_sim n (all_up n) (c'\<lparr>k_net := Reliable r (k_net c')\<rparr>)"
    using c'(2) by (simp add: cluster_sim_def all_up_def wired_def Reliable_def)
  then show ?thesis using c(1) c'(1) by simp
qed

end

locale cluster_lifecycle = test_cluster start
  for start :: "(nat \<Rightarrow> string) \<Rightarrow> nat \<Rightarrow> ('s, 'z) cluster_scheme \<Rightarrow> ('s, 'z) cluster_scheme go" +
  fixes stop :: "nat \<Rightarrow> ('s, 'z) cluster_scheme \<Rightarrow> ('s, 'z) cluster_scheme go"
  assumes start_fresh: "start nms i c = Inr c' \<Longrightarrow> \<exists>rn es. fresh_ends nms (k_n c) (k_net c) = Inr (rn, es)"
    and stop_effect: "disconnectUnlocked i (All c) c = Inr (c\<lparr>k_net := rn\<rparr>) \<Longrightarrow> i < length (k_servers c) \<Longrightarrow> i < length (k_saved c) \<Longrightarrow>
      \<exists>c'. stop i c = Inr c' \<and> k_n c' = k_n c \<and> k_endnames c' = k_endnames c \<and> length (k_saved c') = length (k_saved c) \<and>
        k_servers c' = (k_servers c)[i := None] \<and> k_net c' = DeleteServer (int i) rn"
begin

lemma sim_shutdown:
  assumes "cluster_sim n (on, up) c" and "i < n"
  shows "\<exists>c'. stop i c = Inr c' \<and> cluster_sim n (spec_op n (Do_shutdown i) (on, up)) c'"
proof -
  have M: "k_n c = n" "wired (k_endnames c) on {} (k_net c)" "rows_ok (k_endnames c) (k_n c)" "length (k_servers c) = n" "length (k_saved c) = n"
    using assms(1) by (auto simp: cluster_sim_def)
  obtain rn where rn: "disconnectUnlocked i (All c) c = Inr (c\<lparr>k_net := rn\<rparr>)" "net_rest rn = net_rest (k_net c)"
      "wired (k_endnames c) (star_on False i (set (All c)) on) {} rn"
    using disconnectUnlocked_ok [OF M(2,3), of i "All c"] assms(2) M(1) by (auto simp: All_def atLeast0LessThan)
  have w: "wired (k_endnames c) (\<lambda>p q. p \<noteq> i \<and> q \<noteq> i \<and> on p q) {} rn"
    by (rule wired_cong [OF rn(3)]) (use M in \<open>auto simp: star_on_def All_def endname_at_Inr rows_ok_def\<close>)
  obtain c' where c': "stop i c = Inr c'" "k_n c' = k_n c" "k_endnames c' = k_endnames c" "length (k_saved c') = length (k_saved c)"
      "k_servers c' = (k_servers c)[i := None]" "k_net c' = DeleteServer (int i) rn"
    using stop_effect [OF rn(1)] assms(2) M(4,5) by auto
  have "cluster_sim n (\<lambda>p q. p \<noteq> i \<and> q \<noteq> i \<and> on p q, up - {i}) c'"
    using assms c'(2-6) w net_rest_eq(3) [OF rn(2)] by (auto simp: cluster_sim_def registered nth_list_update)
  then show ?thesis using c'(1) by simp
qed

lemma sim_restart:
  assumes sim: "cluster_sim n (on, up) c" and i: "i < n" and off: "\<forall>j<n. \<not> on i j" and run: "start nms i c = Inr c'"
  shows "cluster_sim n (spec_op n (Do_restart nms i) (on, up)) c'"
proof -
  have M: "k_n c = n" "wired (k_endnames c) on {} (k_net c)" "rows_ok (k_endnames c) n" "length (k_servers c) = n" "length (k_saved c) = n"
      "length (k_endnames c) = n"
    using sim by (auto simp: cluster_sim_def rows_ok_def)
  obtain rn es where F: "fresh_ends nms n (k_net c) = Inr (rn, es)" using start_fresh [OF run] M(1) by auto
  obtain kv a where c': "k_n c' = n" "length (k_saved c') = n" "k_endnames c' = (k_endnames c)[i := Some (map nms [0..<n])]"
      "k_servers c' = (k_servers c)[i := Some kv]" "k_net c' = AddServer (int i) a rn"
    using start_row [OF M(6,5,4,1) i F] run by auto
  have "wired (k_endnames c') (\<lambda>p q. p \<noteq> i \<and> on p q) {} rn"
    unfolding c'(3) by (rule wired_new_row [OF M(2) _ _ F]) (use M off i in \<open>auto simp: endname_at_Inr rows_ok_def\<close>)
  moreover have "servers rn = servers (k_net c)" using fresh_ends_facts [OF F] by blast
  moreover have "rows_ok (k_endnames c') n" using M(3) i by (auto simp: c'(3) rows_ok_def nth_list_update)
  ultimately have "cluster_sim n (\<lambda>p q. p \<noteq> i \<and> on p q, insert i up) c'"
    using sim i c'(1,2,4,5) by (auto simp: cluster_sim_def registered nth_list_update)
  then show ?thesis by simp
qed

lemma sim_op:
  assumes "cluster_sim n s c" and "op_allowed n op s" and "run_op start stop op c = Inr c'"
  shows "cluster_sim n (spec_op n op s) c'"
proof -
  obtain on up where s: "s = (on, up)" by fastforce
  show ?thesis
  proof (cases op)
    case (Do_partition p1 p2)
    then show ?thesis using sim_partition [of n on up c p1 p2] assms by (auto simp: s)
  next
    case (Do_shutdown i)
    then show ?thesis using sim_shutdown [of n on up c i] assms by (auto simp: s)
  next
    case (Do_restart nms i)
    then show ?thesis using sim_restart [of n on up c i nms c'] assms by (auto simp: s)
  next
    case Do_connect_all
    then show ?thesis using sim_connect_all [of n on up c] assms by (auto simp: s)
  qed
qed

lemma sim_ops:
  assumes "cluster_sim n s c" and "ops_allowed n ops s" and "go_fold (run_op start stop) ops c = Inr c'"
  shows "cluster_sim n (fold (spec_op n) ops s) c'"
  using assms
proof (induction ops arbitrary: s c)
  case (Cons op ops)
  then obtain c1 where "run_op start stop op c = Inr c1" "go_fold (run_op start stop) ops c1 = Inr c'" by (auto simp: go_bind_eq_Inr)
  then show ?case using Cons.IH [OF sim_op] Cons.prems(1,2) by auto
qed simp

end

end
