(* ===== verification/Cluster_Calls.thy ===== *)
theory Cluster_Calls
  imports Cluster_Spec
begin

text \<open>
  Calls through the network of a test cluster. The ends of a client are switched on and off by
  \<open>ConnectClient\<close> and \<open>DisconnectClient\<close>; every server that is registered is the object that the harness's
  \<open>StartServer\<close> made, which is a law of the locale \<open>serving_cluster\<close>. Together with the life of a request in
  \<open>Labrpc\<close> this gives what \<open>ClientEnd.Call\<close> returns.
\<close>

subsection \<open>Switching leaves the rest alone\<close>

context switchboard
begin

lemma set_ends_rest: "set_ends turn b guard name js s = Inr s' \<Longrightarrow> rest s' = rest s"
proof (induction js arbitrary: s)
  case Nil
  then show ?case by (simp add: set_ends_def)
next
  case (Cons j js)
  then obtain g where g: "guard j = Inr g" by (auto simp: set_ends_def go_bind_eq_Inr)
  show ?case
  proof (cases g)
    case True
    then obtain e where "set_ends turn b guard name js (turn e b s) = Inr s'" using Cons.prems g by (auto simp: set_ends_def go_bind_eq_Inr)
    from Cons.IH [OF this] show ?thesis by (simp add: rest_turn)
  next
    case False
    then have "set_ends turn b guard name js s = Inr s'" using Cons.prems g by (simp add: set_ends_def)
    then show ?thesis by (rule Cons.IH)
  qed
qed

end

text \<open>A configuration differs from another only in which ends are enabled.\<close>

definition same_but_ends :: "('s, 'z) cluster_scheme \<Rightarrow> ('s, 'z) cluster_scheme \<Rightarrow> bool" where
  "same_but_ends c c' \<longleftrightarrow> (\<exists>rn. c' = c\<lparr>k_net := rn\<rparr> \<and> net_rest rn = net_rest (k_net c))"

lemma same_but_ends_refl: "same_but_ends c c"
  unfolding same_but_ends_def by (intro exI [of _ "k_net c"]) simp

lemma same_but_ends_trans: "same_but_ends c c' \<Longrightarrow> same_but_ends c' c'' \<Longrightarrow> same_but_ends c c''"
  unfolding same_but_ends_def by auto

lemma same_but_ends_fold:
  assumes "\<And>x c c'. f x c = Inr c' \<Longrightarrow> same_but_ends c c'"
  shows "go_fold f xs c = Inr c' \<Longrightarrow> same_but_ends c c'"
proof (induction xs arbitrary: c)
  case Nil
  then show ?case by (simp add: same_but_ends_refl)
next
  case (Cons x xs)
  then obtain c1 where "f x c = Inr c1" "go_fold f xs c1 = Inr c'" by (auto simp: go_bind_eq_Inr)
  then show ?case using same_but_ends_trans [OF assms Cons.IH] by blast
qed

lemma connectUnlocked_same: "connectUnlocked i tos c = Inr c' \<Longrightarrow> same_but_ends c c'"
  by (auto simp: connectUnlocked_def go_bind_eq_Inr same_but_ends_def dest!: net.set_ends_rest)

lemma disconnectUnlocked_same: "disconnectUnlocked i froms c = Inr c' \<Longrightarrow> same_but_ends c c'"
  by (auto simp: disconnectUnlocked_def go_bind_eq_Inr same_but_ends_def dest!: net.set_ends_rest)

lemma split_from_same: "split_from ps qs is c = Inr c' \<Longrightarrow> same_but_ends c c'"
  unfolding split_from_def
  by (erule same_but_ends_fold [rotated])
    (auto simp: go_bind_eq_Inr intro: same_but_ends_trans dest!: connectUnlocked_same disconnectUnlocked_same)

lemma partition_same:
  assumes "cluster_partition p1 p2 c = Inr c'"
  shows "same_but_ends c c'"
proof -
  obtain c1 where "split_from p1 p2 p1 c = Inr c1" "split_from p2 p1 p2 c1 = Inr c'" using assms by (auto simp: cluster_partition_def go_bind_eq_Inr)
  then show ?thesis using same_but_ends_trans [OF split_from_same split_from_same] by blast
qed

lemma ConnectAll_same: "ConnectAll c = Inr c' \<Longrightarrow> same_but_ends c c'"
  unfolding ConnectAll_def by (erule same_but_ends_fold [rotated]) (rule connectUnlocked_same)

lemma ConnectClient_same:
  "ConnectClient ck tos c = Inr c' \<Longrightarrow> same_but_ends c c'" "DisconnectClient ck tos c = Inr c' \<Longrightarrow> same_but_ends c c'"
  by (auto simp: ConnectClient_def DisconnectClient_def ConnectClientUnlocked_def DisconnectClientUnlocked_def Let_def
      go_bind_eq_Inr same_but_ends_def dest!: net.set_ends_rest)

lemma fresh_ends_reliable: "fresh_ends names n rn = Inr (rn', es) \<Longrightarrow> reliable rn' = reliable rn"
proof (induction n arbitrary: rn' es)
  case 0
  then show ?case by (simp add: fresh_ends_def)
next
  case (Suc n)
  obtain rn1 es1 where 1: "fresh_ends names n rn = Inr (rn1, es1)"
    and "go_bind (MakeEnd (names n) rn1) (\<lambda>(rn2, e). Inr (Connect (names n) (int n) rn2, es1 @ [e])) = Inr (rn', es)"
    using Suc.prems unfolding fresh_ends_Suc by (cases "fresh_ends names n rn") auto
  then have "reliable rn' = reliable rn1" by (auto simp: go_bind_eq_Inr MakeEnd_def Connect_def Let_def split: if_splits)
  then show ?case using Suc.IH [OF 1] by simp
qed

text \<open>Neither does handling the persisters.\<close>

lemma copy_persister_keeps:
  "cluster_copy_persister i c = Inr c' \<Longrightarrow> k_net c' = k_net c \<and> kh_servers c' = kh_servers c"
  by (auto simp: cluster_copy_persister_def go_bind_eq_Inr split: option.splits)

lemma load_persister_keeps:
  "cluster_load_persister i c = Inr c' \<Longrightarrow> k_net c' = k_net c \<and> kh_servers c' = kh_servers c"
  by (auto simp: cluster_load_persister_def go_bind_eq_Inr dest: copy_persister_keeps split: option.splits)

subsection \<open>The servers behind the names\<close>

definition hosts :: "Raft list Server \<Rightarrow> ('s, 'z) cluster_scheme \<Rightarrow> bool" where
  "hosts srv c \<longleftrightarrow> (\<forall>nm a. servers (k_net c) nm = Some a \<longrightarrow> a < length (kh_servers c) \<and> kh_servers c ! a = srv)"

lemma hosts_same:
  assumes "same_but_ends c c'" and "hosts srv c"
  shows "hosts srv c'" and "reliable (k_net c') = reliable (k_net c)" and "servers (k_net c') = servers (k_net c)"
proof -
  obtain rn where rn: "c' = c\<lparr>k_net := rn\<rparr>" "net_rest rn = net_rest (k_net c)" using assms(1) by (auto simp: same_but_ends_def)
  note eq = net_rest_eq(3,5) [OF rn(2)]
  show "hosts srv c'" using assms(2) by (simp add: hosts_def rn(1) eq)
  show "reliable (k_net c') = reliable (k_net c)" "servers (k_net c') = servers (k_net c)" by (simp_all add: rn(1) eq)
qed

lemma hosts_start:
  assumes "hosts srv c" and "kh_servers c' = kh_servers c @ [srv]" and "servers (k_net c') = (servers (k_net c))(nm \<mapsto> length (kh_servers c))"
  shows "hosts srv c'"
  using assms by (auto simp: hosts_def nth_append intro: less_SucI)

lemma hosts_stop:
  assumes "hosts srv c" and "kh_servers c' = kh_servers c" and "servers (k_net c') = (servers (k_net c))(nm := None)"
  shows "hosts srv c'"
  using assms by (auto simp: hosts_def split: if_splits)

text \<open>
  What a harness promises about the object it registers: \<open>StartServer\<close> puts a new copy of \<open>srv\<close> behind the
  server's name, \<open>ShutdownServer\<close> takes it away, and neither makes the network less reliable.
\<close>

locale serving_cluster =
  fixes start :: "(nat \<Rightarrow> string) \<Rightarrow> nat \<Rightarrow> ('s, 'z) cluster_scheme \<Rightarrow> ('s, 'z) cluster_scheme go"
    and stop :: "nat \<Rightarrow> ('s, 'z) cluster_scheme \<Rightarrow> ('s, 'z) cluster_scheme go" and srv :: "Raft list Server"
  assumes start_serves: "start nms i c = Inr c' \<Longrightarrow> kh_servers c' = kh_servers c @ [srv] \<and>
      servers (k_net c') = (servers (k_net c))(int i \<mapsto> length (kh_servers c)) \<and> reliable (k_net c') = reliable (k_net c)"
    and stop_serves: "stop i c = Inr c' \<Longrightarrow> kh_servers c' = kh_servers c \<and>
      servers (k_net c') = (servers (k_net c))(int i := None) \<and> reliable (k_net c') = reliable (k_net c)"
begin

lemma starts_host:
  "go_fold (\<lambda>i. start (names i) i) is c = Inr c' \<Longrightarrow> hosts srv c \<Longrightarrow> hosts srv c' \<and> reliable (k_net c') = reliable (k_net c)"
proof (induction "is" arbitrary: c)
  case (Cons i "is")
  then obtain c1 where c1: "start (names i) i c = Inr c1" "go_fold (\<lambda>i. start (names i) i) is c1 = Inr c'" by (auto simp: go_bind_eq_Inr)
  then show ?case using Cons.IH [OF c1(2)] hosts_start [OF Cons.prems(2)] start_serves [OF c1(1)] by auto
qed simp

lemma op_hosts: "run_op start stop op c = Inr c' \<Longrightarrow> hosts srv c \<Longrightarrow> hosts srv c' \<and> reliable (k_net c') = reliable (k_net c)"
proof (cases op)
  case (Do_partition p1 p2)
  then show "run_op start stop op c = Inr c' \<Longrightarrow> hosts srv c \<Longrightarrow> ?thesis" using hosts_same partition_same by fastforce
next
  case (Do_shutdown i)
  then show "run_op start stop op c = Inr c' \<Longrightarrow> hosts srv c \<Longrightarrow> ?thesis" using hosts_stop stop_serves by fastforce
next
  case (Do_restart nms i)
  then show "run_op start stop op c = Inr c' \<Longrightarrow> hosts srv c \<Longrightarrow> ?thesis" using hosts_start start_serves by fastforce
next
  case Do_connect_all
  then show "run_op start stop op c = Inr c' \<Longrightarrow> hosts srv c \<Longrightarrow> ?thesis" using hosts_same ConnectAll_same by fastforce
qed

lemma ops_host:
  "go_fold (run_op start stop) ops c = Inr c' \<Longrightarrow> hosts srv c \<Longrightarrow> hosts srv c' \<and> reliable (k_net c') = reliable (k_net c)"
proof (induction ops arbitrary: c)
  case (Cons op ops)
  then obtain c1 where c1: "run_op start stop op c = Inr c1" "go_fold (run_op start stop) ops c1 = Inr c'" by (auto simp: go_bind_eq_Inr)
  then show ?case using Cons.IH [OF c1(2)] op_hosts [OF c1(1) Cons.prems(2)] by simp
qed simp

lemma configured_hosts:
  assumes "go_bind (go_fold (\<lambda>i. start (names i) i) [0..<n] c0) (\<lambda>c1. go_bind (ConnectAll c1) (\<lambda>c2.
      Inr (c2\<lparr>k_net := Reliable r (k_net c2)\<rparr>))) = Inr c" and "k_net c0 = MakeNetwork"
  shows "hosts srv c \<and> reliable (k_net c) = r"
proof -
  obtain c1 c2 where s: "go_fold (\<lambda>i. start (names i) i) [0..<n] c0 = Inr c1" "ConnectAll c1 = Inr c2"
      "c = c2\<lparr>k_net := Reliable r (k_net c2)\<rparr>" using assms(1) by (auto simp: go_bind_eq_Inr)
  have "hosts srv c0" using assms(2) by (simp add: hosts_def MakeNetwork_def)
  then have "hosts srv c2" using starts_host [OF s(1)] hosts_same [OF ConnectAll_same [OF s(2)]] by simp
  then show ?thesis by (simp add: s(3) hosts_def Reliable_def)
qed

end

subsection \<open>The ends of a client\<close>

text \<open>What a test does to a client after \<open>makeClient\<close>, and which servers the client is linked to then.\<close>

datatype client_op = Do_connect "nat list" | Do_disconnect "nat list"

fun run_client_op :: "nat \<Rightarrow> client_op \<Rightarrow> ('s, 'z) cluster_scheme \<Rightarrow> ('s, 'z) cluster_scheme go" where
  "run_client_op ck (Do_connect tos) c = ConnectClient ck tos c"
| "run_client_op ck (Do_disconnect froms) c = DisconnectClient ck froms c"

fun link_op :: "client_op \<Rightarrow> nat set \<Rightarrow> nat set" where
  "link_op (Do_connect tos) L = L \<union> set tos"
| "link_op (Do_disconnect froms) L = L - set froms"

fun op_targets :: "client_op \<Rightarrow> nat set" where
  "op_targets (Do_connect tos) = set tos"
| "op_targets (Do_disconnect froms) = set froms"

definition linked :: "(nat \<Rightarrow> string) \<Rightarrow> nat \<Rightarrow> nat \<Rightarrow> nat set \<Rightarrow> ('s, 'z) cluster_scheme \<Rightarrow> bool" where
  "linked names n ck L c \<longleftrightarrow> k_clerks c ck = Some (map names [0..<n]) \<and> inj_on names {..<n} \<and>
     (\<forall>j<n. connections (k_net c) (names j) = Some (int j) \<and> (enabled (k_net c) (names j) \<longleftrightarrow> j \<in> L))"

lemma client_switch:
  assumes "linked names n ck L c" and "set tos \<subseteq> {..<n}"
  shows "\<exists>rn. set_ends Enable b (\<lambda>_. Inr True) (\<lambda>j. slice_get (map names [0..<n]) (int (tos ! j))) [0..<length tos] (k_net c) = Inr rn \<and>
    linked names n ck (if b then L \<union> set tos else L - set tos) (c\<lparr>k_net := rn\<rparr>)"
proof -
  have lt: "tos ! j < n" if "j < length tos" for j using assms(2) nth_mem [OF that] by auto
  obtain rn where rn: "set_ends Enable b (\<lambda>_. Inr True) (\<lambda>j. slice_get (map names [0..<n]) (int (tos ! j))) [0..<length tos] (k_net c) = Inr rn"
      "net_rest rn = net_rest (k_net c)" "\<And>e. enabled rn e = (if e \<in> (\<lambda>j. names (tos ! j)) ` {j \<in> set [0..<length tos]. True} then b else enabled (k_net c) e)"
    using net.set_ends_ok [of "[0..<length tos]" "\<lambda>_. Inr True" "\<lambda>_. True" "\<lambda>j. slice_get (map names [0..<n]) (int (tos ! j))"
        "\<lambda>j. names (tos ! j)" b "k_net c"] lt by auto
  have "set tos = (\<lambda>j. tos ! j) ` {..<length tos}" by (auto simp: set_conv_nth)
  then have "(\<lambda>j. names (tos ! j)) ` {j \<in> set [0..<length tos]. True} = names ` set tos"
    by (simp add: image_image lessThan_def)
  moreover have "names j \<in> names ` set tos \<longleftrightarrow> j \<in> set tos" if "j < n" for j
    using assms that by (auto simp: linked_def dest: inj_onD)
  ultimately have "enabled rn (names j) = (if j \<in> set tos then b else enabled (k_net c) (names j))" if "j < n" for j using rn(3) that by simp
  then show ?thesis using rn(1) assms(1) net_rest_eq(2) [OF rn(2)] by (intro exI [of _ rn]) (auto simp: linked_def)
qed

lemma client_op_linked:
  assumes "linked names n ck L c" and "op_targets op \<subseteq> {..<n}" and "run_client_op ck op c = Inr c'"
  shows "linked names n ck (link_op op L) c' \<and> same_but_ends c c'"
proof -
  have ck: "k_clerks c ck = Some (map names [0..<n])" using assms(1) by (simp add: linked_def)
  show ?thesis
  proof (cases op)
    case (Do_connect tos)
    then have "same_but_ends c c'" using assms(3) ConnectClient_same(1) by simp
    then show ?thesis using Do_connect client_switch [OF assms(1), of tos True] assms(2,3) ck
      by (auto simp: ConnectClient_def ConnectClientUnlocked_def)
  next
    case (Do_disconnect tos)
    then have "same_but_ends c c'" using assms(3) ConnectClient_same(2) by simp
    then show ?thesis using Do_disconnect client_switch [OF assms(1), of tos False] assms(2,3) ck
      by (auto simp: DisconnectClient_def DisconnectClientUnlocked_def)
  qed
qed

lemma client_ops_linked:
  assumes "linked names n ck L c" and "\<forall>op\<in>set ops. op_targets op \<subseteq> {..<n}" and "go_fold (run_client_op ck) ops c = Inr c'"
  shows "linked names n ck (fold link_op ops L) c' \<and> same_but_ends c c'"
  using assms
proof (induction ops arbitrary: c L)
  case Nil
  then show ?case by (simp add: same_but_ends_refl)
next
  case (Cons op ops)
  then obtain c1 where c1: "run_client_op ck op c = Inr c1" "go_fold (run_client_op ck) ops c1 = Inr c'" by (auto simp: go_bind_eq_Inr)
  then show ?case using Cons.IH client_op_linked [OF Cons.prems(1) _ c1(1)] Cons.prems(2) same_but_ends_trans by fastforce
qed

lemma link_ops_bound: "L \<subseteq> {..<n} \<Longrightarrow> \<forall>op\<in>set ops. op_targets op \<subseteq> {..<n} \<Longrightarrow> fold link_op ops L \<subseteq> {..<n}"
proof (induction ops arbitrary: L)
  case (Cons op ops)
  have "link_op op L \<subseteq> {..<n}" using Cons.prems by (cases op) auto
  then show ?case using Cons.IH Cons.prems(2) by simp
qed simp

text \<open>Ends that were just made under fresh names are linked to nothing.\<close>

lemma fresh_linked:
  assumes "fresh_ends names n rn = Inr (rn', es)" and "k_net c = rn'" and "k_clerks c ck = Some (map names [0..<n])"
  shows "linked names n ck {} c"
  using fresh_ends_facts [OF assms(1)] assms(2,3) by (simp add: linked_def)

lemma client_made:
  assumes F: "fresh_ends names n (k_net c) = Inr (rn, es)" and c1: "k_net c1 = rn" "k_clerks c1 ck = Some (map names [0..<n])" "kh_servers c1 = kh_servers c"
    and C: "ConnectClientUnlocked ck tos c1 = Inr c'" and "set tos \<subseteq> {..<n}" and "hosts srv c"
  shows "linked names n ck (set tos) c' \<and> hosts srv c' \<and> reliable (k_net c') = reliable (k_net c) \<and>
    servers (k_net c') = servers (k_net c) \<and> same_but_ends c1 c'"
proof -
  have s: "linked names n ck (set tos) c'" "same_but_ends c1 c'"
    using client_op_linked [OF fresh_linked [OF F c1(1,2)], of "Do_connect tos" c'] assms(6) C by (auto simp: ConnectClient_def)
  have "servers (k_net c1) = servers (k_net c)" "reliable (k_net c1) = reliable (k_net c)"
    using fresh_ends_facts [OF F] fresh_ends_reliable [OF F] by (simp_all add: c1)
  moreover from this have "hosts srv c1" using assms(7) c1(3) by (simp add: hosts_def)
  ultimately show ?thesis using s hosts_same [OF s(2), of srv] by auto
qed

text \<open>The clerk gets the ends in some order.\<close>

lemma handles_of_ends:
  assumes "fresh_ends names n rn = Inr (rn', es)"
  shows "mset (random_handles rnd es) = image_mset (\<lambda>j. \<lparr>ce_endname = names j\<rparr>) (mset_set {..<n})"
proof -
  have "es = map (\<lambda>j. \<lparr>ce_endname = names j\<rparr>) [0..<n]" using fresh_ends_facts [OF assms] by blast
  then show ?thesis by (simp add: random_handles_permutes mset_upt atLeast0LessThan)
qed

lemma linked_reachable:
  assumes "linked names n ck L c" and "j < n"
  shows "reachable_server (k_net c) (names j) nm a \<longleftrightarrow> nm = int j \<and> j \<in> L \<and> servers (k_net c) (int j) = Some a"
  using assms by (auto simp: linked_def reachable_server_def)

subsection \<open>Calls\<close>

text \<open>
  What the network makes of a request: it is processed with the dispatcher of the server's object in
  state \<open>st\<close>, and the reply goes back to the caller.
\<close>

definition serve_call ::
    "luck \<Rightarrow> 's Server list \<Rightarrow> 's \<Rightarrow> ('e, 'n) poll list \<Rightarrow> ('e, 'n) Network \<Rightarrow> ('e, 'n) Network \<Rightarrow> 'e reqMsg \<Rightarrow> replyMsg go_run" where
  "serve_call l srvs st polls rn1 rn req =
     run_bind (processReq l rn (\<lambda>a. go_bind (server_dispatch req (srvs ! a) st) (\<lambda>(_, _, reply). Inr reply)) polls rn1 req)
       (\<lambda>out. Some (Inr (o_reply out)))"

lemma call_unreachable:
  assumes "\<And>nm a. \<not> reachable_server rn e nm a" and "enc args = Some bs"
  shows "Call enc dec True (serve_call l srvs st polls rn1 rn) \<lparr>ce_endname = e\<rparr> svcMeth args reply = Some (Inr (False, reply))"
proof -
  let ?req = "\<lparr>rq_endname = e, rq_svcMeth = svcMeth, rq_args = bs\<rparr>"
  have "readEndnameInfo rn (rq_endname ?req) \<noteq> (True, Some nm, Some a, rel, reord)" for nm a rel reord
    by (rule readEndnameInfo_cases [of rn "rq_endname ?req"]) (use assms(1) in auto)
  from processReq_unreachable [OF this] show ?thesis using assms(2) by (simp add: Call_def serve_call_def noReply_def)
qed

lemma call_reachable:
  assumes "reliable rn" and "reachable_server rn e nm a" and "services (srvs ! a) s = Some svc" and "svc_methods svc m = Some meth"
    and "CHR ''.'' \<notin> set m" and "HandlerReturned \<in> set polls"
    and "\<forall>rn'. rn' = rn1 \<or> Tick rn' \<in> set polls \<longrightarrow> enabled rn' e \<and> servers rn' nm = Some a"
    and "enc args = Some bs" and "dec (snd (m_Func meth st bs)) = Some v"
  shows "Call enc dec True (serve_call l srvs st polls rn1 rn) \<lparr>ce_endname = e\<rparr> (s @ ''.'' @ m) args reply = Some (Inr (True, v))"
proof -
  let ?req = "\<lparr>rq_endname = e, rq_svcMeth = s @ ''.'' @ m, rq_args = bs\<rparr>"
  let ?dispatch = "\<lambda>a. go_bind (server_dispatch ?req (srvs ! a) st) (\<lambda>(_, _, reply). Inr reply)"
  have d: "?dispatch a = Inr \<lparr>rp_ok = True, rp_reply = snd (m_Func meth st bs)\<rparr>"
    using server_dispatch_finds_method [OF assms(5), of ?req s "srvs ! a" svc meth st] assms(3,4) by simp
  have "\<not> isServerDead rn' (rq_endname ?req) nm a" if "rn' = rn1 \<or> Tick rn' \<in> set polls" for rn'
    using assms(7) [rule_format, OF that] by (simp add: isServerDead_def)
  then obtain ms where "processReq l rn ?dispatch polls rn1 ?req =
      Some (Inr \<lparr>o_reply = \<lparr>rp_ok = True, rp_reply = snd (m_Func meth st bs)\<rparr>, o_delay = ms, o_bytes = length (snd (m_Func meth st bs))\<rparr>)"
    using reliable_delivers [of rn ?req nm a ?dispatch, OF assms(1) _ d assms(6)] assms(2) by fastforce
  then show ?thesis using assms(8,9) by (simp add: Call_def serve_call_def)
qed

text \<open>
  A call as the clients see it: \<open>Some\<close> reply when \<open>Call\<close> returns true. The handler \<open>meth\<close> answers with
  \<open>answer\<close> on decoded arguments, and the network does not change during the call.
\<close>

definition rpc ::
    "('a \<Rightarrow> string option) \<Rightarrow> (string \<Rightarrow> 'r option) \<Rightarrow> ('e reqMsg \<Rightarrow> replyMsg go_run) \<Rightarrow> string \<Rightarrow> 'r \<Rightarrow> 'e ClientEnd \<Rightarrow> 'a \<Rightarrow> 'r option" where
  "rpc enc dec serve svcMeth zero e args =
     (case Call enc dec True serve e svcMeth args zero of Some (Inr (ok, reply)) \<Rightarrow> if ok then Some reply else None | _ \<Rightarrow> None)"

definition undisturbed :: "('e, 'n) Network \<Rightarrow> ('e, 'n) poll list \<Rightarrow> bool" where
  "undisturbed rn polls \<longleftrightarrow> HandlerReturned \<in> set polls \<and> (\<forall>rn'. Tick rn' \<in> set polls \<longrightarrow> rn' = rn)"

definition answers ::
    "('a \<Rightarrow> string option) \<Rightarrow> (string \<Rightarrow> 'r option) \<Rightarrow> 's method_info \<Rightarrow> ('s \<Rightarrow> 'a \<Rightarrow> 'r) \<Rightarrow> bool" where
  "answers enc dec meth answer \<longleftrightarrow> (\<forall>args. \<exists>bs. enc args = Some bs \<and> (\<forall>st. dec (snd (m_Func meth st bs)) = Some (answer st args)))"

lemma linked_rpc:
  assumes L: "linked names n ck L c" and H: "hosts srv c" and R: "reliable (k_net c)" and j: "j < n"
    and S: "services srv s = Some svc" "svc_methods svc m = Some meth" "CHR ''.'' \<notin> set m"
    and A: "answers enc dec meth answer" and U: "undisturbed (k_net c) polls"
  shows "rpc enc dec (serve_call l (kh_servers c) st polls (k_net c) (k_net c)) (s @ ''.'' @ m) zero \<lparr>ce_endname = names j\<rparr> args =
    (if j \<in> L \<and> servers (k_net c) (int j) \<noteq> None then Some (answer st args) else None)"
proof (cases "j \<in> L \<and> servers (k_net c) (int j) \<noteq> None")
  case True
  then obtain a where a: "servers (k_net c) (int j) = Some a" by auto
  obtain bs where bs: "enc args = Some bs" "dec (snd (m_Func meth st bs)) = Some (answer st args)" using A by (auto simp: answers_def)
  have r: "reachable_server (k_net c) (names j) (int j) a" using linked_reachable [OF L j] True a by simp
  have "services (kh_servers c ! a) s = Some svc" using H a S(1) by (auto simp: hosts_def)
  moreover have "enabled rn' (names j) \<and> servers rn' (int j) = Some a" if "rn' = k_net c \<or> Tick rn' \<in> set polls" for rn'
    using U that r by (auto simp: undisturbed_def reachable_server_def)
  moreover have "HandlerReturned \<in> set polls" using U by (simp add: undisturbed_def)
  ultimately have "Call enc dec True (serve_call l (kh_servers c) st polls (k_net c) (k_net c)) \<lparr>ce_endname = names j\<rparr> (s @ ''.'' @ m) args zero =
      Some (Inr (True, answer st args))"
    using call_reachable [where enc = enc and dec = dec, OF R r _ S(2,3) _ _ bs] by blast
  then show ?thesis using True by (simp add: rpc_def)
next
  case False
  obtain bs where bs: "enc args = Some bs" using A by (auto simp: answers_def)
  have un: "\<not> reachable_server (k_net c) (names j) nm a" for nm a using linked_reachable [OF L j] False by auto
  show ?thesis unfolding rpc_def call_unreachable [where enc = enc, OF un bs] using False by auto
qed

end
