(* ===== verification/Kv_Config.thy ===== *)
theory Kv_Config
  imports Cluster_Calls
begin

text \<open>
  The test harness of \<open>kvraft\<close> (\<open>kvraft/config.go\<close>): starting and stopping servers, clients with their
  own ends, finding a leader, statistics. Server indices are natural numbers; random numbers, clock
  readings, the method tables that reflection yields and what the peers answer are arguments.
\<close>

subsection \<open>State\<close>

record kv_config = "KVServer cluster" +
  k_maxraftstate :: int
  k_t0 :: int
  k_rpcs0 :: int
  k_ops :: "32 word"
  kh_clerks :: "string ClientEnd kv_Clerk list"

definition kv_cleanup :: "bool \<Rightarrow> int \<Rightarrow> kv_config \<Rightarrow> kv_config go" where
  "kv_cleanup failed now cfg =
     (let c1 = fold (\<lambda>i c. case k_servers c ! i of None \<Rightarrow> c
            | Some kv \<Rightarrow> let (kv', h) = kv_Kill kv (kh_rafts c)
                in c\<lparr>k_servers := (k_servers c)[i := Some kv'], kh_rafts := h\<rparr>) [0..<length (k_servers cfg)] cfg
      in go_bind (Cleanup (k_net c1)) (\<lambda>rn.
         go_bind (cluster_checkTimeout failed now c1) (\<lambda>_. Inr (c1\<lparr>k_net := rn\<rparr>))))"

definition kv_SnapshotSize :: "kv_config \<Rightarrow> nat go" where
  "kv_SnapshotSize = max_size SnapshotSize"

subsection \<open>Looking for a leader\<close>

definition Leader :: "(nat \<Rightarrow> int \<times> bool) \<Rightarrow> kv_config \<Rightarrow> (bool \<times> nat) go" where
  "Leader get cfg =
     go_bind (go_fold (\<lambda>i found. case found of Some _ \<Rightarrow> Inr found
         | None \<Rightarrow> go_bind (slice_get (k_servers cfg) (int i)) (\<lambda>kv. case kv of None \<Rightarrow> Inl NilDereference
             | Some _ \<Rightarrow> Inr (if snd (get i) then Some i else None))) [0..<k_n cfg] None) (\<lambda>found.
       Inr (case found of None \<Rightarrow> (False, 0) | Some i \<Rightarrow> (True, i)))"

definition make_partition :: "(nat \<Rightarrow> int \<times> bool) \<Rightarrow> kv_config \<Rightarrow> (nat list \<times> nat list) go" where
  "make_partition get cfg = go_bind (Leader get cfg) (\<lambda>(_, l). deal_all (k_n cfg) l)"

subsection \<open>Clients\<close>

text \<open>A clerk is named by its address; \<open>names j\<close> is the random name of its end \<open>j\<close>.\<close>

definition kv_makeClient :: "(nat \<Rightarrow> string) \<Rightarrow> (nat \<Rightarrow> nat) \<Rightarrow> nat list \<Rightarrow> kv_config \<Rightarrow> (nat \<times> kv_config) go" where
  "kv_makeClient names rnd tos cfg =
     go_bind (fresh_ends names (k_n cfg) (k_net cfg)) (\<lambda>(rn, es).
     let ck = length (kh_clerks cfg);
         c1 = cfg\<lparr>k_net := rn, kh_clerks := kh_clerks cfg @ [kv_MakeClerk (random_handles rnd es)],
                 k_clerks := (k_clerks cfg)(ck \<mapsto> map names [0..<k_n cfg]), k_nextClientId := k_nextClientId cfg + 1\<rparr>
     in go_bind (ConnectClientUnlocked ck tos c1) (\<lambda>c2. Inr (ck, c2)))"

subsection \<open>Stopping and starting servers\<close>

definition ShutdownServer :: "nat \<Rightarrow> kv_config \<Rightarrow> kv_config go" where
  "ShutdownServer i cfg =
     go_bind (disconnectUnlocked i (All cfg) cfg) (\<lambda>c1.
     go_bind (cluster_copy_persister i (c1\<lparr>k_net := DeleteServer (int i) (k_net c1)\<rparr>)) (\<lambda>c2.
     go_bind (slice_get (k_servers c2) (int i)) (\<lambda>kv. case kv of
       None \<Rightarrow> Inr c2
     | Some kv \<Rightarrow> Inr (c2\<lparr>kh_rafts := snd (kv_Kill kv (kh_rafts c2)), k_servers := (k_servers c2)[i := None]\<rparr>))))"

definition kv_StartServer ::
    "Raft list method_info list \<Rightarrow> Raft list method_info list \<Rightarrow> (nat \<Rightarrow> string) \<Rightarrow> nat \<Rightarrow> kv_config \<Rightarrow> kv_config go" where
  "kv_StartServer kv_ms rf_ms names i cfg =
     go_bind (slice_set (k_endnames cfg) (int i) (Some (map names [0..<k_n cfg]))) (\<lambda>eds.
     go_bind (fresh_ends names (k_n cfg) (k_net cfg)) (\<lambda>(rn, es).
     let c1 = cfg\<lparr>k_endnames := eds, k_net := rn\<rparr> in
     go_bind (cluster_load_persister i c1) (\<lambda>c2.
     let a = length (kh_persisters c2) - 1;
         (kv, h) = StartKVServer es (int i) a (kh_persisters c2 ! a) (k_maxraftstate c2) (kh_rafts c2)
     in go_bind (slice_set (k_servers c2) (int i) (Some kv)) (\<lambda>svs.
        let srv = AddService (MakeService ''Raft'' rf_ms) (AddService (MakeService ''KVServer'' kv_ms) MakeServer)
        in Inr (c2\<lparr>kh_rafts := h, k_servers := svs, kh_servers := kh_servers c2 @ [srv],
                   k_net := AddServer (int i) (length (kh_servers c2)) (k_net c2)\<rparr>)))))"

definition kv_new_config :: "int \<Rightarrow> nat \<Rightarrow> int \<Rightarrow> kv_config" where
  "kv_new_config now n maxraftstate =
     \<lparr>k_net = MakeNetwork, k_n = n, k_servers = replicate n None, k_saved = replicate n None, k_endnames = replicate n None,
      k_clerks = Map.empty, k_nextClientId = int n + 1000, k_start = now, kh_persisters = [], kh_rafts = [], kh_servers = [],
      k_maxraftstate = maxraftstate, k_t0 = 0, k_rpcs0 = 0, k_ops = 0, kh_clerks = []\<rparr>"

definition kv_make_config ::
    "Raft list method_info list \<Rightarrow> Raft list method_info list \<Rightarrow> (nat \<Rightarrow> nat \<Rightarrow> string) \<Rightarrow> int \<Rightarrow> nat \<Rightarrow> bool \<Rightarrow> int
     \<Rightarrow> kv_config go" where
  "kv_make_config kv_ms rf_ms names now n unreliable maxraftstate =
     go_bind (go_fold (\<lambda>i. kv_StartServer kv_ms rf_ms (names i) i) [0..<n] (kv_new_config now n maxraftstate)) (\<lambda>c1.
     go_bind (ConnectAll c1) (\<lambda>c2. Inr (c2\<lparr>k_net := Reliable (\<not> unreliable) (k_net c2)\<rparr>)))"

subsection \<open>Statistics\<close>

definition kv_rpcTotal :: "kv_config \<Rightarrow> int" where
  "kv_rpcTotal cfg = GetTotalCount (k_net cfg)"

definition kv_begin :: "int \<Rightarrow> kv_config \<Rightarrow> kv_config" where
  "kv_begin now cfg = cfg\<lparr>k_t0 := now, k_rpcs0 := kv_rpcTotal cfg, k_ops := 0\<rparr>"

definition kv_count_op :: "kv_config \<Rightarrow> kv_config" where
  "kv_count_op cfg = cfg\<lparr>k_ops := k_ops cfg + 1\<rparr>"

definition kv_end :: "bool \<Rightarrow> int \<Rightarrow> kv_config \<Rightarrow> (int \<times> nat \<times> int \<times> int) option go" where
  "kv_end failed now cfg =
     go_bind (cluster_checkTimeout failed now cfg) (\<lambda>_.
       if \<not> failed then Inr (Some (now - k_t0 cfg, k_n cfg, kv_rpcTotal cfg - k_rpcs0 cfg, sint (k_ops cfg))) else Inr None)"

subsection \<open>A configuration in use\<close>

interpretation kvraft: cluster_lifecycle "kv_StartServer kv_ms rf_ms" ShutdownServer for kv_ms rf_ms
proof
  fix c :: kv_config and n k nms rn es
  assume "length (k_endnames c) = n" "length (k_saved c) = n" "length (k_servers c) = n" "k_n c = n" "k < n"
    "fresh_ends nms n (k_net c) = Inr (rn, es)"
  then show "\<exists>c'. kv_StartServer kv_ms rf_ms nms k c = Inr c' \<and> k_n c' = n \<and> length (k_saved c') = n \<and>
      k_endnames c' = (k_endnames c)[k := Some (map nms [0..<n])] \<and>
      (\<exists>kv. k_servers c' = (k_servers c)[k := Some kv]) \<and> (\<exists>a. k_net c' = AddServer (int k) a rn)"
    by (cases "k_saved c ! k"; simp add: kv_StartServer_def cluster_load_persister_def cluster_copy_persister_def StartKVServer_def Let_def; blast)
next
  fix nms i and c c' :: kv_config
  assume "kv_StartServer kv_ms rf_ms nms i c = Inr c'"
  then show "\<exists>rn es. fresh_ends nms (k_n c) (k_net c) = Inr (rn, es)" by (auto simp: kv_StartServer_def go_bind_eq_Inr)
next
  fix i rn and c :: kv_config
  assume "disconnectUnlocked i (All c) c = Inr (c\<lparr>k_net := rn\<rparr>)" "i < length (k_servers c)" "i < length (k_saved c)"
  then show "\<exists>c'. ShutdownServer i c = Inr c' \<and> k_n c' = k_n c \<and> k_endnames c' = k_endnames c \<and> length (k_saved c') = length (k_saved c) \<and>
        k_servers c' = (k_servers c)[i := None] \<and> k_net c' = DeleteServer (int i) rn"
    by (cases "k_saved c ! i"; cases "k_servers c ! i") (simp_all add: ShutdownServer_def cluster_copy_persister_def list_update_None)
qed

text \<open>The object that a server registers: the services of the store and of its Raft peer.\<close>

definition kv_object :: "Raft list method_info list \<Rightarrow> Raft list method_info list \<Rightarrow> Raft list Server" where
  "kv_object kv_ms rf_ms = AddService (MakeService ''Raft'' rf_ms) (AddService (MakeService ''KVServer'' kv_ms) MakeServer)"

lemma kv_object_service: "services (kv_object kv_ms rf_ms) ''KVServer'' = Some (MakeService ''KVServer'' kv_ms)"
  by (simp add: kv_object_def AddService_def MakeService_def MakeServer_def)

interpretation kvcalls: serving_cluster "kv_StartServer kv_ms rf_ms" ShutdownServer "kv_object kv_ms rf_ms" for kv_ms rf_ms
proof
  fix nms i and c c' :: kv_config
  assume run: "kv_StartServer kv_ms rf_ms nms i c = Inr c'"
  then obtain rn es where F: "fresh_ends nms (k_n c) (k_net c) = Inr (rn, es)" using kvraft.start_fresh by blast
  have "servers rn = servers (k_net c)" "reliable rn = reliable (k_net c)" using fresh_ends_facts [OF F] fresh_ends_reliable [OF F] by blast+
  moreover obtain eds c2 where c2: "cluster_load_persister i (c\<lparr>k_endnames := eds, k_net := rn\<rparr>) = Inr c2"
      "kh_servers c' = kh_servers c2 @ [kv_object kv_ms rf_ms]" "k_net c' = AddServer (int i) (length (kh_servers c2)) (k_net c2)"
    using run by (auto simp: kv_StartServer_def kv_object_def go_bind_eq_Inr F Let_def StartKVServer_def)
  moreover note load_persister_keeps [OF c2(1)]
  ultimately show "kh_servers c' = kh_servers c @ [kv_object kv_ms rf_ms] \<and>
      servers (k_net c') = (servers (k_net c))(int i \<mapsto> length (kh_servers c)) \<and> reliable (k_net c') = reliable (k_net c)"
    by (simp add: AddServer_def)
next
  fix i and c c' :: kv_config
  assume "ShutdownServer i c = Inr c'"
  then obtain c1 where c1: "disconnectUnlocked i (All c) c = Inr c1" "kh_servers c' = kh_servers c1" "k_net c' = DeleteServer (int i) (k_net c1)"
    by (auto simp: ShutdownServer_def go_bind_eq_Inr dest!: copy_persister_keeps split: option.splits)
  then show "kh_servers c' = kh_servers c \<and> servers (k_net c') = (servers (k_net c))(int i := None) \<and> reliable (k_net c') = reliable (k_net c)"
    using disconnectUnlocked_same [OF c1(1)] net_rest_eq(3,5) [of "k_net c1" "k_net c"] by (auto simp: same_but_ends_def DeleteServer_def)
qed

lemma kv_make_config_sim:
  assumes "names_distinct names n"
  shows "\<exists>c. kv_make_config kv_ms rf_ms names now n unreliable m = Inr c \<and> cluster_sim n (all_up n) c"
  unfolding kv_make_config_def
  by (rule kvraft.configured [OF assms]) (simp add: cluster_started_0 kv_new_config_def)

text \<open>Any configuration that a test can reach is in step with the specification.\<close>

lemma kv_reached_sim:
  assumes "names_distinct names n" and "kv_make_config kv_ms rf_ms names now n unreliable m = Inr c0" and "ops_allowed n ops (all_up n)"
    and "go_fold (run_op (kv_StartServer kv_ms rf_ms) ShutdownServer) ops c0 = Inr c"
  shows "cluster_sim n (fold (spec_op n) ops (all_up n)) c"
proof -
  have "cluster_sim n (all_up n) c0" using kv_make_config_sim [OF assms(1), of kv_ms rf_ms now unreliable m] assms(2) by simp
  then show ?thesis by (rule kvraft.sim_ops [OF _ assms(3,4)])
qed

text \<open>Behind a name that is registered is the server's object, and nothing makes the network unreliable.\<close>

lemma kv_reached_hosts:
  assumes "kv_make_config kv_ms rf_ms names now n unreliable m = Inr c0"
    and "go_fold (run_op (kv_StartServer kv_ms rf_ms) ShutdownServer) ops c0 = Inr c"
  shows "hosts (kv_object kv_ms rf_ms) c \<and> reliable (k_net c) = (\<not> unreliable)"
proof -
  have "hosts (kv_object kv_ms rf_ms) c0 \<and> reliable (k_net c0) = (\<not> unreliable)"
    by (rule kvcalls.configured_hosts [OF assms(1) [unfolded kv_make_config_def]]) (simp add: kv_new_config_def)
  then show ?thesis using kvcalls.ops_host [OF assms(2)] by blast
qed

text \<open>A new client has an end for every server, in a random order, linked to those it was made for.\<close>

lemma kv_makeClient_linked:
  assumes "kv_makeClient names rnd tos c = Inr (ck, c')" and "set tos \<subseteq> {..<k_n c}" and "hosts srv c"
  shows "linked names (k_n c) ck (set tos) c' \<and> hosts srv c' \<and> reliable (k_net c') = reliable (k_net c) \<and>
    servers (k_net c') = servers (k_net c) \<and> (\<exists>es. kh_clerks c' ! ck = kv_MakeClerk es \<and> mset es = image_mset (\<lambda>j. \<lparr>ce_endname = names j\<rparr>) (mset_set {..<k_n c}))"
proof -
  obtain rn es where F: "fresh_ends names (k_n c) (k_net c) = Inr (rn, es)" using assms(1) by (auto simp: kv_makeClient_def go_bind_eq_Inr)
  define c1 where "c1 = c\<lparr>k_net := rn, kh_clerks := kh_clerks c @ [kv_MakeClerk (random_handles rnd es)],
      k_clerks := (k_clerks c)(ck \<mapsto> map names [0..<k_n c]), k_nextClientId := k_nextClientId c + 1\<rparr>"
  have ck: "ck = length (kh_clerks c)" and C: "ConnectClientUnlocked ck tos c1 = Inr c'"
    using assms(1) by (auto simp: kv_makeClient_def go_bind_eq_Inr F Let_def c1_def)
  have M: "linked names (k_n c) ck (set tos) c' \<and> hosts srv c' \<and> reliable (k_net c') = reliable (k_net c) \<and>
      servers (k_net c') = servers (k_net c) \<and> same_but_ends c1 c'"
    by (rule client_made [OF F _ _ _ C assms(2,3)]) (simp_all add: c1_def)
  then have "kh_clerks c' ! ck = kv_MakeClerk (random_handles rnd es)" by (auto simp: same_but_ends_def c1_def ck)
  then show ?thesis using M handles_of_ends [OF F] by blast
qed

text \<open>
  What a client of the store gets: after any operations on the servers and on the client, a call of a
  method of \<open>KVServer\<close> through the end for server \<open>j\<close> is answered by the method exactly when the client is
  linked to \<open>j\<close> and \<open>j\<close> is up.
\<close>

lemma kv_client_rpc:
  assumes "names_distinct names n" and "kv_make_config kv_ms rf_ms names now n False m = Inr c0" and "ops_allowed n ops (all_up n)"
    and "go_fold (run_op (kv_StartServer kv_ms rf_ms) ShutdownServer) ops c0 = Inr c1" and "fold (spec_op n) ops (all_up n) = (on, up)"
    and "kv_makeClient cnames rnd tos c1 = Inr (ck, c2)" and "set tos \<subseteq> {..<n}" and "\<forall>op\<in>set cops. op_targets op \<subseteq> {..<n}"
    and "go_fold (run_client_op ck) cops c2 = Inr c" and "j < n" and "svc_methods (MakeService ''KVServer'' kv_ms) meth = Some mi"
    and "CHR ''.'' \<notin> set meth" and "answers enc dec mi answer" and "undisturbed (k_net c) polls"
  shows "rpc enc dec (serve_call l (kh_servers c) st polls (k_net c) (k_net c)) (''KVServer'' @ ''.'' @ meth) zero \<lparr>ce_endname = cnames j\<rparr> args =
    (if j \<in> fold link_op cops (set tos) \<and> j \<in> up then Some (answer st args) else None)"
proof -
  have sim: "cluster_sim n (on, up) c1" using kv_reached_sim [OF assms(1-4)] assms(5) by simp
  then have kn: "k_n c1 = n" and up: "servers (k_net c1) (int j) \<noteq> None \<longleftrightarrow> j \<in> up" using assms(10) by (auto simp: cluster_sim_def)
  have h: "hosts (kv_object kv_ms rf_ms) c1" "reliable (k_net c1)" using kv_reached_hosts [OF assms(2,4)] by simp_all
  have c2: "linked cnames n ck (set tos) c2" "hosts (kv_object kv_ms rf_ms) c2" "reliable (k_net c2)" "servers (k_net c2) = servers (k_net c1)"
    using kv_makeClient_linked [OF assms(6) _ h(1)] assms(7) h(2) by (simp_all add: kn)
  have c: "linked cnames n ck (fold link_op cops (set tos)) c" "same_but_ends c2 c" using client_ops_linked [OF c2(1) assms(8,9)] by auto
  note s = hosts_same [OF c(2) c2(2)]
  have "reliable (k_net c)" using s(2) c2(3) by simp
  from linked_rpc [OF c(1) s(1) this assms(10) kv_object_service assms(11-14)] show ?thesis using s(3) c2(4) up by simp
qed

text \<open>
  \<open>Leader\<close> stops at the first server that is down or claims to lead: it panics on the former, so a server
  that was shut down must not come before the leader.
\<close>

lemma Leader_eq:
  assumes "length (k_servers c) = k_n c"
  shows "Leader get c = (case List.find (\<lambda>i. k_servers c ! i = None \<or> snd (get i)) (All c) of
      None \<Rightarrow> Inr (False, 0)
    | Some i \<Rightarrow> if k_servers c ! i = None then Inl NilDereference else Inr (True, i))"
proof -
  let ?f = "\<lambda>i found. case found of Some _ \<Rightarrow> Inr found | None \<Rightarrow> go_bind (slice_get (k_servers c) (int i)) (\<lambda>kv. case kv of
     None \<Rightarrow> Inl NilDereference | Some _ \<Rightarrow> Inr (if snd (get i) then Some i else None))"
  have stay: "go_fold ?f is (Some x) = Inr (Some x)" for "is" x by (induction "is") auto
  have "set is \<subseteq> {..<k_n c} \<Longrightarrow> go_fold ?f is None = (case List.find (\<lambda>i. k_servers c ! i = None \<or> snd (get i)) is of
      None \<Rightarrow> Inr None | Some i \<Rightarrow> if k_servers c ! i = None then Inl NilDereference else Inr (Some i))" for "is"
  proof (induction "is")
    case (Cons i "is")
    then show ?case using assms stay by (cases "k_servers c ! i") simp_all
  qed simp
  from this [of "All c"] show ?thesis by (simp add: Leader_def All_def atLeast0LessThan split: option.splits)
qed

subsection \<open>Properties\<close>

text \<open>
  C18. A partition separates: in a test whose end names are distinct, after any earlier partitions,
  shutdowns, restarts and \<open>ConnectAll\<close>s, \<open>partition(p1, p2)\<close> of disjoint groups does not fail, and from then
  on a server of a group reaches a server of either group exactly when both are in the same group and
  the other one runs; which servers outside the groups can reach each other does not change.
\<close>

theorem partition_separates:
  assumes "names_distinct names n" and "kv_make_config kv_ms rf_ms names now n unreliable m = Inr c0" and "ops_allowed n ops (all_up n)"
    and "go_fold (run_op (kv_StartServer kv_ms rf_ms) ShutdownServer) ops c0 = Inr c" and "two_sides n (p1, p2)"
  shows "\<exists>c'. cluster_partition p1 p2 c = Inr c' \<and> (\<forall>i<n. \<forall>j<n. \<exists>e. endname_at (k_endnames c) i j = Inr e \<and>
    ((\<exists>a. reachable_server (k_net c') e (int j) a) \<longleftrightarrow>
      (if i \<in> set (p1 @ p2) \<and> j \<in> set (p1 @ p2) then (i \<in> set p1 \<longleftrightarrow> j \<in> set p1) \<and> k_servers c ! j \<noteq> None
       else \<exists>a. reachable_server (k_net c) e (int j) a)))"
proof -
  obtain on up where "cluster_sim n (on, up) c" using kv_reached_sim [OF assms(1-4)] by (metis surj_pair)
  from sim_separates [OF this assms(5)] show ?thesis .
qed

theorem partition_separates_witness:
  "\<exists>(c :: kv_config) e0 e1. (\<not> (\<exists>a. reachable_server (k_net c) e0 1 a)) \<and> (\<exists>a. reachable_server (k_net c) e1 2 a)"
proof -
  note d = sample_endnames_distinct
  obtain c0 where c0: "kv_make_config [] [] sample_endnames 0 3 False 0 = Inr c0" "cluster_sim 3 (all_up 3) c0" using kv_make_config_sim [OF d] by blast
  have up: "k_servers c0 ! 2 \<noteq> None" using c0(2) by (simp add: cluster_sim_def all_up_def)
  have t: "two_sides 3 ([0, 2], [1])" by (simp add: two_sides_def)
  have a: "ops_allowed 3 [] (all_up 3)" "go_fold (run_op (kv_StartServer [] []) ShutdownServer) [] c0 = Inr c0" by simp_all
  obtain c' :: kv_config where R: "\<forall>i<3. \<forall>j<3. \<exists>e. endname_at (k_endnames c0) i j = Inr e \<and> ((\<exists>a. reachable_server (k_net c') e (int j) a) \<longleftrightarrow>
      (if i \<in> set ([0, 2] @ [1]) \<and> j \<in> set ([0, 2] @ [1]) then (i \<in> set [0, 2] \<longleftrightarrow> j \<in> set [0, 2]) \<and> k_servers c0 ! j \<noteq> None
       else \<exists>a. reachable_server (k_net c0) e (int j) a))"
    using partition_separates [OF d c0(1) a t] by blast
  from R [rule_format, of 0 1] R [rule_format, of 0 2] up show ?thesis by auto
qed

text \<open>
  C37. \<open>make_partition\<close> puts the leader in the minority: with an odd number of servers, at least
  three, after any operations of a test, it looks for the first server that is down or claims to lead.
  If that one is down it panics with a nil dereference. Otherwise it returns two disjoint groups that
  cover all servers, the first one server larger than the second, and the second ends with the first
  server that claims to lead (server 0 when none does).
\<close>

theorem make_partition_isolates_leader:
  assumes "names_distinct names n" and "kv_make_config kv_ms rf_ms names now n unreliable m = Inr c0" and "ops_allowed n ops (all_up n)"
    and "go_fold (run_op (kv_StartServer kv_ms rf_ms) ShutdownServer) ops c0 = Inr c" and "odd n" and "3 \<le> n"
  shows "case List.find (\<lambda>i. k_servers c ! i = None \<or> snd (get i)) [0..<n] of
      Some l \<Rightarrow> if k_servers c ! l = None then make_partition get c = Inl NilDereference
        else \<exists>p1 p2. make_partition get c = Inr (p1, p2) \<and> distinct (p1 @ p2) \<and> set (p1 @ p2) = {..<n} \<and> length p1 = length p2 + 1 \<and> last p2 = l \<and> l \<in> set p2
    | None \<Rightarrow> \<exists>p1 p2. make_partition get c = Inr (p1, p2) \<and> distinct (p1 @ p2) \<and> set (p1 @ p2) = {..<n} \<and> length p1 = length p2 + 1 \<and> last p2 = 0 \<and> 0 \<in> set p2"
proof -
  have M: "k_n c = n" "length (k_servers c) = k_n c" using kv_reached_sim [OF assms(1-4)] by (auto simp: cluster_sim_def)
  have deal: "\<exists>p1 p2. deal_all n l = Inr (p1, p2) \<and> distinct (p1 @ p2) \<and> set (p1 @ p2) = {..<n} \<and> length p1 = length p2 + 1 \<and> last p2 = l \<and> l \<in> set p2"
    if "l < n" for l using deal_all_sides [OF assms(5,6) that] by fastforce
  have lt: "l < n" if "List.find (\<lambda>i. k_servers c ! i = None \<or> snd (get i)) [0..<n] = Some l" for l using that by (auto simp: find_Some_iff)
  show ?thesis using deal lt deal [of 0] assms(6)
    by (auto simp: make_partition_def Leader_eq [OF M(2)] All_def M(1) split: option.splits)
qed

theorem make_partition_isolates_leader_witness:
  "\<exists>c p1 p2. make_partition (\<lambda>i. (7, i = 1)) c = Inr (p1, p2) \<and> set (p1 @ p2) = {..<3} \<and> last p2 = 1"
proof -
  note d = sample_endnames_distinct
  obtain c0 where c0: "kv_make_config [] [] sample_endnames 0 3 False 0 = Inr c0" "cluster_sim 3 (all_up 3) c0" using kv_make_config_sim [OF d] by blast
  have up: "k_servers c0 ! 0 \<noteq> None" "k_servers c0 ! 1 \<noteq> None" using c0(2) by (simp_all add: cluster_sim_def all_up_def)
  have "List.find (\<lambda>i. k_servers c0 ! i = None \<or> snd (7 :: int, i = 1)) [0..<3] = Some 1" using up by (simp add: upt_rec)
  with make_partition_isolates_leader [OF d c0(1), of "[]" c0 "\<lambda>i. (7, i = 1)"] up
  obtain p1 p2 where "make_partition (\<lambda>i. (7, i = 1)) c0 = Inr (p1, p2)" "set (p1 @ p2) = {..<3}" "last p2 = 1" by auto
  then show ?thesis by blast
qed

end
