(* ===== verification/Ctrler_Config.thy ===== *)
theory Ctrler_Config
  imports Cluster_Calls
begin

text \<open>
  The test harness of \<open>shardctrler\<close> (\<open>shardctrler/config.go\<close>). The operations that the package shares word
  for word with \<open>kvraft\<close> are those of \<open>Cluster\<close>, at this package's configuration; starting, stopping and
  creating clients go through the controller's own server and clerk, and \<open>Leader\<close> skips servers that
  are down.
\<close>

subsection \<open>State\<close>

record ctrler_config = "ShardCtrler cluster" +
  ch_clerks :: "string ClientEnd ctrler_Clerk list"

definition ctrler_checkTimeout :: "bool \<Rightarrow> int \<Rightarrow> ctrler_config \<Rightarrow> unit go" where
  "ctrler_checkTimeout = cluster_checkTimeout"

definition ctrler_cleanup :: "bool \<Rightarrow> int \<Rightarrow> ctrler_config \<Rightarrow> ctrler_config go" where
  "ctrler_cleanup failed now cfg =
     (let c1 = fold (\<lambda>i c. case k_servers c ! i of None \<Rightarrow> c | Some sc \<Rightarrow> c\<lparr>kh_rafts := sc_Kill sc (kh_rafts c)\<rparr>)
            [0..<length (k_servers cfg)] cfg
      in go_bind (Cleanup (k_net c1)) (\<lambda>rn.
         go_bind (ctrler_checkTimeout failed now c1) (\<lambda>_. Inr (c1\<lparr>k_net := rn\<rparr>))))"

definition ctrler_LogSize :: "ctrler_config \<Rightarrow> nat go" where
  "ctrler_LogSize = cluster_LogSize"

subsection \<open>Connecting servers\<close>

definition ctrler_connectUnlocked :: "nat \<Rightarrow> nat list \<Rightarrow> ctrler_config \<Rightarrow> ctrler_config go" where
  "ctrler_connectUnlocked = connectUnlocked"

definition ctrler_disconnectUnlocked :: "nat \<Rightarrow> nat list \<Rightarrow> ctrler_config \<Rightarrow> ctrler_config go" where
  "ctrler_disconnectUnlocked = disconnectUnlocked"

definition ctrler_connect :: "nat \<Rightarrow> nat list \<Rightarrow> ctrler_config \<Rightarrow> ctrler_config go" where
  "ctrler_connect i tos cfg = ctrler_connectUnlocked i tos cfg"

definition ctrler_disconnect :: "nat \<Rightarrow> nat list \<Rightarrow> ctrler_config \<Rightarrow> ctrler_config go" where
  "ctrler_disconnect i froms cfg = ctrler_disconnectUnlocked i froms cfg"

definition ctrler_All :: "ctrler_config \<Rightarrow> nat list" where
  "ctrler_All = All"

definition ctrler_ConnectAll :: "ctrler_config \<Rightarrow> ctrler_config go" where
  "ctrler_ConnectAll cfg = go_fold (\<lambda>i c. ctrler_connectUnlocked i (ctrler_All c) c) [0..<k_n cfg] cfg"

definition ctrler_partition :: "nat list \<Rightarrow> nat list \<Rightarrow> ctrler_config \<Rightarrow> ctrler_config go" where
  "ctrler_partition p1 p2 cfg =
     go_bind (go_fold (\<lambda>i c. go_bind (ctrler_disconnectUnlocked i p2 c) (ctrler_connectUnlocked i p1)) p1 cfg)
       (go_fold (\<lambda>i c. go_bind (ctrler_disconnectUnlocked i p1 c) (ctrler_connectUnlocked i p2)) p2)"

definition ctrler_Leader :: "(nat \<Rightarrow> int \<times> bool) \<Rightarrow> ctrler_config \<Rightarrow> (bool \<times> nat) go" where
  "ctrler_Leader get cfg =
     go_bind (go_fold (\<lambda>i found. case found of Some _ \<Rightarrow> Inr found
         | None \<Rightarrow> go_bind (slice_get (k_servers cfg) (int i)) (\<lambda>sc. case sc of None \<Rightarrow> Inr None
             | Some _ \<Rightarrow> Inr (if snd (get i) then Some i else None))) [0..<k_n cfg] None) (\<lambda>found.
       Inr (case found of None \<Rightarrow> (False, 0) | Some i \<Rightarrow> (True, i)))"

definition ctrler_make_partition :: "(nat \<Rightarrow> int \<times> bool) \<Rightarrow> ctrler_config \<Rightarrow> (nat list \<times> nat list) go" where
  "ctrler_make_partition get cfg = go_bind (ctrler_Leader get cfg) (\<lambda>(_, l). deal_all (k_n cfg) l)"

subsection \<open>Clients\<close>

definition ctrler_ConnectClientUnlocked :: "nat \<Rightarrow> nat list \<Rightarrow> ctrler_config \<Rightarrow> ctrler_config go" where
  "ctrler_ConnectClientUnlocked = ConnectClientUnlocked"

definition ctrler_DisconnectClientUnlocked :: "nat \<Rightarrow> nat list \<Rightarrow> ctrler_config \<Rightarrow> ctrler_config go" where
  "ctrler_DisconnectClientUnlocked = DisconnectClientUnlocked"

definition ctrler_ConnectClient :: "nat \<Rightarrow> nat list \<Rightarrow> ctrler_config \<Rightarrow> ctrler_config go" where
  "ctrler_ConnectClient ck tos cfg = ctrler_ConnectClientUnlocked ck tos cfg"

definition ctrler_DisconnectClient :: "nat \<Rightarrow> nat list \<Rightarrow> ctrler_config \<Rightarrow> ctrler_config go" where
  "ctrler_DisconnectClient ck froms cfg = ctrler_DisconnectClientUnlocked ck froms cfg"

definition ctrler_makeClient :: "(nat \<Rightarrow> string) \<Rightarrow> (nat \<Rightarrow> nat) \<Rightarrow> nat list \<Rightarrow> ctrler_config \<Rightarrow> (nat \<times> ctrler_config) go" where
  "ctrler_makeClient names rnd tos cfg =
     go_bind (fresh_ends names (k_n cfg) (k_net cfg)) (\<lambda>(rn, es).
     let ck = length (ch_clerks cfg);
         c1 = cfg\<lparr>k_net := rn, ch_clerks := ch_clerks cfg @ [ctrler_MakeClerk (random_handles rnd es)],
                 k_clerks := (k_clerks cfg)(ck \<mapsto> map names [0..<k_n cfg]), k_nextClientId := k_nextClientId cfg + 1\<rparr>
     in go_bind (ctrler_ConnectClientUnlocked ck tos c1) (\<lambda>c2. Inr (ck, c2)))"

definition ctrler_deleteClient :: "nat \<Rightarrow> ctrler_config \<Rightarrow> ctrler_config" where
  "ctrler_deleteClient = cluster_deleteClient"

subsection \<open>Stopping and starting servers\<close>

definition ctrler_ShutdownServer :: "nat \<Rightarrow> ctrler_config \<Rightarrow> ctrler_config go" where
  "ctrler_ShutdownServer i cfg =
     go_bind (ctrler_disconnectUnlocked i (ctrler_All cfg) cfg) (\<lambda>c1.
     go_bind (cluster_copy_persister i (c1\<lparr>k_net := DeleteServer (int i) (k_net c1)\<rparr>)) (\<lambda>c2.
     go_bind (slice_get (k_servers c2) (int i)) (\<lambda>sc. case sc of
       None \<Rightarrow> Inr c2
     | Some sc \<Rightarrow> Inr (c2\<lparr>kh_rafts := sc_Kill sc (kh_rafts c2), k_servers := (k_servers c2)[i := None]\<rparr>))))"

definition ctrler_StartServer ::
    "Raft list method_info list \<Rightarrow> Raft list method_info list \<Rightarrow> (nat \<Rightarrow> string) \<Rightarrow> nat \<Rightarrow> ctrler_config \<Rightarrow> ctrler_config go" where
  "ctrler_StartServer sc_ms rf_ms names i cfg =
     go_bind (slice_set (k_endnames cfg) (int i) (Some (map names [0..<k_n cfg]))) (\<lambda>eds.
     go_bind (fresh_ends names (k_n cfg) (k_net cfg)) (\<lambda>(rn, es).
     let c1 = cfg\<lparr>k_endnames := eds, k_net := rn\<rparr> in
     go_bind (cluster_load_persister i c1) (\<lambda>c2.
     let a = length (kh_persisters c2) - 1;
         (sc, h) = sc_StartServer es (int i) a (kh_persisters c2 ! a) (kh_rafts c2)
     in go_bind (slice_set (k_servers c2) (int i) (Some sc)) (\<lambda>svs.
        let srv = AddService (MakeService ''Raft'' rf_ms) (AddService (MakeService ''ShardCtrler'' sc_ms) MakeServer)
        in Inr (c2\<lparr>kh_rafts := h, k_servers := svs, kh_servers := kh_servers c2 @ [srv],
                   k_net := AddServer (int i) (length (kh_servers c2)) (k_net c2)\<rparr>)))))"

definition ctrler_new_config :: "int \<Rightarrow> nat \<Rightarrow> ctrler_config" where
  "ctrler_new_config now n =
     \<lparr>k_net = MakeNetwork, k_n = n, k_servers = replicate n None, k_saved = replicate n None, k_endnames = replicate n None,
      k_clerks = Map.empty, k_nextClientId = int n + 1000, k_start = now, kh_persisters = [], kh_rafts = [], kh_servers = [],
      ch_clerks = []\<rparr>"

definition ctrler_make_config ::
    "Raft list method_info list \<Rightarrow> Raft list method_info list \<Rightarrow> (nat \<Rightarrow> nat \<Rightarrow> string) \<Rightarrow> int \<Rightarrow> nat \<Rightarrow> bool \<Rightarrow> ctrler_config go" where
  "ctrler_make_config sc_ms rf_ms names now n unreliable =
     go_bind (go_fold (\<lambda>i. ctrler_StartServer sc_ms rf_ms (names i) i) [0..<n] (ctrler_new_config now n)) (\<lambda>c1.
     go_bind (ctrler_ConnectAll c1) (\<lambda>c2. Inr (c2\<lparr>k_net := Reliable (\<not> unreliable) (k_net c2)\<rparr>)))"

subsection \<open>A configuration in use\<close>

lemmas ctrler_ops = ctrler_connectUnlocked_def ctrler_disconnectUnlocked_def ctrler_All_def

lemma ctrler_ConnectAll_eq: "ctrler_ConnectAll = ConnectAll"
  by (rule ext) (simp add: ctrler_ConnectAll_def ConnectAll_def ctrler_ops)

lemma ctrler_partition_eq: "ctrler_partition = cluster_partition"
  by (intro ext) (simp add: ctrler_partition_def cluster_partition_def split_from_def ctrler_ops)

interpretation ctrler: cluster_lifecycle "ctrler_StartServer sc_ms rf_ms" ctrler_ShutdownServer for sc_ms rf_ms
proof
  fix c :: ctrler_config and n k nms rn es
  assume "length (k_endnames c) = n" "length (k_saved c) = n" "length (k_servers c) = n" "k_n c = n" "k < n"
    "fresh_ends nms n (k_net c) = Inr (rn, es)"
  then show "\<exists>c'. ctrler_StartServer sc_ms rf_ms nms k c = Inr c' \<and> k_n c' = n \<and> length (k_saved c') = n \<and>
      k_endnames c' = (k_endnames c)[k := Some (map nms [0..<n])] \<and>
      (\<exists>kv. k_servers c' = (k_servers c)[k := Some kv]) \<and> (\<exists>a. k_net c' = AddServer (int k) a rn)"
    by (cases "k_saved c ! k"; simp add: ctrler_StartServer_def cluster_load_persister_def cluster_copy_persister_def sc_StartServer_def Let_def; blast)
next
  fix nms i and c c' :: ctrler_config
  assume "ctrler_StartServer sc_ms rf_ms nms i c = Inr c'"
  then show "\<exists>rn es. fresh_ends nms (k_n c) (k_net c) = Inr (rn, es)" by (auto simp: ctrler_StartServer_def go_bind_eq_Inr)
next
  fix i rn and c :: ctrler_config
  assume "disconnectUnlocked i (All c) c = Inr (c\<lparr>k_net := rn\<rparr>)" "i < length (k_servers c)" "i < length (k_saved c)"
  then show "\<exists>c'. ctrler_ShutdownServer i c = Inr c' \<and> k_n c' = k_n c \<and> k_endnames c' = k_endnames c \<and> length (k_saved c') = length (k_saved c) \<and>
        k_servers c' = (k_servers c)[i := None] \<and> k_net c' = DeleteServer (int i) rn"
    by (cases "k_saved c ! i"; cases "k_servers c ! i") (simp_all add: ctrler_ShutdownServer_def ctrler_ops cluster_copy_persister_def list_update_None)
qed

text \<open>The object that a server registers: the services of the controller and of its Raft peer.\<close>

definition ctrler_object :: "Raft list method_info list \<Rightarrow> Raft list method_info list \<Rightarrow> Raft list Server" where
  "ctrler_object sc_ms rf_ms = AddService (MakeService ''Raft'' rf_ms) (AddService (MakeService ''ShardCtrler'' sc_ms) MakeServer)"

lemma ctrler_object_service: "services (ctrler_object sc_ms rf_ms) ''ShardCtrler'' = Some (MakeService ''ShardCtrler'' sc_ms)"
  by (simp add: ctrler_object_def AddService_def MakeService_def MakeServer_def)

interpretation ctrlercalls: serving_cluster "ctrler_StartServer sc_ms rf_ms" ctrler_ShutdownServer "ctrler_object sc_ms rf_ms" for sc_ms rf_ms
proof
  fix nms i and c c' :: ctrler_config
  assume run: "ctrler_StartServer sc_ms rf_ms nms i c = Inr c'"
  then obtain rn es where F: "fresh_ends nms (k_n c) (k_net c) = Inr (rn, es)" using ctrler.start_fresh by blast
  have "servers rn = servers (k_net c)" "reliable rn = reliable (k_net c)" using fresh_ends_facts [OF F] fresh_ends_reliable [OF F] by blast+
  moreover obtain eds c2 where c2: "cluster_load_persister i (c\<lparr>k_endnames := eds, k_net := rn\<rparr>) = Inr c2"
      "kh_servers c' = kh_servers c2 @ [ctrler_object sc_ms rf_ms]" "k_net c' = AddServer (int i) (length (kh_servers c2)) (k_net c2)"
    using run by (auto simp: ctrler_StartServer_def ctrler_object_def go_bind_eq_Inr F Let_def sc_StartServer_def)
  moreover note load_persister_keeps [OF c2(1)]
  ultimately show "kh_servers c' = kh_servers c @ [ctrler_object sc_ms rf_ms] \<and>
      servers (k_net c') = (servers (k_net c))(int i \<mapsto> length (kh_servers c)) \<and> reliable (k_net c') = reliable (k_net c)"
    by (simp add: AddServer_def)
next
  fix i and c c' :: ctrler_config
  assume "ctrler_ShutdownServer i c = Inr c'"
  then obtain c1 where c1: "disconnectUnlocked i (All c) c = Inr c1" "kh_servers c' = kh_servers c1" "k_net c' = DeleteServer (int i) (k_net c1)"
    by (auto simp: ctrler_ShutdownServer_def ctrler_ops go_bind_eq_Inr dest!: copy_persister_keeps split: option.splits)
  then show "kh_servers c' = kh_servers c \<and> servers (k_net c') = (servers (k_net c))(int i := None) \<and> reliable (k_net c') = reliable (k_net c)"
    using disconnectUnlocked_same [OF c1(1)] net_rest_eq(3,5) [of "k_net c1" "k_net c"] by (auto simp: same_but_ends_def DeleteServer_def)
qed

fun do_ctrler_op ::
    "Raft list method_info list \<Rightarrow> Raft list method_info list \<Rightarrow> cluster_op \<Rightarrow> ctrler_config \<Rightarrow> ctrler_config go" where
  "do_ctrler_op sc_ms rf_ms (Do_partition p1 p2) c = ctrler_partition p1 p2 c"
| "do_ctrler_op sc_ms rf_ms (Do_shutdown i) c = ctrler_ShutdownServer i c"
| "do_ctrler_op sc_ms rf_ms (Do_restart names i) c = ctrler_StartServer sc_ms rf_ms names i c"
| "do_ctrler_op sc_ms rf_ms Do_connect_all c = ctrler_ConnectAll c"

lemma do_ctrler_op_eq: "do_ctrler_op sc_ms rf_ms = run_op (ctrler_StartServer sc_ms rf_ms) ctrler_ShutdownServer"
proof (intro ext)
  fix op c
  show "do_ctrler_op sc_ms rf_ms op c = run_op (ctrler_StartServer sc_ms rf_ms) ctrler_ShutdownServer op c"
    by (cases op) (simp_all add: ctrler_partition_eq ctrler_ConnectAll_eq)
qed

lemma ctrler_make_config_sim:
  assumes "names_distinct names n"
  shows "\<exists>c. ctrler_make_config sc_ms rf_ms names now n unreliable = Inr c \<and> cluster_sim n (all_up n) c"
  unfolding ctrler_make_config_def ctrler_ConnectAll_eq
  by (rule ctrler.configured [OF assms]) (simp add: cluster_started_0 ctrler_new_config_def)

lemma ctrler_reached_sim:
  assumes "names_distinct names n" and "ctrler_make_config sc_ms rf_ms names now n unreliable = Inr c0" and "ops_allowed n ops (all_up n)"
    and "go_fold (do_ctrler_op sc_ms rf_ms) ops c0 = Inr c"
  shows "cluster_sim n (fold (spec_op n) ops (all_up n)) c"
proof -
  have "cluster_sim n (all_up n) c0" using ctrler_make_config_sim [OF assms(1), of sc_ms rf_ms now unreliable] assms(2) by simp
  then show ?thesis by (rule ctrler.sim_ops [OF _ assms(3) assms(4) [unfolded do_ctrler_op_eq]])
qed

lemma ctrler_reached_hosts:
  assumes "ctrler_make_config sc_ms rf_ms names now n unreliable = Inr c0" and "go_fold (do_ctrler_op sc_ms rf_ms) ops c0 = Inr c"
  shows "hosts (ctrler_object sc_ms rf_ms) c \<and> reliable (k_net c) = (\<not> unreliable)"
proof -
  have "hosts (ctrler_object sc_ms rf_ms) c0 \<and> reliable (k_net c0) = (\<not> unreliable)"
    by (rule ctrlercalls.configured_hosts [OF assms(1) [unfolded ctrler_make_config_def ctrler_ConnectAll_eq]]) (simp add: ctrler_new_config_def)
  then show ?thesis using ctrlercalls.ops_host [OF assms(2) [unfolded do_ctrler_op_eq]] by blast
qed

lemma ctrler_makeClient_linked:
  assumes "ctrler_makeClient names rnd tos c = Inr (ck, c')" and "set tos \<subseteq> {..<k_n c}" and "hosts srv c"
  shows "linked names (k_n c) ck (set tos) c' \<and> hosts srv c' \<and> reliable (k_net c') = reliable (k_net c) \<and>
    servers (k_net c') = servers (k_net c) \<and> (\<exists>es. ch_clerks c' ! ck = ctrler_MakeClerk es \<and> mset es = image_mset (\<lambda>j. \<lparr>ce_endname = names j\<rparr>) (mset_set {..<k_n c}))"
proof -
  obtain rn es where F: "fresh_ends names (k_n c) (k_net c) = Inr (rn, es)" using assms(1) by (auto simp: ctrler_makeClient_def go_bind_eq_Inr)
  define c1 where "c1 = c\<lparr>k_net := rn, ch_clerks := ch_clerks c @ [ctrler_MakeClerk (random_handles rnd es)],
      k_clerks := (k_clerks c)(ck \<mapsto> map names [0..<k_n c]), k_nextClientId := k_nextClientId c + 1\<rparr>"
  have ck: "ck = length (ch_clerks c)" and C: "ConnectClientUnlocked ck tos c1 = Inr c'"
    using assms(1) by (auto simp: ctrler_makeClient_def ctrler_ConnectClientUnlocked_def go_bind_eq_Inr F Let_def c1_def)
  have M: "linked names (k_n c) ck (set tos) c' \<and> hosts srv c' \<and> reliable (k_net c') = reliable (k_net c) \<and>
      servers (k_net c') = servers (k_net c) \<and> same_but_ends c1 c'"
    by (rule client_made [OF F _ _ _ C assms(2,3)]) (simp_all add: c1_def)
  then have "ch_clerks c' ! ck = ctrler_MakeClerk (random_handles rnd es)" by (auto simp: same_but_ends_def c1_def ck)
  then show ?thesis using M handles_of_ends [OF F] by blast
qed

fun do_ctrler_client_op :: "nat \<Rightarrow> client_op \<Rightarrow> ctrler_config \<Rightarrow> ctrler_config go" where
  "do_ctrler_client_op ck (Do_connect tos) c = ctrler_ConnectClient ck tos c"
| "do_ctrler_client_op ck (Do_disconnect froms) c = ctrler_DisconnectClient ck froms c"

lemma do_ctrler_client_op_eq: "do_ctrler_client_op ck = run_client_op ck"
proof (intro ext)
  fix op c
  show "do_ctrler_client_op ck op c = run_client_op ck op c"
    by (cases op) (simp_all add: ctrler_ConnectClient_def ctrler_DisconnectClient_def ctrler_ConnectClientUnlocked_def
        ctrler_DisconnectClientUnlocked_def ConnectClient_def DisconnectClient_def)
qed

text \<open>
  A client in use, after any operations on the servers, \<open>makeClient\<close> and any operations on the client:
  its ends, the servers it is linked to, and what is behind their names.
\<close>

lemma ctrler_client_ready:
  assumes "names_distinct names n" and "ctrler_make_config sc_ms rf_ms names now n unreliable = Inr c0" and "ops_allowed n ops (all_up n)"
    and "go_fold (do_ctrler_op sc_ms rf_ms) ops c0 = Inr c1" and "fold (spec_op n) ops (all_up n) = (on, up)"
    and "ctrler_makeClient cnames rnd tos c1 = Inr (ck, c2)" and "set tos \<subseteq> {..<n}" and "\<forall>op\<in>set cops. op_targets op \<subseteq> {..<n}"
    and "go_fold (do_ctrler_client_op ck) cops c2 = Inr c"
  obtains es where "ch_clerks c ! ck = ctrler_MakeClerk es" "set es = (\<lambda>j. \<lparr>ce_endname = cnames j\<rparr>) ` {..<n}"
    "linked cnames n ck (fold link_op cops (set tos)) c" "hosts (ctrler_object sc_ms rf_ms) c" "reliable (k_net c) = (\<not> unreliable)"
    "\<And>j. j < n \<Longrightarrow> servers (k_net c) (int j) \<noteq> None \<longleftrightarrow> j \<in> up"
proof -
  have sim: "cluster_sim n (on, up) c1" using ctrler_reached_sim [OF assms(1-4)] assms(5) by simp
  then have up: "servers (k_net c1) (int j) \<noteq> None \<longleftrightarrow> j \<in> up" if "j < n" for j using that by (auto simp: cluster_sim_def)
  have kn: "k_n c1 = n" using sim by (auto simp: cluster_sim_def)
  have h: "hosts (ctrler_object sc_ms rf_ms) c1" "reliable (k_net c1) = (\<not> unreliable)" using ctrler_reached_hosts [OF assms(2,4)] by simp_all
  obtain es where c2: "linked cnames n ck (set tos) c2" "hosts (ctrler_object sc_ms rf_ms) c2" "reliable (k_net c2) = (\<not> unreliable)"
      "servers (k_net c2) = servers (k_net c1)" "ch_clerks c2 ! ck = ctrler_MakeClerk es" "mset es = image_mset (\<lambda>j. \<lparr>ce_endname = cnames j\<rparr>) (mset_set {..<n})"
    using ctrler_makeClient_linked [OF assms(6) _ h(1)] assms(7) h(2) by (auto simp: kn)
  have c: "linked cnames n ck (fold link_op cops (set tos)) c" "same_but_ends c2 c"
    using client_ops_linked [OF c2(1) assms(8) assms(9) [unfolded do_ctrler_client_op_eq]] by auto
  note s = hosts_same [OF c(2) c2(2)]
  have es: "set es = (\<lambda>j. \<lparr>ce_endname = cnames j\<rparr>) ` {..<n}" using arg_cong [OF c2(6), of set_mset] by simp
  have "ch_clerks c = ch_clerks c2" using c(2) by (auto simp: same_but_ends_def)
  then show thesis using that [of es] es c2(3-5) c(1) s up by simp
qed

text \<open>Servers that are down are passed over.\<close>

lemma ctrler_Leader_eq:
  assumes "length (k_servers c) = k_n c"
  shows "ctrler_Leader get c = Inr (case List.find (\<lambda>i. k_servers c ! i \<noteq> None \<and> snd (get i)) (All c) of
      None \<Rightarrow> (False, 0) | Some i \<Rightarrow> (True, i))"
proof -
  let ?f = "\<lambda>i found. case found of Some _ \<Rightarrow> Inr found | None \<Rightarrow> go_bind (slice_get (k_servers c) (int i)) (\<lambda>kv. case kv of
     None \<Rightarrow> Inr None | Some _ \<Rightarrow> Inr (if snd (get i) then Some i else None))"
  have stay: "go_fold ?f is (Some x) = Inr (Some x)" for "is" x by (induction "is") auto
  have "set is \<subseteq> {..<k_n c} \<Longrightarrow> go_fold ?f is None = Inr (List.find (\<lambda>i. k_servers c ! i \<noteq> None \<and> snd (get i)) is)" for "is"
  proof (induction "is")
    case (Cons i "is")
    then show ?case using assms stay by (cases "k_servers c ! i") simp_all
  qed simp
  from this [of "All c"] show ?thesis by (simp add: ctrler_Leader_def All_def atLeast0LessThan)
qed


subsection \<open>Properties\<close>

text \<open>
  C21. The harness implements its specification: after \<open>make_config\<close> and any sequence of partitions,
  shutdowns, restarts and \<open>ConnectAll\<close>s in which a server is started only when it is down and switched
  off, a server of the configuration runs exactly when the specification has it up, and server \<open>i\<close>
  reaches server \<open>j\<close> exactly when the specification allows the pair and has \<open>j\<close> up.
\<close>

theorem ctrler_refines_spec:
  assumes "names_distinct names n" and "ctrler_make_config sc_ms rf_ms names now n unreliable = Inr c0" and "ops_allowed n ops (all_up n)"
    and "go_fold (do_ctrler_op sc_ms rf_ms) ops c0 = Inr c" and "fold (spec_op n) ops (all_up n) = (on, up)"
  shows "\<forall>i<n. (\<exists>sc. slice_get (k_servers c) (int i) = Inr (Some sc)) = (i \<in> up) \<and>
    (\<forall>j<n. \<exists>e. endname_at (k_endnames c) i j = Inr e \<and> ((\<exists>a. reachable_server (k_net c) e (int j) a) \<longleftrightarrow> on i j \<and> j \<in> up))"
proof -
  have sim: "cluster_sim n (on, up) c" using ctrler_reached_sim [OF assms(1-4)] assms(5) by simp
  then have "(\<exists>sc. slice_get (k_servers c) (int i) = Inr (Some sc)) = (i \<in> up)" if "i < n" for i
    using that by (auto simp: cluster_sim_def)
  then show ?thesis using sim_reaches [OF sim] by blast
qed

theorem ctrler_refines_spec_witness:
  "\<exists>c0 c e. ctrler_make_config [] [] sample_endnames 0 3 False = Inr c0 \<and>
     go_fold (do_ctrler_op [] []) [Do_partition [0, 1] [2], Do_shutdown 1] c0 = Inr c \<and>
     endname_at (k_endnames c) 0 1 = Inr e \<and> \<not> (\<exists>a. reachable_server (k_net c) e 1 a)"
proof -
  note d = sample_endnames_distinct
  let ?ops = "[Do_partition [0, 1] [2], Do_shutdown 1]"
  obtain c0 where c0: "ctrler_make_config [] [] sample_endnames 0 3 False = Inr c0" "cluster_sim 3 (all_up 3) c0"
    using ctrler_make_config_sim [OF d] by blast
  have t: "two_sides 3 ([0, 1], [2])" by (simp add: two_sides_def)
  obtain c1 where c1: "ctrler_partition [0, 1] [2] c0 = Inr c1" "cluster_sim 3 (parted ([0, 1], [2]) (\<lambda>_ _. True), {..<3}) c1"
    using sim_partition [OF _ t, of "\<lambda>_ _. True" "{..<3}" c0] c0(2) by (auto simp: all_up_def ctrler_partition_eq)
  obtain c where c: "go_fold (do_ctrler_op [] []) ?ops c0 = Inr c" using ctrler.sim_shutdown [OF c1(2), of 1] c1(1) by auto
  have a: "ops_allowed 3 ?ops (all_up 3)" using t by (simp add: all_up_def)
  obtain on up where s: "fold (spec_op 3) ?ops (all_up 3) = (on, up)" by fastforce
  have "1 \<notin> up" using s by (auto simp: all_up_def)
  moreover have "\<exists>e. endname_at (k_endnames c) 0 1 = Inr e \<and> ((\<exists>a. reachable_server (k_net c) e (int 1) a) \<longleftrightarrow> on 0 1 \<and> 1 \<in> up)"
    using ctrler_refines_spec [OF d c0(1) a c s, THEN spec [of _ 0], THEN mp, THEN conjunct2, THEN spec [of _ 1], THEN mp] by simp
  ultimately obtain e where "endname_at (k_endnames c) 0 1 = Inr e" "\<not> (\<exists>a. reachable_server (k_net c) e 1 a)" by auto
  then show ?thesis using c0(1) c by blast
qed



end
