(* ===== verification/Labgob.thy ===== *)
theory Labgob
  imports Go_Strings
begin

text \<open>
  The checks that \<open>labgob/labgob.go\<close> adds to \<open>encoding/gob\<close>: every type that is encoded, decoded or
  registered is searched for fields whose name is not capitalised, and a value that is decoded into is
  searched for contents that are not the default. A \<open>reflect.Type\<close> is a value of a type variable and
  \<open>look\<close> says what reflection reports about it, so recursive Go types are cycles. \<open>encoding/gob\<close> itself
  and the table behind \<open>unicode.IsUpper\<close> are parameters.
\<close>

subsection \<open>Types\<close>

datatype 't kind =
    KStruct "(string \<times> 't) list"
  | KElem 't
  | KMap 't 't
  | KOther

record 't gob_state =
  errorCount :: int
  checked :: "'t set"

definition lower_field :: "(nat \<Rightarrow> bool) \<Rightarrow> string \<Rightarrow> bool" where
  "lower_field isUpper name \<longleftrightarrow> \<not> isUpper (fst (decode_rune (map of_char name)))"

text \<open>
  \<open>checkType\<close>, with the depth of the recursion as fuel; \<open>None\<close> when the fuel does not suffice. The
  second function is the loop over the fields of a structure.
\<close>

fun checkType :: "(nat \<Rightarrow> bool) \<Rightarrow> ('t \<Rightarrow> 't kind) \<Rightarrow> nat \<Rightarrow> 't \<Rightarrow> 't gob_state \<Rightarrow> 't gob_state option"
  and checkFields :: "(nat \<Rightarrow> bool) \<Rightarrow> ('t \<Rightarrow> 't kind) \<Rightarrow> nat \<Rightarrow> (string \<times> 't) list \<Rightarrow> 't gob_state \<Rightarrow> 't gob_state option" where
  "checkType isUpper look 0 t s = None"
| "checkType isUpper look (Suc fuel) t s =
     (if t \<in> checked s then Some s
      else
        let s1 = s\<lparr>checked := insert t (checked s)\<rparr> in
        case look t of
          KStruct fs \<Rightarrow> checkFields isUpper look fuel fs s1
        | KElem e \<Rightarrow> checkType isUpper look fuel e s1
        | KMap e k \<Rightarrow> Option.bind (checkType isUpper look fuel e s1) (checkType isUpper look fuel k)
        | KOther \<Rightarrow> Some s1)"
| "checkFields isUpper look fuel [] s = Some s"
| "checkFields isUpper look fuel ((name, t) # fs) s =
     (let s1 = (if lower_field isUpper name then s\<lparr>errorCount := errorCount s + 1\<rparr> else s)
      in Option.bind (checkType isUpper look fuel t s1) (checkFields isUpper look fuel fs))"

text \<open>\<open>checkValue\<close>: the type of a nil interface is nil, and asking for its kind panics.\<close>

definition checkValue ::
    "(nat \<Rightarrow> bool) \<Rightarrow> ('t \<Rightarrow> 't kind) \<Rightarrow> nat \<Rightarrow> 't option \<Rightarrow> 't gob_state \<Rightarrow> 't gob_state go_run" where
  "checkValue isUpper look fuel t s =
     (case t of None \<Rightarrow> Some (Inl NilDereference) | Some t \<Rightarrow> map_option Inr (checkType isUpper look fuel t s))"

subsection \<open>Values\<close>

text \<open>
  What \<open>checkDefault1\<close> sees of a value: a structure with its fields, a pointer, a value of a basic
  type with the type's name, whether it is the zero value and whether it was reached through
  exported fields only, or anything else. It looks at most three levels deep, so a cyclic value
  appears unfolded to that depth.
\<close>

datatype gval =
    VStruct "(string \<times> gval) list"
  | VPtr "gval option"
  | VBasic string bool bool
  | VOther

text \<open>
  The state of the walk: \<open>errorCount\<close> and the names printed in warnings. \<open>reflect.Value.Interface\<close> panics
  on a value that was reached through a field that is not exported.
\<close>

definition interface_panic :: go_panic where
  "interface_panic = ExplicitPanic ''reflect.Value.Interface: cannot return value obtained from unexported field or method''"

fun checkDefault1 :: "gval \<Rightarrow> nat \<Rightarrow> string \<Rightarrow> int \<times> string list \<Rightarrow> (int \<times> string list) go" where
  "checkDefault1 v depth name st =
     (if depth > 3 then Inr st
      else case v of
        VStruct fs \<Rightarrow>
          go_fold (\<lambda>(fname, fv) st. checkDefault1 fv (depth + 1) (if name \<noteq> [] then name @ ''.'' @ fname else fname) st) fs st
      | VPtr None \<Rightarrow> Inr st
      | VPtr (Some w) \<Rightarrow> checkDefault1 w (depth + 1) name st
      | VBasic tname zero exported \<Rightarrow>
          if \<not> exported then Inl interface_panic
          else if \<not> zero then
            Inr (fst st + 1, if fst st < 1 then snd st @ [if name = [] then tname else name] else snd st)
          else Inr st
      | VOther \<Rightarrow> Inr st)"

declare checkDefault1.simps [simp del]

definition checkDefault :: "gval option \<Rightarrow> int \<times> string list \<Rightarrow> (int \<times> string list) go" where
  "checkDefault v st = (case v of None \<Rightarrow> Inr st | Some v \<Rightarrow> checkDefault1 v 1 [] st)"

subsection \<open>The wrappers\<close>

text \<open>
  \<open>Encode\<close>, \<open>EncodeValue\<close>, \<open>Register\<close> and \<open>RegisterName\<close> check the type and hand the value to \<open>gob\<close>, whose
  answer \<open>r\<close> is returned; registering may panic in \<open>gob\<close>.
\<close>

definition Encode ::
    "(nat \<Rightarrow> bool) \<Rightarrow> ('t \<Rightarrow> 't kind) \<Rightarrow> nat \<Rightarrow> 'r \<Rightarrow> 't option \<Rightarrow> 't gob_state \<Rightarrow> ('t gob_state \<times> 'r) go_run" where
  "Encode isUpper look fuel r t s = run_bind (checkValue isUpper look fuel t s) (\<lambda>s1. Some (Inr (s1, r)))"

definition EncodeValue ::
    "(nat \<Rightarrow> bool) \<Rightarrow> ('t \<Rightarrow> 't kind) \<Rightarrow> nat \<Rightarrow> 'r \<Rightarrow> 't option \<Rightarrow> 't gob_state \<Rightarrow> ('t gob_state \<times> 'r) go_run" where
  "EncodeValue isUpper look fuel r t s = run_bind (checkValue isUpper look fuel t s) (\<lambda>s1. Some (Inr (s1, r)))"

definition Register ::
    "(nat \<Rightarrow> bool) \<Rightarrow> ('t \<Rightarrow> 't kind) \<Rightarrow> nat \<Rightarrow> ('t option \<Rightarrow> unit go) \<Rightarrow> 't option \<Rightarrow> 't gob_state \<Rightarrow> 't gob_state go_run" where
  "Register isUpper look fuel gob t s =
     run_bind (checkValue isUpper look fuel t s) (\<lambda>s1. Some (go_bind (gob t) (\<lambda>_. Inr s1)))"

definition RegisterName ::
    "(nat \<Rightarrow> bool) \<Rightarrow> ('t \<Rightarrow> 't kind) \<Rightarrow> nat \<Rightarrow> (string \<Rightarrow> 't option \<Rightarrow> unit go) \<Rightarrow> string \<Rightarrow> 't option \<Rightarrow> 't gob_state
     \<Rightarrow> 't gob_state go_run" where
  "RegisterName isUpper look fuel gob name t s =
     run_bind (checkValue isUpper look fuel t s) (\<lambda>s1. Some (go_bind (gob name t) (\<lambda>_. Inr s1)))"

definition Decode ::
    "(nat \<Rightarrow> bool) \<Rightarrow> ('t \<Rightarrow> 't kind) \<Rightarrow> nat \<Rightarrow> 'r \<Rightarrow> 't option \<Rightarrow> gval option \<Rightarrow> 't gob_state
     \<Rightarrow> ('t gob_state \<times> string list \<times> 'r) go_run" where
  "Decode isUpper look fuel r t v s =
     run_bind (checkValue isUpper look fuel t s) (\<lambda>s1.
       Some (go_bind (checkDefault v (errorCount s1, [])) (\<lambda>(n, warnings).
         Inr (s1\<lparr>errorCount := n\<rparr>, warnings, r))))"

subsection \<open>The search visits every type once\<close>

definition succs :: "('t \<Rightarrow> 't kind) \<Rightarrow> 't \<Rightarrow> 't set" where
  "succs look t = (case look t of KStruct fs \<Rightarrow> snd ` set fs | KElem e \<Rightarrow> {e} | KMap e k \<Rightarrow> {e, k} | KOther \<Rightarrow> {})"

definition lower_fields :: "(nat \<Rightarrow> bool) \<Rightarrow> (string \<times> 't) list \<Rightarrow> int" where
  "lower_fields isUpper fs = int (length (filter (\<lambda>(name, _). lower_field isUpper name) fs))"

definition lowers :: "(nat \<Rightarrow> bool) \<Rightarrow> ('t \<Rightarrow> 't kind) \<Rightarrow> 't \<Rightarrow> int" where
  "lowers isUpper look t = (case look t of KStruct fs \<Rightarrow> lower_fields isUpper fs | _ \<Rightarrow> 0)"

definition reach :: "('t \<Rightarrow> 't kind) \<Rightarrow> 't \<Rightarrow> 't set" where
  "reach look t = {u. (\<lambda>a b. b \<in> succs look a)\<^sup>*\<^sup>* t u}"

text \<open>What a part of the search has done, from state \<open>s\<close> to \<open>s'\<close>, when it was asked for the types in \<open>T\<close> and had counted \<open>n\<close> errors besides.\<close>

definition searched ::
    "(nat \<Rightarrow> bool) \<Rightarrow> ('t \<Rightarrow> 't kind) \<Rightarrow> 't set \<Rightarrow> int \<Rightarrow> 't gob_state \<Rightarrow> 't gob_state \<Rightarrow> bool" where
  "searched isUpper look T n s s' \<longleftrightarrow>
     checked s \<union> T \<subseteq> checked s' \<and> checked s' \<subseteq> checked s \<union> (\<Union>t\<in>T. reach look t) \<and>
     (\<forall>u\<in>checked s' - checked s. succs look u \<subseteq> checked s') \<and> finite (checked s' - checked s) \<and>
     errorCount s' = errorCount s + n + (\<Sum>u\<in>checked s' - checked s. lowers isUpper look u)"

lemma reach_refl [simp]: "t \<in> reach look t"
  by (simp add: reach_def)

lemma reach_succ: "u \<in> succs look t \<Longrightarrow> reach look u \<subseteq> reach look t"
  unfolding reach_def by (auto intro: converse_rtranclp_into_rtranclp)

lemma searched_refl: "T \<subseteq> checked s \<Longrightarrow> searched isUpper look T 0 s s"
  by (auto simp: searched_def)

lemma searched_trans:
  assumes "searched isUpper look T n s s1" and "searched isUpper look T' n' s1 s2"
  shows "searched isUpper look (T \<union> T') (n + n') s s2"
proof -
  have sub: "checked s \<subseteq> checked s1" "checked s1 \<subseteq> checked s2" using assms by (auto simp: searched_def)
  then have split: "checked s2 - checked s = (checked s1 - checked s) \<union> (checked s2 - checked s1)" by blast
  have "(\<Sum>u\<in>checked s2 - checked s. lowers isUpper look u) =
      (\<Sum>u\<in>checked s1 - checked s. lowers isUpper look u) + (\<Sum>u\<in>checked s2 - checked s1. lowers isUpper look u)"
    unfolding split using assms by (intro sum.union_disjoint) (auto simp: searched_def)
  moreover have "\<forall>u\<in>checked s2 - checked s. succs look u \<subseteq> checked s2"
    using assms sub unfolding searched_def by blast
  moreover have "finite (checked s2 - checked s)" unfolding split using assms by (simp add: searched_def)
  moreover have "checked s2 \<subseteq> checked s \<union> (\<Union>t\<in>T \<union> T'. reach look t)" "checked s \<union> (T \<union> T') \<subseteq> checked s2"
    using assms sub unfolding searched_def by blast+
  ultimately show ?thesis using assms unfolding searched_def by simp
qed

lemma searched_visit:
  assumes "searched isUpper look (succs look t) (lowers isUpper look t) (s\<lparr>checked := insert t (checked s)\<rparr>) s'" and "t \<notin> checked s"
  shows "searched isUpper look {t} 0 s s'"
proof -
  have t: "t \<in> checked s'" "checked s \<subseteq> checked s'" using assms(1) by (auto simp: searched_def)
  then have new: "checked s' - checked s = insert t (checked s' - insert t (checked s))" using assms(2) by blast
  have "finite (checked s' - insert t (checked s))" using assms(1) by (simp add: searched_def)
  then have "(\<Sum>u\<in>checked s' - checked s. lowers isUpper look u) =
      lowers isUpper look t + (\<Sum>u\<in>checked s' - insert t (checked s). lowers isUpper look u)"
    by (subst new) simp
  moreover have "checked s' \<subseteq> insert t (checked s) \<union> (\<Union>u\<in>succs look t. reach look u)" using assms(1) by (simp add: searched_def)
  then have "checked s' \<subseteq> checked s \<union> reach look t" using reach_succ [of _ look t] reach_refl [of t look] by blast
  moreover have "\<forall>u\<in>checked s' - checked s. succs look u \<subseteq> checked s'"
    using assms(1) unfolding searched_def by auto
  moreover have "finite (checked s' - checked s)" by (subst new) (use assms(1) in \<open>simp add: searched_def\<close>)
  ultimately show ?thesis using assms(1) t unfolding searched_def by simp
qed

lemma checkType_searched:
  "checkType isUpper look fuel t s = Some s' \<Longrightarrow> searched isUpper look {t} 0 s s'"
  "checkFields isUpper look fuel fs s = Some s' \<Longrightarrow> searched isUpper look (snd ` set fs) (lower_fields isUpper fs) s s'"
proof (induction isUpper look fuel t s and isUpper look fuel fs s arbitrary: s' and s' rule: checkType_checkFields.induct)
  case (2 isUpper look fuel t s)
  show ?case
  proof (cases "t \<in> checked s")
    case True
    then show ?thesis using 2(5) by (simp add: searched_refl)
  next
    case False
    let ?s = "s\<lparr>checked := insert t (checked s)\<rparr>"
    have "searched isUpper look (succs look t) (lowers isUpper look t) ?s s'"
    proof (cases "look t")
      case (KStruct fs)
      then show ?thesis using 2 False by (simp add: succs_def lowers_def Let_def)
    next
      case (KElem e)
      then show ?thesis using 2 False by (simp add: succs_def lowers_def Let_def)
    next
      case (KMap e k)
      then obtain s1 where s1: "checkType isUpper look fuel e ?s = Some s1" "checkType isUpper look fuel k s1 = Some s'"
        using 2(5) False by (auto simp: Let_def bind_eq_Some_conv)
      from searched_trans [of isUpper look "{e}" 0 ?s s1 "{k}" 0 s'] 2(3,4) False KMap s1 show ?thesis
        by (simp add: succs_def lowers_def insert_commute)
    next
      case KOther
      then show ?thesis using 2(5) False searched_refl [of "{}"] by (simp add: succs_def lowers_def Let_def)
    qed
    then show ?thesis using False by (rule searched_visit)
  qed
next
  case (4 isUpper look fuel name t fs s)
  let ?s = "if lower_field isUpper name then s\<lparr>errorCount := errorCount s + 1\<rparr> else s"
  obtain s1 where s1: "checkType isUpper look fuel t ?s = Some s1" "checkFields isUpper look fuel fs s1 = Some s'"
    using 4(3) by (auto simp: Let_def bind_eq_Some_conv)
  have "searched isUpper look ({t} \<union> snd ` set fs) (0 + lower_fields isUpper fs) ?s s'"
    using searched_trans 4(1) [OF refl s1(1)] 4(2) [OF refl s1(1) s1(2)] by blast
  then show ?case by (simp add: searched_def lower_fields_def split: if_splits)
qed (simp_all add: searched_refl lower_fields_def)

definition closed_types :: "('t \<Rightarrow> 't kind) \<Rightarrow> 't set \<Rightarrow> bool" where
  "closed_types look U \<longleftrightarrow> finite U \<and> (\<forall>u\<in>U. succs look u \<subseteq> U)"

lemma checkType_enough:
  "closed_types look U \<Longrightarrow> t \<in> U \<Longrightarrow> card (U - checked s) < fuel \<Longrightarrow> \<exists>s'. checkType isUpper look fuel t s = Some s'"
  "closed_types look U \<Longrightarrow> snd ` set fs \<subseteq> U \<Longrightarrow> card (U - checked s) < fuel \<Longrightarrow> \<exists>s'. checkFields isUpper look fuel fs s = Some s'"
proof (induction isUpper look fuel t s and isUpper look fuel fs s rule: checkType_checkFields.induct)
  case (2 isUpper look fuel t s)
  show ?case
  proof (cases "t \<in> checked s")
    case False
    let ?s = "s\<lparr>checked := insert t (checked s)\<rparr>"
    have fin: "finite U" using 2(5) by (simp add: closed_types_def)
    have "U - checked ?s = (U - checked s) - {t}" by auto
    moreover have "card (U - checked s) > 0" using 2(6) False fin by (auto simp: card_gt_0_iff)
    ultimately have less: "card (U - checked ?s) < fuel" using 2(6,7) False fin by (simp add: card_Diff_singleton)
    have sub: "succs look t \<subseteq> U" using 2(5,6) by (simp add: closed_types_def)
    show ?thesis
    proof (cases "look t")
      case (KStruct fs)
      then show ?thesis using 2(1,5) False less sub by (simp add: succs_def)
    next
      case (KElem e)
      then show ?thesis using 2(2,5) False less sub by (simp add: succs_def)
    next
      case (KMap e k)
      then obtain s1 where s1: "checkType isUpper look fuel e ?s = Some s1" using 2(3,5) False less sub by (auto simp: succs_def)
      then have "checked ?s \<subseteq> checked s1" using checkType_searched(1) by (fastforce simp: searched_def)
      then have "card (U - checked s1) \<le> card (U - checked ?s)" using fin by (intro card_mono) auto
      then show ?thesis using 2(4,5) KMap False less sub s1 by (simp add: succs_def)
    qed (use False in simp)
  qed simp
next
  case (4 isUpper look fuel name t fs s)
  let ?s = "if lower_field isUpper name then s\<lparr>errorCount := errorCount s + 1\<rparr> else s"
  have "checked ?s = checked s" by simp
  then obtain s1 where s1: "checkType isUpper look fuel t ?s = Some s1" using 4(1,3,4,5) by auto
  then have "checked s \<subseteq> checked s1" using checkType_searched(1) by (fastforce simp: searched_def split: if_splits)
  then have "card (U - checked s1) \<le> card (U - checked s)" using 4(3) by (intro card_mono) (auto simp: closed_types_def)
  then show ?case using 4(2) [OF refl s1] 4(3,4,5) s1 by (simp add: Let_def)
qed simp_all

lemma reach_closed:
  assumes "u \<in> reach look t" and "t \<in> C" and "\<forall>a\<in>C. succs look a \<subseteq> C"
  shows "u \<in> C"
proof -
  have "(\<lambda>a b. b \<in> succs look a)\<^sup>*\<^sup>* t u" using assms(1) by (simp add: reach_def)
  then show ?thesis by (induction rule: rtranclp_induct) (use assms(2,3) in auto)
qed

lemma reach_in_universe: "closed_types look U \<Longrightarrow> t \<in> U \<Longrightarrow> reach look t \<subseteq> U"
  using reach_closed [of _ look t U] by (auto simp: closed_types_def)

subsection \<open>The search for values that are not the default\<close>

fun nondefault :: "gval \<Rightarrow> nat \<Rightarrow> nat" where
  "nondefault v depth =
     (if depth > 3 then 0
      else case v of
        VStruct fs \<Rightarrow> sum_list (map (\<lambda>(_, w). nondefault w (depth + 1)) fs)
      | VPtr None \<Rightarrow> 0
      | VPtr (Some w) \<Rightarrow> nondefault w (depth + 1)
      | VBasic _ zero _ \<Rightarrow> if zero then 0 else 1
      | VOther \<Rightarrow> 0)"

text \<open>All basic values within the depth were reached through exported fields.\<close>

fun readable :: "gval \<Rightarrow> nat \<Rightarrow> bool" where
  "readable v depth =
     (depth > 3 \<or> (case v of
        VStruct fs \<Rightarrow> list_all (\<lambda>(_, w). readable w (depth + 1)) fs
      | VPtr None \<Rightarrow> True
      | VPtr (Some w) \<Rightarrow> readable w (depth + 1)
      | VBasic _ _ exported \<Rightarrow> exported
      | VOther \<Rightarrow> True))"

declare nondefault.simps [simp del] readable.simps [simp del]

lemmas walk_simps = checkDefault1.simps nondefault.simps readable.simps

text \<open>A walk from \<open>st\<close> to \<open>st'\<close> that met \<open>k\<close> values that are not the default: at most the first of all is reported.\<close>

definition walked :: "nat \<Rightarrow> int \<times> string list \<Rightarrow> int \<times> string list \<Rightarrow> bool" where
  "walked k st st' \<longleftrightarrow> (0 \<le> fst st \<longrightarrow> fst st' = fst st + int k \<and>
     (\<exists>ws. snd st' = snd st @ ws \<and> length ws = (if fst st = 0 \<and> 0 < k then 1 else 0)))"

lemma walked_0 [simp]: "walked 0 st st"
  by (simp add: walked_def)

lemma walked_trans: "walked k st st1 \<Longrightarrow> walked l st1 st2 \<Longrightarrow> walked (k + l) st st2"
  by (auto simp: walked_def)

text \<open>What the walk over one value does, whatever state it starts in.\<close>

definition walks :: "gval \<Rightarrow> nat \<Rightarrow> (int \<times> string list \<Rightarrow> (int \<times> string list) go) \<Rightarrow> bool" where
  "walks v depth f \<longleftrightarrow> (\<forall>st. if readable v depth then \<exists>st'. f st = Inr st' \<and> walked (nondefault v depth) st st'
     else f st = Inl interface_panic)"

lemma walks_fields:
  assumes "\<And>n w. (n, w) \<in> set fs \<Longrightarrow> walks w d (g (n, w))"
  shows "if list_all (\<lambda>(_, w). readable w d) fs
    then \<exists>st'. go_fold g fs st = Inr st' \<and> walked (sum_list (map (\<lambda>(_, w). nondefault w d) fs)) st st'
    else go_fold g fs st = Inl interface_panic"
  using assms
proof (induction fs arbitrary: st)
  case (Cons x fs)
  obtain n w where x: "x = (n, w)" by (cases x)
  have w: "walks w d (g (n, w))" using Cons.prems x by simp
  show ?case
  proof (cases "readable w d")
    case True
    then obtain st1 where st1: "g (n, w) st = Inr st1" "walked (nondefault w d) st st1" using w unfolding walks_def by meson
    have "if list_all (\<lambda>(_, w). readable w d) fs
        then \<exists>st'. go_fold g fs st1 = Inr st' \<and> walked (sum_list (map (\<lambda>(_, w). nondefault w d) fs)) st1 st'
        else go_fold g fs st1 = Inl interface_panic"
      by (rule Cons.IH) (use Cons.prems in simp)
    then show ?thesis using True st1 by (auto simp: x split: if_splits intro: walked_trans)
  next
    case False
    then show ?thesis using w by (cases st) (simp add: x walks_def)
  qed
qed simp

lemma checkDefault1_walks: "walks v depth (checkDefault1 v depth name)"
proof (induction depth arbitrary: v name rule: measure_induct_rule [where f = "\<lambda>d. 4 - d"])
  case (less depth)
  show ?case
  proof (cases "depth > 3")
    case True
    then show ?thesis by (simp add: walks_def walk_simps)
  next
    case False
    then have IH: "walks w (depth + 1) (checkDefault1 w (depth + 1) name)" for w name using less.IH [of "depth + 1"] by simp
    show ?thesis
    proof (cases v)
      case (VStruct fs)
      let ?g = "\<lambda>(fname, fv) st. checkDefault1 fv (depth + 1) (if name \<noteq> [] then name @ ''.'' @ fname else fname) st"
      have "walks w (depth + 1) (?g (n, w))" for n w using IH by simp
      note walks_fields [of fs "depth + 1" ?g, OF this]
      moreover have "checkDefault1 v depth name st = go_fold ?g fs st"
          "readable v depth = list_all (\<lambda>(_, w). readable w (depth + 1)) fs"
          "nondefault v depth = sum_list (map (\<lambda>(_, w). nondefault w (depth + 1)) fs)" for st
        using False by (simp_all add: VStruct walk_simps [of "VStruct fs"])
      ultimately show ?thesis unfolding walks_def by metis
    next
      case (VPtr p)
      then show ?thesis using IH False 
        by (cases p) (simp_all add: walks_def walk_simps [of "VPtr q" for q] del: split_paired_All split_paired_Ex)
    next
      case (VBasic tname zero exported)
      then show ?thesis using False by (auto simp: walks_def walk_simps [of "VBasic a b c" for a b c] walked_def)
    next
      case VOther
      then show ?thesis using False by (simp add: walks_def walk_simps [of VOther])
    qed
  qed
qed

subsection \<open>Properties\<close>

text \<open>
  C35. The check of a type ends, also for recursive Go types, as soon as the fuel exceeds the number of
  types that are involved; it visits exactly the types reachable from the given one that were not
  visited before, adds to \<open>errorCount\<close> the number of fields among those whose name does not start with
  an upper-case letter, and checking the same type again does nothing.
\<close>

theorem checkType_complete:
  assumes "closed_types look U" and "t \<in> U" and "card U < fuel" and "\<forall>u\<in>checked s. succs look u \<subseteq> checked s"
  shows "\<exists>s'. checkType isUpper look fuel t s = Some s' \<and> checked s' = checked s \<union> reach look t \<and>
    errorCount s' = errorCount s + (\<Sum>u\<in>reach look t - checked s. lowers isUpper look u) \<and>
    (\<forall>u\<in>checked s'. succs look u \<subseteq> checked s') \<and> checkType isUpper look fuel t s' = Some s'"
proof -
  have "card (U - checked s) \<le> card U" using assms(1) by (intro card_mono) (auto simp: closed_types_def)
  then obtain s' where s': "checkType isUpper look fuel t s = Some s'"
    using checkType_enough(1) [of look U t s fuel isUpper] assms by auto
  note S = checkType_searched(1) [OF s', unfolded searched_def]
  have closed: "\<forall>u\<in>checked s'. succs look u \<subseteq> checked s'" using S assms(4) by blast
  then have all: "reach look t \<subseteq> checked s'" using reach_closed [of _ look t "checked s'"] S by blast
  then have eq: "checked s' = checked s \<union> reach look t" using S by auto
  then have "checked s' - checked s = reach look t - checked s" by blast
  moreover have "t \<in> checked s'" using all reach_refl [of t look] by blast
  then have "checkType isUpper look fuel t s' = Some s'" using assms(3) by (cases fuel) simp_all
  ultimately show ?thesis using S s' closed eq by simp
qed

text \<open>A list node with a lower-case field and a pointer to itself.\<close>

definition sample_look :: "nat \<Rightarrow> nat kind" where
  "sample_look t = (if t = 0 then KStruct [(''next'', 1), (''Val'', 2)] else if t = 1 then KElem 0 else KOther)"

theorem checkType_complete_witness:
  "\<exists>s'. checkType (\<lambda>r. 65 \<le> r \<and> r \<le> 90) sample_look 4 0 \<lparr>errorCount = 0, checked = {}\<rparr> = Some s' \<and>
     checkType (\<lambda>r. 65 \<le> r \<and> r \<le> 90) sample_look 4 0 s' = Some s'"
proof -
  have "closed_types sample_look {0, 1, 2}" by (auto simp: closed_types_def succs_def sample_look_def split: if_splits)
  from checkType_complete [OF this, of 0 4 "\<lparr>errorCount = 0, checked = {}\<rparr>" "\<lambda>r. 65 \<le> r \<and> r \<le> 90"]
  show ?thesis by auto
qed

text \<open>
  The check of a value that is decoded into counts the basic values that are not the default, at
  most three levels deep, and prints a warning for the first of them only; it panics exactly when a
  basic value within that depth sits in a field that is not exported.
\<close>

lemma Decode_warns:
  assumes "checkValue isUpper look fuel t s = Some (Inr s1)" and "0 \<le> errorCount s1"
  shows "if readable v 1
    then \<exists>warnings. Decode isUpper look fuel r t (Some v) s =
        Some (Inr (s1\<lparr>errorCount := errorCount s1 + int (nondefault v 1)\<rparr>, warnings, r)) \<and>
      length warnings = (if errorCount s1 = 0 \<and> 0 < nondefault v 1 then 1 else 0)
    else Decode isUpper look fuel r t (Some v) s = Some (Inl interface_panic)"
  using checkDefault1_walks [of v 1 "[]", unfolded walks_def, THEN spec, of "(errorCount s1, [])"] assms
  by (auto simp: Decode_def checkDefault_def walked_def split_beta Let_def split: if_splits)

end
