(* ===== verification/Http_Server.thy ===== *)
theory Http_Server
  imports Go_Strings
begin

text \<open>
  Lab 1: the file server (\<open>server/http_server.go\<close>) and the proxy (\<open>proxy_server/proxy.go\<close>). What
  \<open>http.ReadRequest\<close> makes of the bytes of a connection is an argument, \<open>None\<close> when it reports an
  error; a response is the structure that \<open>Response.Write\<close> is called on. The file system is a map from
  paths to contents, and failing system calls are switches. The Unicode part of \<open>strings.ToLower\<close>
  is a parameter.
\<close>

subsection \<open>Requests, responses and file types\<close>

record request =
  rq_Method :: string
  rq_URL_Path :: string

record response =
  StatusCode :: nat
  rs_Status :: string
  rs_Header :: "string \<rightharpoonup> string"
  rs_Body :: string

definition StatusText :: "nat \<Rightarrow> string" where
  "StatusText code =
     (if code = 200 then ''OK'' else if code = 201 then ''Created'' else if code = 400 then ''Bad Request''
      else if code = 404 then ''Not Found'' else if code = 500 then ''Internal Server Error''
      else if code = 501 then ''Not Implemented'' else if code = 502 then ''Bad Gateway'' else [])"

definition contentTypes :: "string \<rightharpoonup> string" where
  "contentTypes = map_of
     [(''.html'', ''text/html''), (''.txt'', ''text/plain''), (''.gif'', ''image/gif''),
      (''.jpeg'', ''image/jpeg''), (''.jpg'', ''image/jpeg''), (''.css'', ''text/css'')]"

text \<open>\<open>filepath.Ext\<close>: the suffix from the last dot of the last path element.\<close>

fun ext_scan :: "string \<Rightarrow> string \<Rightarrow> string" where
  "ext_scan [] acc = []"
| "ext_scan (c # rev_rest) acc =
     (if c = CHR ''/'' then [] else if c = CHR ''.'' then c # acc else ext_scan rev_rest (c # acc))"

definition Ext :: "string \<Rightarrow> string" where
  "Ext path = ext_scan (rev path) []"

definition ascii_lower :: "char \<Rightarrow> char" where
  "ascii_lower c = (let k = of_char c :: nat in if 65 \<le> k \<and> k \<le> 90 then char_of (k + 32) else c)"

text \<open>\<open>strings.ToLower\<close>: bytewise on ASCII strings, by the Unicode tables \<open>utab\<close> on others.\<close>

definition ToLower :: "(string \<Rightarrow> string) \<Rightarrow> string \<Rightarrow> string" where
  "ToLower utab s = (if \<forall>c\<in>set s. (of_char c :: nat) < 128 then map ascii_lower s else utab s)"

definition isAllowedFileType :: "(string \<Rightarrow> string) \<Rightarrow> string \<Rightarrow> bool" where
  "isAllowedFileType utab filePath = (let ext = ToLower utab (Ext filePath) in contentTypes ext \<noteq> None)"

definition getContentType :: "(string \<Rightarrow> string) \<Rightarrow> string \<Rightarrow> string go" where
  "getContentType utab filePath =
     (let ext = ToLower utab (Ext filePath) in
      case contentTypes ext of Some contentType \<Rightarrow> Inr contentType | None \<Rightarrow> Inl (LogFatal ''Unknown file type''))"

definition writeResponse :: "nat \<Rightarrow> string \<Rightarrow> string \<Rightarrow> response" where
  "writeResponse statusCode contentType body =
     \<lparr>StatusCode = statusCode, rs_Status = StatusText statusCode,
      rs_Header = [''Content-Type'' \<mapsto> contentType, ''Content-Length'' \<mapsto> itoa (int (length body))],
      rs_Body = body\<rparr>"

subsection \<open>The handlers of the server\<close>

type_synonym files = "string \<rightharpoonup> string"

text \<open>Which system calls succeed: opening, reading all, creating, and how much of the body is copied.\<close>

record io_luck =
  open_ok :: bool
  read_ok :: bool
  create_ok :: bool
  copied :: "nat option"

definition handleGetRequest ::
    "(string \<Rightarrow> string) \<Rightarrow> io_luck \<Rightarrow> request \<Rightarrow> files \<Rightarrow> (files \<times> response) go" where
  "handleGetRequest utab io request fs =
     (let filePath = ''.'' @ rq_URL_Path request in
      if \<not> isAllowedFileType utab filePath then Inr (fs, writeResponse 400 ''text/plain'' ''Bad Request'')
      else case (if open_ok io then fs filePath else None) of
        None \<Rightarrow> Inr (fs, writeResponse 404 ''text/plain'' ''Not Found'')
      | Some fileContent \<Rightarrow>
          if \<not> read_ok io then Inr (fs, writeResponse 500 ''text/plain'' ''Internal Server Error'')
          else go_bind (getContentType utab filePath) (\<lambda>contentType.
            Inr (fs, writeResponse 200 contentType fileContent)))"

text \<open>\<open>body\<close> is what can be read from the request's body; \<open>copied = Some k\<close> when copying fails after \<open>k\<close> bytes.\<close>

definition handlePostRequest ::
    "(string \<Rightarrow> string) \<Rightarrow> io_luck \<Rightarrow> request \<Rightarrow> string \<Rightarrow> files \<Rightarrow> (files \<times> response) go" where
  "handlePostRequest utab io request body fs =
     (let filePath = ''.'' @ rq_URL_Path request in
      if \<not> isAllowedFileType utab filePath then Inr (fs, writeResponse 400 ''text/plain'' ''Bad Request'')
      else if \<not> create_ok io then Inr (fs, writeResponse 500 ''text/plain'' ''Internal Server Error'')
      else case copied io of
        Some k \<Rightarrow> Inr (fs(filePath \<mapsto> take k body), writeResponse 500 ''text/plain'' ''Internal Server Error'')
      | None \<Rightarrow> Inr (fs(filePath \<mapsto> body), writeResponse 201 ''text/plain'' ''File created successfully''))"

definition handleConnection ::
    "(string \<Rightarrow> string) \<Rightarrow> io_luck \<Rightarrow> (request \<times> string) option \<Rightarrow> files \<Rightarrow> (files \<times> response) go" where
  "handleConnection utab io conn fs =
     (case conn of
        None \<Rightarrow> Inr (fs, writeResponse 400 ''text/plain'' ''Bad Request'')
      | Some (request, body) \<Rightarrow>
          if rq_Method request = ''GET'' then handleGetRequest utab io request fs
          else if rq_Method request = ''POST'' then handlePostRequest utab io request body fs
          else Inr (fs, writeResponse 501 ''text/plain'' ''Not Implemented''))"

subsection \<open>The proxy\<close>

type_synonym header = "(string \<times> string list) list"

record proxy_request =
  pr_Method :: string
  pr_RequestURI :: string
  pr_Header :: header

text \<open>\<open>Header.Add\<close> on a header whose names are in canonical form.\<close>

definition header_add :: "string \<Rightarrow> string \<Rightarrow> (string \<rightharpoonup> string list) \<Rightarrow> (string \<rightharpoonup> string list)" where
  "header_add name v h = h(name \<mapsto> (case h name of None \<Rightarrow> [] | Some vs \<Rightarrow> vs) @ [v])"

text \<open>
  \<open>forwardRequest\<close>: \<open>new_ok\<close> says whether \<open>http.NewRequest\<close> accepts the method and the URI, \<open>fetch\<close> is
  \<open>client.Do\<close>. The header is a list in the order in which \<open>range\<close> visits it.
\<close>

definition forwardRequest ::
    "(string \<Rightarrow> string \<Rightarrow> bool) \<Rightarrow> (string \<Rightarrow> string \<Rightarrow> (string \<rightharpoonup> string list) \<Rightarrow> 'r option) \<Rightarrow> proxy_request \<Rightarrow> 'r option" where
  "forwardRequest new_ok fetch clientRequest =
     (if \<not> new_ok (pr_Method clientRequest) (pr_RequestURI clientRequest) then None
      else
        let h = fold (\<lambda>(name, values). fold (header_add name) values) (pr_Header clientRequest) Map.empty
        in fetch (pr_Method clientRequest) (pr_RequestURI clientRequest) h)"

definition writeProxyResponse :: "nat \<Rightarrow> string \<Rightarrow> string \<Rightarrow> response" where
  "writeProxyResponse statusCode contentType body =
     \<lparr>StatusCode = statusCode, rs_Status = StatusText statusCode,
      rs_Header = [''Content-Type'' \<mapsto> contentType, ''Content-Length'' \<mapsto> itoa (int (length body))],
      rs_Body = body\<rparr>"

text \<open>What the client of the proxy gets: a response of the proxy or the relayed one.\<close>

datatype 'r relay = FromProxy response | Relayed 'r

definition handleProxyConnection ::
    "(string \<Rightarrow> string \<Rightarrow> bool) \<Rightarrow> (string \<Rightarrow> string \<Rightarrow> (string \<rightharpoonup> string list) \<Rightarrow> 'r option)
     \<Rightarrow> proxy_request option \<Rightarrow> 'r relay" where
  "handleProxyConnection new_ok fetch conn =
     (case conn of
        None \<Rightarrow> FromProxy (writeProxyResponse 400 ''text/plain'' ''Bad Request'')
      | Some clientRequest \<Rightarrow>
          if pr_Method clientRequest \<noteq> ''GET'' then
            FromProxy (writeProxyResponse 501 ''text/plain'' ''Not Implemented'')
          else case forwardRequest new_ok fetch clientRequest of
            None \<Rightarrow> FromProxy (writeProxyResponse 502 ''text/plain'' ''Bad Gateway'')
          | Some targetResponse \<Rightarrow> Relayed targetResponse)"

subsection \<open>The accept loop and the semaphore\<close>

text \<open>
  \<open>main\<close> of both programs: \<open>q_sem\<close> is the number of values in the semaphore's channel, \<open>q_pending\<close> the
  connection accepted by the loop that waits to send to it, \<open>q_running\<close> the handlers before their
  first deferred call, which receives from the channel, and \<open>q_closing\<close> those that have yet to close
  their connection.
\<close>

record conn_state =
  q_sem :: nat
  q_pending :: "nat option"
  q_running :: "nat list"
  q_closing :: "nat list"

definition maxConcurrentRequests :: nat where
  "maxConcurrentRequests = 10"

definition maxConcurrentProxyRequests :: nat where
  "maxConcurrentProxyRequests = 10"

definition conn_init :: conn_state where
  "conn_init = \<lparr>q_sem = 0, q_pending = None, q_running = [], q_closing = []\<rparr>"

inductive conn_step :: "nat \<Rightarrow> conn_state \<Rightarrow> conn_state \<Rightarrow> bool" for cap where
  accept: "q_pending q = None \<Longrightarrow> conn_step cap q (q\<lparr>q_pending := Some c\<rparr>)"
| accept_error: "q_pending q = None \<Longrightarrow> conn_step cap q q"
| acquire: "q_pending q = Some c \<Longrightarrow> q_sem q < cap \<Longrightarrow>
    conn_step cap q (q\<lparr>q_sem := q_sem q + 1, q_pending := None, q_running := c # q_running q\<rparr>)"
| release: "c \<in> set (q_running q) \<Longrightarrow> q_sem q > 0 \<Longrightarrow>
    conn_step cap q (q\<lparr>q_sem := q_sem q - 1, q_running := remove1 c (q_running q), q_closing := c # q_closing q\<rparr>)"
| close: "c \<in> set (q_closing q) \<Longrightarrow> conn_step cap q (q\<lparr>q_closing := remove1 c (q_closing q)\<rparr>)"

definition server_step :: "conn_state \<Rightarrow> conn_state \<Rightarrow> bool" where
  "server_step = conn_step maxConcurrentRequests"

definition proxy_step :: "conn_state \<Rightarrow> conn_state \<Rightarrow> bool" where
  "proxy_step = conn_step maxConcurrentProxyRequests"

text \<open>Up to the accept loop: \<open>listen\<close> tells whether an address can be listened on.\<close>

definition server_main :: "(string \<Rightarrow> bool) \<Rightarrow> string list \<Rightarrow> conn_state go" where
  "server_main listen args =
     (if length args < 2 then Inl (OsExit 1)
      else let port = args ! 1 in if \<not> listen ('':'' @ port) then Inl (OsExit 1) else Inr conn_init)"

definition proxy_main :: "(string \<Rightarrow> bool) \<Rightarrow> string list \<Rightarrow> conn_state go" where
  "proxy_main listen args =
     (if length args < 2 then Inl (OsExit 1)
      else let port = args ! 1 in if \<not> listen ('':'' @ port) then Inl (OsExit 1) else Inr conn_init)"

lemma mains_start:
  "server_main listen args = Inr q \<Longrightarrow> q = conn_init" "proxy_main listen args = Inr q \<Longrightarrow> q = conn_init"
  by (auto simp: server_main_def proxy_main_def Let_def split: if_splits)

inductive_cases conn_stepE: "conn_step cap q q'"

definition open_conns :: "conn_state \<Rightarrow> nat" where
  "open_conns q = (case q_pending q of None \<Rightarrow> 0 | Some _ \<Rightarrow> 1) + length (q_running q) + length (q_closing q)"

subsection \<open>A limit on running handlers\<close>

text \<open>
  What a program that limits its handlers by a counter promises step by step, and what follows for
  all its executions.
\<close>

locale limiter =
  fixes step :: "'s \<Rightarrow> 's \<Rightarrow> bool" and counter :: "'s \<Rightarrow> nat" and running :: "'s \<Rightarrow> nat" and cap :: nat
  assumes step_exact: "step q q' \<Longrightarrow> counter q = running q \<Longrightarrow> counter q' = running q'"
    and step_cap: "step q q' \<Longrightarrow> counter q \<le> cap \<Longrightarrow> counter q' \<le> cap"
begin

lemma running_bounded:
  assumes "step\<^sup>*\<^sup>* q q'" and "counter q = running q" and "counter q \<le> cap"
  shows "counter q' = running q' \<and> running q' \<le> cap"
  using assms(1)
proof (induction rule: rtranclp_induct)
  case (step y z)
  then have "counter z = running z" and "counter z \<le> cap" using step_exact [of y z] step_cap [of y z] by simp_all
  then show ?case by simp
qed (use assms(2,3) in simp)

end

lemma conn_step_exact:
  "conn_step cap q q' \<Longrightarrow> q_sem q = length (q_running q) \<Longrightarrow> q_sem q' = length (q_running q')"
  by (erule conn_stepE) (auto simp: length_remove1)

lemma conn_step_cap: "conn_step cap q q' \<Longrightarrow> q_sem q \<le> cap \<Longrightarrow> q_sem q' \<le> cap"
  by (erule conn_stepE) auto

interpretation server: limiter server_step q_sem "\<lambda>q. length (q_running q)" maxConcurrentRequests
  by unfold_locales (auto simp: server_step_def intro: conn_step_exact conn_step_cap)

interpretation proxy: limiter proxy_step q_sem "\<lambda>q. length (q_running q)" maxConcurrentProxyRequests
  by unfold_locales (auto simp: proxy_step_def intro: conn_step_exact conn_step_cap)

subsection \<open>File types and headers\<close>

lemma allowed_has_type:
  "isAllowedFileType utab p \<Longrightarrow> \<exists>ct. getContentType utab p = Inr ct \<and> contentTypes (ToLower utab (Ext p)) = Some ct"
  by (auto simp: isAllowedFileType_def getContentType_def Let_def)

text \<open>The connection asks for an allowed file that can be read, with this content and content type.\<close>

definition servable ::
    "(string \<Rightarrow> string) \<Rightarrow> io_luck \<Rightarrow> (request \<times> string) option \<Rightarrow> files \<Rightarrow> string \<Rightarrow> string \<Rightarrow> bool" where
  "servable utab io conn fs content ct \<longleftrightarrow>
     (case conn of None \<Rightarrow> False | Some (q, _) \<Rightarrow> rq_Method q = ''GET'' \<and>
        isAllowedFileType utab (''.'' @ rq_URL_Path q) \<and> contentTypes (ToLower utab (Ext (''.'' @ rq_URL_Path q))) = Some ct \<and>
        open_ok io \<and> read_ok io \<and> fs (''.'' @ rq_URL_Path q) = Some content)"

lemma header_add_values: "values \<noteq> [] \<Longrightarrow> fold (header_add name) values h =
    h(name \<mapsto> (case h name of None \<Rightarrow> [] | Some vs \<Rightarrow> vs) @ values)"
proof (induction "values" arbitrary: h)
  case (Cons v vs)
  then show ?case by (cases "vs = []") (auto simp: header_add_def fun_eq_iff split: option.splits)
qed simp

lemma header_copy:
  assumes "distinct (map fst h)" and "\<forall>(n, vs)\<in>set h. vs \<noteq> []" and "\<forall>n\<in>fst ` set h. acc n = None"
  shows "fold (\<lambda>(name, values). fold (header_add name) values) h acc = acc ++ map_of h"
  using assms
proof (induction h arbitrary: acc)
  case (Cons x h)
  obtain n vs where x: "x = (n, vs)" by (cases x)
  let ?acc = "acc(n \<mapsto> vs)"
  have "fold (header_add n) vs acc = ?acc" using Cons.prems x by (simp add: header_add_values)
  moreover have "fold (\<lambda>(name, values). fold (header_add name) values) h ?acc = ?acc ++ map_of h"
    using Cons.prems x by (intro Cons.IH) (auto simp: image_iff)
  moreover have "map_of h n = None" using Cons.prems x by (simp add: map_of_eq_None_iff)
  then have "?acc ++ map_of h = acc ++ map_of (x # h)" by (auto simp: x fun_eq_iff map_add_def split: option.splits)
  ultimately show ?case by (simp only: x fold_simps prod.case o_apply id_apply)
qed simp

subsection \<open>Properties\<close>

text \<open>
  C20. What the file server answers and does on every request. It never ends the process: the content
  type of an allowed file is always known. A response has status 200 exactly when the request is a
  GET for an allowed file that exists and can be read, and then carries its content and type; it has
  status 201 exactly when a POST for an allowed file stored its whole body, and then the file has
  this content; a malformed request and an allowed-type violation give 400, a missing file 404, an
  unknown method 501, any other failure 500. No other file changes, and only a POST changes one.
\<close>

theorem server_responses:
  "\<exists>fs' r. handleConnection utab io conn fs = Inr (fs', r) \<and>
    (StatusCode r = 200 \<longleftrightarrow> (\<exists>content ct. servable utab io conn fs content ct)) \<and>
    (\<forall>content ct. servable utab io conn fs content ct \<longrightarrow> rs_Body r = content \<and> rs_Header r ''Content-Type'' = Some ct \<and>
       rs_Header r ''Content-Length'' = Some (itoa (int (length content)))) \<and>
    (StatusCode r = 201 \<longleftrightarrow> (\<exists>q b. conn = Some (q, b) \<and> rq_Method q = ''POST'' \<and> isAllowedFileType utab (''.'' @ rq_URL_Path q) \<and>
       create_ok io \<and> copied io = None \<and> fs' = fs(''.'' @ rq_URL_Path q \<mapsto> b))) \<and>
    (StatusCode r = 400 \<longleftrightarrow> conn = None \<or> (\<exists>q b. conn = Some (q, b) \<and> rq_Method q \<in> {''GET'', ''POST''} \<and>
       \<not> isAllowedFileType utab (''.'' @ rq_URL_Path q))) \<and>
    (StatusCode r = 501 \<longleftrightarrow> (\<exists>q b. conn = Some (q, b) \<and> rq_Method q \<notin> {''GET'', ''POST''})) \<and>
    (StatusCode r = 404 \<longleftrightarrow> (\<exists>q b. conn = Some (q, b) \<and> rq_Method q = ''GET'' \<and> isAllowedFileType utab (''.'' @ rq_URL_Path q) \<and>
       (\<not> open_ok io \<or> fs (''.'' @ rq_URL_Path q) = None))) \<and>
    StatusCode r \<in> {200, 201, 400, 404, 500, 501} \<and>
    (fs' \<noteq> fs \<longrightarrow> (\<exists>q b content. conn = Some (q, b) \<and> rq_Method q = ''POST'' \<and> fs' = fs(''.'' @ rq_URL_Path q \<mapsto> content)))"
proof (cases conn)
  case None
  then show ?thesis by (simp add: servable_def handleConnection_def writeResponse_def)
next
  case (Some p)
  obtain q b where p: "p = (q, b)" by (cases p)
  show ?thesis
  proof (cases "isAllowedFileType utab (''.'' @ rq_URL_Path q)")
    case False
    then show ?thesis using Some p
      by (simp add: servable_def handleConnection_def handleGetRequest_def handlePostRequest_def writeResponse_def Let_def)
  next
    case True
    obtain ct where "getContentType utab (''.'' @ rq_URL_Path q) = Inr ct" "contentTypes (ToLower utab (Ext (''.'' @ rq_URL_Path q))) = Some ct"
      using allowed_has_type [OF True] by blast
    then show ?thesis using Some p True
      by (auto simp: servable_def handleConnection_def handleGetRequest_def handlePostRequest_def writeResponse_def Let_def split: option.splits)
  qed
qed

theorem server_responses_witness:
  "\<exists>fs' r. handleConnection (\<lambda>s. s) \<lparr>open_ok = True, read_ok = True, create_ok = True, copied = None\<rparr>
     (Some (\<lparr>rq_Method = ''GET'', rq_URL_Path = ''/a.TXT''\<rparr>, [])) [''./a.TXT'' \<mapsto> ''hi''] = Inr (fs', r) \<and>
     StatusCode r = 200 \<and> rs_Body r = ''hi'' \<and> rs_Header r ''Content-Type'' = Some ''text/plain''"
proof -
  let ?io = "\<lparr>open_ok = True, read_ok = True, create_ok = True, copied = None\<rparr>"
  let ?conn = "Some (\<lparr>rq_Method = ''GET'', rq_URL_Path = ''/a.TXT''\<rparr>, [])" and ?fs = "[''./a.TXT'' \<mapsto> ''hi'']"
  have s: "servable (\<lambda>s. s) ?io ?conn ?fs ''hi'' ''text/plain''" by code_simp
  from server_responses [of "\<lambda>s. s" ?io ?conn ?fs] obtain fs' r where
    r: "handleConnection (\<lambda>s. s) ?io ?conn ?fs = Inr (fs', r)"
      "StatusCode r = 200 \<longleftrightarrow> (\<exists>content ct. servable (\<lambda>s. s) ?io ?conn ?fs content ct)"
      "\<forall>content ct. servable (\<lambda>s. s) ?io ?conn ?fs content ct \<longrightarrow> rs_Body r = content \<and> rs_Header r ''Content-Type'' = Some ct \<and>
         rs_Header r ''Content-Length'' = Some (itoa (int (length content)))"
    by (elim exE conjE) (rule that)
  show ?thesis
    using r(1) iffD2 [OF r(2)] r(3) [rule_format, OF s] s by (intro exI [of _ fs'] exI [of _ r]) blast
qed

text \<open>
  C36. The semaphore: in every execution of the server, and of the proxy, from the command line on, the
  number of requests being handled is the number of values in the channel and never more than ten,
  so a handler's final receive never blocks.
\<close>

theorem handlers_bounded:
  "(server_main listen args = Inr q0 \<and> server_step\<^sup>*\<^sup>* q0 q \<longrightarrow> length (q_running q) \<le> 10 \<and> q_sem q = length (q_running q)) \<and>
   (proxy_main listen args = Inr q0 \<and> proxy_step\<^sup>*\<^sup>* q0 q \<longrightarrow> length (q_running q) \<le> 10 \<and> q_sem q = length (q_running q))"
  using server.running_bounded [of conn_init q] proxy.running_bounded [of conn_init q]
  by (auto simp: conn_init_def maxConcurrentRequests_def maxConcurrentProxyRequests_def dest!: mains_start)

theorem handlers_bounded_witness:
  "length (q_running (conn_init\<lparr>q_sem := 1, q_running := [3]\<rparr>)) \<le> 10 \<and> q_sem (conn_init\<lparr>q_sem := 1, q_running := [3]\<rparr>) = 1"
proof -
  let ?q1 = "conn_init\<lparr>q_pending := Some 3\<rparr>" and ?q2 = "conn_init\<lparr>q_sem := 1, q_running := [3]\<rparr>"
  have "server_step conn_init ?q1"
    unfolding server_step_def by (rule conn_step.accept) (simp add: conn_init_def)
  moreover have "server_step ?q1 ?q2"
    using conn_step.acquire [of ?q1 3 maxConcurrentRequests] by (simp add: server_step_def conn_init_def maxConcurrentRequests_def)
  ultimately have "server_step\<^sup>*\<^sup>* conn_init ?q2" by (meson converse_rtranclp_into_rtranclp rtranclp.rtrancl_refl)
  moreover have "server_main (\<lambda>_. True) [''http_server'', ''80''] = Inr conn_init" by (simp add: server_main_def)
  ultimately show ?thesis using handlers_bounded [of "\<lambda>_. True" "[''http_server'', ''80'']" conn_init ?q2] by simp
qed

text \<open>
  C38. The proxy forwards a well-formed GET request unchanged, same method, same URI and, given that
  the request's header has distinct names with at least one value each, the same header, and relays
  whatever response it gets; without a response the client gets status 502, for another method 501,
  for a malformed request 400.
\<close>

theorem proxy_relays:
  assumes "distinct (map fst (pr_Header req))" and "\<forall>(n, vs)\<in>set (pr_Header req). vs \<noteq> []"
  shows "handleProxyConnection new_ok fetch (Some req) =
      (if pr_Method req \<noteq> ''GET'' then FromProxy (writeProxyResponse 501 ''text/plain'' ''Not Implemented'')
       else if \<not> new_ok ''GET'' (pr_RequestURI req) then FromProxy (writeProxyResponse 502 ''text/plain'' ''Bad Gateway'')
       else case fetch ''GET'' (pr_RequestURI req) (map_of (pr_Header req)) of
         None \<Rightarrow> FromProxy (writeProxyResponse 502 ''text/plain'' ''Bad Gateway'') | Some r \<Rightarrow> Relayed r) \<and>
    handleProxyConnection new_ok fetch None = FromProxy (writeProxyResponse 400 ''text/plain'' ''Bad Request'')"
  using header_copy [OF assms, of Map.empty] by (simp add: handleProxyConnection_def forwardRequest_def split: option.splits)

theorem proxy_relays_witness:
  "handleProxyConnection (\<lambda>_ _. True) (\<lambda>m u h. Some (u, h ''Accept''))
     (Some \<lparr>pr_Method = ''GET'', pr_RequestURI = ''http://h/a'', pr_Header = [(''Accept'', [''x'', ''y''])]\<rparr>) =
   Relayed (''http://h/a'', Some [''x'', ''y''])"
  using proxy_relays [of "\<lparr>pr_Method = ''GET'', pr_RequestURI = ''http://h/a'', pr_Header = [(''Accept'', [''x'', ''y''])]\<rparr>"
      "\<lambda>_ _. True" "\<lambda>m u h. Some (u, h ''Accept'')"] by simp

text \<open>
  The path is not confined: a request for a path that climbs out of the working directory is served
  like any other, as long as the file has an allowed extension.
\<close>

lemma path_traversal:
  assumes "fs ''./../secret.txt'' = Some content"
  shows "\<exists>r. handleConnection utab \<lparr>open_ok = True, read_ok = True, create_ok = True, copied = None\<rparr>
      (Some (\<lparr>rq_Method = ''GET'', rq_URL_Path = ''/../secret.txt''\<rparr>, [])) fs = Inr (fs, r) \<and> StatusCode r = 200 \<and> rs_Body r = content"
  using assms
  by (simp add: handleConnection_def handleGetRequest_def isAllowedFileType_def getContentType_def ToLower_def Ext_def ascii_lower_def
      contentTypes_def writeResponse_def Let_def)

text \<open>The number of open connections is not limited to ten: the loop accepts before it waits.\<close>

lemma eleven_open:
  assumes "server_step\<^sup>*\<^sup>* conn_init q" and "length (q_running q) = 10" and "q_pending q = None"
  shows "server_step\<^sup>*\<^sup>* conn_init (q\<lparr>q_pending := Some c\<rparr>) \<and> open_conns (q\<lparr>q_pending := Some c\<rparr>) \<ge> 11"
  using rtranclp.rtrancl_into_rtrancl [OF assms(1)] conn_step.accept [OF assms(3)] assms(2)
  by (simp add: server_step_def open_conns_def)

end
