(* ===== verification/Commands.thy ===== *)
theory Commands
  imports Go_Parse
begin

text \<open>
  The programs that start and call the disk, lock, primary/backup and view services (\<open>main/diskvd.go\<close>,
  \<open>main/lockc.go\<close>, \<open>main/lockd.go\<close>, \<open>main/pbc.go\<close>, \<open>main/pbd.go\<close>, \<open>main/viewd.go\<close>). The services are not in the
  repository: what their functions return is an argument. A program's result is the server it leaves
  running or what it prints; what follows, sleeping forever or for ten minutes, is left out.
\<close>

subsection \<open>The disk server\<close>

record diskv_conf =
  dc_gid :: int
  dc_masters :: "string list"
  dc_replicas :: "string list"
  dc_me :: int
  dc_unreliable :: bool
  dc_dir :: string
  dc_restart :: bool

definition diskvd_defaults :: diskv_conf where
  "diskvd_defaults = \<lparr>dc_gid = -1, dc_masters = [], dc_replicas = [], dc_me = -1, dc_unreliable = False, dc_dir = [], dc_restart = False\<rparr>"

definition usage :: "'a go" where
  "usage = Inl (OsExit 1)"

text \<open>One flag with its argument; the errors of \<open>strconv\<close> are dropped, the value returned with them is kept.\<close>

definition diskvd_flag :: "string \<Rightarrow> string \<Rightarrow> diskv_conf \<Rightarrow> diskv_conf go" where
  "diskvd_flag a0 a1 c =
     (if a0 = ''-g'' then Inr (c\<lparr>dc_gid := fst (ParseInt a1)\<rparr>)
      else if a0 = ''-m'' then Inr (c\<lparr>dc_masters := dc_masters c @ [a1]\<rparr>)
      else if a0 = ''-s'' then Inr (c\<lparr>dc_replicas := dc_replicas c @ [a1]\<rparr>)
      else if a0 = ''-i'' then Inr (c\<lparr>dc_me := fst (ParseInt a1)\<rparr>)
      else if a0 = ''-u'' then Inr (c\<lparr>dc_unreliable := fst (ParseBool a1)\<rparr>)
      else if a0 = ''-d'' then Inr (c\<lparr>dc_dir := a1\<rparr>)
      else if a0 = ''-r'' then Inr (c\<lparr>dc_restart := fst (ParseBool a1)\<rparr>)
      else usage)"

text \<open>The loop takes the arguments two by two; a last one alone is not looked at.\<close>

fun diskvd_loop :: "string list \<Rightarrow> diskv_conf \<Rightarrow> diskv_conf go" where
  "diskvd_loop (a0 # a1 # args) c = go_bind (diskvd_flag a0 a1 c) (diskvd_loop args)"
| "diskvd_loop _ c = Inr c"

definition diskvd_main ::
    "(int \<Rightarrow> string list \<Rightarrow> string list \<Rightarrow> int \<Rightarrow> string \<Rightarrow> bool \<Rightarrow> 'srv) \<Rightarrow> (bool \<Rightarrow> 'srv \<Rightarrow> 'srv) \<Rightarrow> string list \<Rightarrow> 'srv go" where
  "diskvd_main StartServer Setunreliable args =
     go_bind (diskvd_loop (tl args) diskvd_defaults) (\<lambda>c.
       if dc_gid c < 0 \<or> dc_me c < 0 \<or> length (dc_masters c) < 1 \<or> dc_me c \<ge> int (length (dc_replicas c)) \<or> dc_dir c = []
       then usage
       else let srv = StartServer (dc_gid c) (dc_masters c) (dc_replicas c) (dc_me c) (dc_dir c) (dc_restart c)
            in Inr (Setunreliable (dc_unreliable c) srv))"

subsection \<open>The lock, primary/backup and view programs\<close>

definition lockc_main ::
    "(string \<Rightarrow> string \<Rightarrow> 'ck) \<Rightarrow> ('ck \<Rightarrow> string \<Rightarrow> bool) \<Rightarrow> ('ck \<Rightarrow> string \<Rightarrow> bool) \<Rightarrow> string list \<Rightarrow> bool go" where
  "lockc_main MakeClerk Lock Unlock args =
     (if length args = 5 then
        let ck = MakeClerk (args ! 2) (args ! 3) in
        if args ! 1 = ''-l'' then Inr (Lock ck (args ! 4))
        else if args ! 1 = ''-u'' then Inr (Unlock ck (args ! 4))
        else usage
      else usage)"

definition lockd_main :: "(string \<Rightarrow> string \<Rightarrow> bool \<Rightarrow> 'srv) \<Rightarrow> string list \<Rightarrow> 'srv go" where
  "lockd_main StartServer args =
     (if length args = 4 \<and> args ! 1 = ''-p'' then Inr (StartServer (args ! 2) (args ! 3) True)
      else if length args = 4 \<and> args ! 1 = ''-b'' then Inr (StartServer (args ! 2) (args ! 3) False)
      else usage)"

text \<open>The client prints the value of a get and nothing after a put; \<open>Put\<close> is the state after the call.\<close>

definition pbc_main ::
    "(string \<Rightarrow> string \<Rightarrow> 'ck) \<Rightarrow> ('ck \<Rightarrow> string \<Rightarrow> 's \<Rightarrow> string \<times> 's) \<Rightarrow> ('ck \<Rightarrow> string \<Rightarrow> string \<Rightarrow> 's \<Rightarrow> 's)
     \<Rightarrow> string list \<Rightarrow> 's \<Rightarrow> (string \<times> 's) go" where
  "pbc_main MakeClerk Get Put args s =
     (if length args = 3 then
        let ck = MakeClerk (args ! 1) []; (v, s') = Get ck (args ! 2) s in Inr (v @ [CHR 0x0A], s')
      else if length args = 4 then
        let ck = MakeClerk (args ! 1) [] in Inr ([], Put ck (args ! 2) (args ! 3) s)
      else usage)"

definition pbd_main :: "(string \<Rightarrow> string \<Rightarrow> 'srv) \<Rightarrow> string list \<Rightarrow> 'srv go" where
  "pbd_main StartServer args = (if length args \<noteq> 3 then usage else Inr (StartServer (args ! 1) (args ! 2)))"

definition viewd_main :: "(string \<Rightarrow> 'srv) \<Rightarrow> string list \<Rightarrow> 'srv go" where
  "viewd_main StartServer args = (if length args \<noteq> 2 then usage else Inr (StartServer (args ! 1)))"

text \<open>
  What is put with \<open>pbc view key value\<close> is printed by \<open>pbc view key\<close>, if the service returns what was
  put.
\<close>

lemma pbc_put_get:
  assumes "\<And>ck k v s. fst (Get ck k (Put ck k v s)) = v"
    and "pbc_main MakeClerk Get Put [prog, view, k, v] s = Inr (out, s')"
  shows "\<exists>s''. out = [] \<and> pbc_main MakeClerk Get Put [prog, view, k] s' = Inr (v @ [CHR 0x0A], s'')"
  using assms by (auto simp: pbc_main_def Let_def split: prod.splits) (metis fst_conv)

subsection \<open>Command lines of the disk server\<close>

text \<open>The flags of a configuration, and a command line for a list of flags.\<close>

definition show_bool :: "bool \<Rightarrow> string" where
  "show_bool b = (if b then ''true'' else ''false'')"

definition diskvd_flags :: "diskv_conf \<Rightarrow> (string \<times> string) list" where
  "diskvd_flags c =
     [(''-g'', itoa (dc_gid c))] @ map (Pair ''-m'') (dc_masters c) @ map (Pair ''-s'') (dc_replicas c) @
     [(''-i'', itoa (dc_me c)), (''-u'', show_bool (dc_unreliable c)), (''-d'', dc_dir c), (''-r'', show_bool (dc_restart c))]"

definition command_line :: "(string \<times> string) list \<Rightarrow> string list" where
  "command_line ps = concat (map (\<lambda>(f, a). [f, a]) ps)"

lemma command_line_simps [simp]:
  "command_line [] = []" "command_line ((f, a) # ps) = f # a # command_line ps"
  by (simp_all add: command_line_def)

definition diskv_valid :: "diskv_conf \<Rightarrow> bool" where
  "diskv_valid c \<longleftrightarrow> 0 \<le> dc_gid c \<and> dc_gid c < 2 ^ 63 \<and> 0 \<le> dc_me c \<and> dc_me c < 2 ^ 63 \<and> dc_masters c \<noteq> [] \<and>
     dc_me c < int (length (dc_replicas c)) \<and> dc_dir c \<noteq> []"

definition diskv_launch ::
    "(int \<Rightarrow> string list \<Rightarrow> string list \<Rightarrow> int \<Rightarrow> string \<Rightarrow> bool \<Rightarrow> 'srv) \<Rightarrow> (bool \<Rightarrow> 'srv \<Rightarrow> 'srv) \<Rightarrow> diskv_conf \<Rightarrow> 'srv" where
  "diskv_launch StartServer Setunreliable c =
     Setunreliable (dc_unreliable c) (StartServer (dc_gid c) (dc_masters c) (dc_replicas c) (dc_me c) (dc_dir c) (dc_restart c))"

text \<open>What the arguments of a flag make of a field: the last one counts, or all of them in order.\<close>

definition flag_args :: "string \<Rightarrow> (string \<times> string) list \<Rightarrow> string list" where
  "flag_args f ps = map snd (filter (\<lambda>p. fst p = f) ps)"

definition last_arg :: "(string \<Rightarrow> 'v) \<Rightarrow> 'v \<Rightarrow> string list \<Rightarrow> 'v" where
  "last_arg rd v as = (if as = [] then v else rd (last as))"

definition known_flags :: "string set" where
  "known_flags = {''-g'', ''-m'', ''-s'', ''-i'', ''-u'', ''-d'', ''-r''}"

lemma flag_args_Cons [simp]: "flag_args f ((g, a) # ps) = (if g = f then a # flag_args f ps else flag_args f ps)"
  by (simp add: flag_args_def)

lemma flag_args_Nil [simp]: "flag_args f [] = []"
  by (simp add: flag_args_def)

lemma last_arg_simps [simp]:
  "last_arg rd v [] = v" "last_arg rd v (a # as) = last_arg rd (rd a) as"
  by (simp_all add: last_arg_def)

lemma diskvd_loop_rest: "length extra \<le> 1 \<Longrightarrow> diskvd_loop extra c = Inr c"
  by (cases "(extra, c)" rule: diskvd_loop.cases) auto

lemma diskvd_loop_fields:
  assumes "fst ` set ps \<subseteq> known_flags" and "length extra \<le> 1"
  shows "diskvd_loop (command_line ps @ extra) c = Inr
    \<lparr>dc_gid = last_arg (fst \<circ> ParseInt) (dc_gid c) (flag_args ''-g'' ps),
     dc_masters = dc_masters c @ flag_args ''-m'' ps, dc_replicas = dc_replicas c @ flag_args ''-s'' ps,
     dc_me = last_arg (fst \<circ> ParseInt) (dc_me c) (flag_args ''-i'' ps),
     dc_unreliable = last_arg (fst \<circ> ParseBool) (dc_unreliable c) (flag_args ''-u'' ps),
     dc_dir = last_arg id (dc_dir c) (flag_args ''-d'' ps),
     dc_restart = last_arg (fst \<circ> ParseBool) (dc_restart c) (flag_args ''-r'' ps)\<rparr>"
  using assms(1)
proof (induction ps arbitrary: c)
  case Nil
  then show ?case by (simp add: diskvd_loop_rest [OF assms(2)])
next
  case (Cons p ps)
  obtain f a where p: "p = (f, a)" by (cases p)
  have "f \<in> known_flags" "fst ` set ps \<subseteq> known_flags" using Cons.prems by (simp_all add: p)
  then show ?case by (auto simp: p known_flags_def diskvd_flag_def Cons.IH)
qed

text \<open>The arguments of the flags that are written for a configuration.\<close>

lemma flag_args_append [simp]: "flag_args f (ps @ qs) = flag_args f ps @ flag_args f qs"
  by (simp add: flag_args_def)

lemma flag_args_map [simp]: "flag_args f (map (Pair g) as) = (if g = f then as else [])"
  by (induction as) auto

lemma flag_args_of_flags:
  "flag_args ''-g'' (diskvd_flags c) = [itoa (dc_gid c)]" "flag_args ''-m'' (diskvd_flags c) = dc_masters c"
  "flag_args ''-s'' (diskvd_flags c) = dc_replicas c" "flag_args ''-i'' (diskvd_flags c) = [itoa (dc_me c)]"
  "flag_args ''-u'' (diskvd_flags c) = [show_bool (dc_unreliable c)]" "flag_args ''-d'' (diskvd_flags c) = [dc_dir c]"
  "flag_args ''-r'' (diskvd_flags c) = [show_bool (dc_restart c)]"
  by (simp_all add: diskvd_flags_def)

lemma known_of_flags: "f \<notin> known_flags \<Longrightarrow> flag_args f (diskvd_flags c) = []"
  by (auto simp: known_flags_def diskvd_flags_def)

lemma flag_args_in: "p \<in> set ps \<Longrightarrow> flag_args (fst p) ps \<noteq> []"
  by (auto simp: flag_args_def filter_empty_conv)

lemma ParseBool_show [simp]: "ParseBool (show_bool b) = (b, False)"
  by (simp add: ParseBool_def show_bool_def)

lemma diskvd_loop_flags:
  assumes "diskv_valid c" and "\<forall>f. flag_args f ps = flag_args f (diskvd_flags c)" and "length extra \<le> 1"
  shows "diskvd_loop (command_line ps @ extra) diskvd_defaults = Inr c"
proof -
  have "fst ` set ps \<subseteq> known_flags"
  proof
    fix f assume "f \<in> fst ` set ps"
    then have "flag_args f ps \<noteq> []" using flag_args_in by blast
    then show "f \<in> known_flags" using assms(2) known_of_flags by metis
  qed
  moreover have "ParseInt (itoa (dc_gid c)) = (dc_gid c, False)" "ParseInt (itoa (dc_me c)) = (dc_me c, False)"
    using assms(1) by (simp_all add: diskv_valid_def ParseInt_itoa)
  ultimately show ?thesis
    by (simp add: diskvd_loop_fields [OF _ assms(3)] assms(2) flag_args_of_flags diskvd_defaults_def)
qed

subsection \<open>Numbers that are read fit into 64 bits\<close>

lemma ParseInt_range: "- (2 ^ 63) \<le> fst (ParseInt s) \<and> fst (ParseInt s) < 2 ^ 63"
  by (auto simp: ParseInt_def Let_def split: prod.splits)

definition fits :: "diskv_conf \<Rightarrow> bool" where
  "fits c \<longleftrightarrow> dc_gid c < 2 ^ 63 \<and> dc_me c < 2 ^ 63"

lemma diskvd_loop_fits: "diskvd_loop args c = Inr c' \<Longrightarrow> fits c \<Longrightarrow> fits c'"
proof (induction args c rule: diskvd_loop.induct)
  case (1 a0 a1 args c)
  then obtain c1 where c1: "diskvd_flag a0 a1 c = Inr c1" "diskvd_loop args c1 = Inr c'" by (auto simp: go_bind_eq_Inr)
  then have "fits c1" using "1.prems"(2) ParseInt_range [of a1] by (auto simp: diskvd_flag_def fits_def usage_def split: if_splits)
  then show ?case using "1.IH" [OF c1] by simp
qed auto

lemma diskvd_loop_exit: "diskvd_loop args c = Inl e \<Longrightarrow> e = OsExit 1"
proof (induction args c rule: diskvd_loop.induct)
  case (1 a0 a1 args c)
  show ?case
  proof (cases "diskvd_flag a0 a1 c")
    case (Inl e')
    then show ?thesis using "1.prems" by (auto simp: diskvd_flag_def usage_def split: if_splits)
  next
    case (Inr c1)
    then show ?thesis using 1 by simp
  qed
qed auto

lemma diskvd_main_outcome:
  "diskvd_main StartServer Setunreliable args = Inl (OsExit 1) \<or>
   (\<exists>c. diskv_valid c \<and> diskvd_main StartServer Setunreliable args = Inr (diskv_launch StartServer Setunreliable c))"
proof (cases "diskvd_loop (tl args) diskvd_defaults")
  case (Inl e)
  then show ?thesis using diskvd_loop_exit by (simp add: diskvd_main_def)
next
  case (Inr c)
  have "fits c" by (rule diskvd_loop_fits [OF Inr]) (simp add: fits_def diskvd_defaults_def)
  then show ?thesis using Inr
    by (auto simp: diskvd_main_def diskv_valid_def diskv_launch_def fits_def usage_def Let_def not_less Suc_le_eq)
qed

text \<open>A group or an index that is not a number is not refused: the server starts as 0.\<close>

lemma diskvd_malformed_numbers:
  "diskvd_main StartServer Setunreliable
     [''diskvd'', ''-g'', ''x'', ''-m'', ''m'', ''-s'', ''s'', ''-i'', ''y'', ''-d'', ''d''] =
   Inr (Setunreliable False (StartServer 0 [''m''] [''s''] 0 ''d'' False))"
proof -
  have "ParseInt ''x'' = (0, True)" "ParseInt ''y'' = (0, True)" by code_simp+
  then show ?thesis by (simp add: diskvd_main_def diskvd_flag_def diskvd_defaults_def Let_def)
qed

subsection \<open>Property\<close>

text \<open>
  C32. The command line of the disk server: the flags of a valid configuration, in any order that
  keeps the ports of the masters and of the replicas in sequence, with or without a stray last
  argument, start the server with that configuration; whatever the arguments, the program either
  starts a server with a valid configuration or exits with status 1.
\<close>

theorem diskvd_command_line:
  assumes "diskv_valid c" and "\<forall>f. flag_args f ps = flag_args f (diskvd_flags c)" and "length extra \<le> 1"
  shows "diskvd_main StartServer Setunreliable (prog # command_line ps @ extra) = Inr (diskv_launch StartServer Setunreliable c) \<and>
    (\<forall>args. diskvd_main StartServer Setunreliable args = Inl (OsExit 1) \<or>
      (\<exists>c'. diskv_valid c' \<and> diskvd_main StartServer Setunreliable args = Inr (diskv_launch StartServer Setunreliable c')))"
proof
  show "diskvd_main StartServer Setunreliable (prog # command_line ps @ extra) = Inr (diskv_launch StartServer Setunreliable c)"
    using assms(1) by (simp add: diskvd_main_def diskvd_loop_flags [OF assms] diskv_launch_def diskv_valid_def Suc_le_eq not_less)
  show "\<forall>args. diskvd_main StartServer Setunreliable args = Inl (OsExit 1) \<or>
      (\<exists>c'. diskv_valid c' \<and> diskvd_main StartServer Setunreliable args = Inr (diskv_launch StartServer Setunreliable c'))"
    using diskvd_main_outcome by blast
qed

theorem diskvd_command_line_witness:
  "diskvd_main (\<lambda>g ms ss i d r. (g, ms, ss, i, d, r)) (\<lambda>u srv. srv)
     [''diskvd'', ''-d'', ''/tmp/x'', ''-s'', ''s0'', ''-m'', ''m0'', ''-s'', ''s1'', ''-r'', ''false'', ''-u'', ''true'', ''-i'', ''1'', ''-g'', ''42'', ''-m''] =
   Inr (42, [''m0''], [''s0'', ''s1''], 1, ''/tmp/x'', False)"
proof -
  let ?c = "\<lparr>dc_gid = 42, dc_masters = [''m0''], dc_replicas = [''s0'', ''s1''], dc_me = 1, dc_unreliable = True,
    dc_dir = ''/tmp/x'', dc_restart = False\<rparr>"
  let ?ps = "[(''-d'', ''/tmp/x''), (''-s'', ''s0''), (''-m'', ''m0''), (''-s'', ''s1''), (''-r'', ''false''), (''-u'', ''true''), (''-i'', ''1''), (''-g'', ''42'')]"
  have "itoa 42 = ''42''" "itoa 1 = ''1''" by code_simp+
  then have "\<forall>f. flag_args f ?ps = flag_args f (diskvd_flags ?c)" by (auto simp: diskvd_flags_def show_bool_def)
  moreover have "diskv_valid ?c" by (simp add: diskv_valid_def)
  ultimately show ?thesis
    using diskvd_command_line [of ?c ?ps "[''-m'']" "\<lambda>g ms ss i d r. (g, ms, ss, i, d, r)" "\<lambda>u srv. srv" "''diskvd''"]
    by (simp add: diskv_launch_def)
qed

end
