(* ===== verification/Spec2Isabelle.thy ===== *)
theory Spec2Isabelle
  imports Kv_Model Visualization Shard_Harness Mr_Main Mr_Timing Raft_Lifecycle Raft_Agreement Random_Names Kv_Config Ctrler_Config
    Labgob Http_Server Commands
begin

text \<open>
  A verification development of two labs on distributed systems, written in Go. Lab 1
  (\<open>src/Lab 1\<close>) is a concurrent file server and a proxy. Lab 2 (\<open>src/Lab 2/src\<close>) is a distributed
  map/reduce together with the framework for a replicated, sharded key/value store: a simulated
  network, a Raft peer that is only begun, the clients and servers around it, the test
  harnesses, and the linearizability checker that judges what clients of the store have seen.

  \<^bold>\<open>How the parts interact.\<close> Map/reduce workers ask the coordinator for tasks over RPC and exchange
  data through files; applications supply the map and reduce functions. Harnesses build a cluster on
  the simulated network: they create ends and servers, connect, partition, stop and restart them,
  give each Raft peer a persister, and read what the peers deliver. Clients send requests through
  ends of the network; \<open>labgob\<close> encodes what is sent. The histories that clients record go to the
  checker with a sequential model of the store; its verdict and the partial linearizations it found
  are drawn by the visualization.

  \<^bold>\<open>Reading of Go.\<close> \<open>Prelude\<close> fixes it for all theories: a computation that may panic or end the process
  returns a value of the sum type \<open>go\<close>, whose left part names the panic or fatal error; \<open>go_bind\<close> and
  \<open>go_fold\<close> sequence statements and loops; slices are lists with checked access; 64- and 32-bit values
  whose wrap-around matters are words. Pointers whose identity matters (list nodes, persisters,
  peers, servers) are addresses into explicit heaps. A handler that runs under a mutex is one
  transition. Loops that may not end are partial functions into an option type, \<open>None\<close> being a run
  that does not return. Random numbers, clock readings, what peers answer, method tables found by
  reflection and the results of system calls are arguments. \<open>Go_Strings\<close> and \<open>Go_Parse\<close> hold the functions on
  strings of the standard library that the program calls, with strings as lists of bytes: splitting,
  printing numbers and reading them back.

  \<^bold>\<open>The linearizability checker\<close> (\<open>porcupine/\<close>, \<open>models/kv.go\<close>).
  \<^item> \<open>Bitset\<close> models \<open>bitset.go\<close> on 64-bit words. The locale \<open>id_container\<close> states what the search needs of
    a set of operation ids, and the bit sets interpret it.
  \<^item> \<open>Porc_Model\<close> has the types of \<open>model.go\<close>; \<open>Checker\<close> has the part of \<open>checker.go\<close> that works on one
    partition, with the doubly linked list in a heap. \<open>Node_List\<close> shows that \<open>lift\<close> and \<open>unlift\<close> remove and
    restore an operation. \<open>Linearizability\<close> is the specification, \<open>Search_Space\<close> relates heap, stack and
    cache to it, and \<open>Checker_Correct\<close> proves that \<open>checkSingle\<close> returns, does not panic and decides it.
  \<^item> \<open>Histories\<close> relates recorded operations and events to entries, for any sorting function that satisfies
    the locale \<open>entry_sort\<close>. \<open>Porcupine\<close> adds \<open>checkParallel\<close> with its early exit and timeout, and the entry
    points of \<open>porcupine.go\<close>, for any schedule of the partitions.
  \<^item> \<open>Kv_Model\<close> models \<open>models/kv.go\<close>, interprets the locale \<open>sequential_model\<close> of \<open>Checker_Correct\<close> with it, and
    proves that \<open>CheckOperations\<close> on it decides linearizability of a store with all its keys, which is
    specified independently. It also proves that an empty history makes the check wait forever.
  \<^item> \<open>Visualization\<close> models the computation of the data in \<open>visualization.go\<close> and proves it consistent with
    the information a check returns.

  \<^bold>\<open>Map/reduce\<close> (\<open>mr/\<close>, \<open>mrapps/\<close>, \<open>main/mr*.go\<close>).
  \<^item> \<open>Mr_Coordinator\<close> models the coordinator's handlers and timeout rounds: what each does on every
    branch, and an invariant by rule induction over \<open>coord_step\<close>. \<open>Mr_Worker\<close> models the worker and the
    sequential program. \<open>Mr_Effects\<close> gives what tasks do to the files; \<open>Json_Stream\<close> states what the worker
    relies on from \<open>encoding/json\<close> as the locale \<open>json_stream\<close>, with a codec that provides it.
  \<^item> \<open>Mr_System\<close> is the step relation \<open>mr_step\<close> of a coordinator with any number of workers that may die,
    be slow and be timed out. \<open>Mr_Run\<close> shows that a finished job agrees with the sequential program and
    that a single worker finishes it, and exhibits the loss of pairs when a map task runs again while
    its files are read. \<open>Mr_Apps\<close> models the applications and derives the correctness of word count;
    \<open>Mr_Timing\<close> has the part of the timing applications that counts processes.
  \<^item> \<open>Mr_Main\<close> models the programs \<open>mrcoordinator\<close>, \<open>mrworker\<close> and \<open>mrsequential\<close> with their command lines, the
    loading of plugins and the polling loop, lifts agreement to whole programs, and shows that from any
    state, however many workers have died, one new worker finishes the job after a timeout round.

  \<^bold>\<open>Network, peers and harnesses\<close> (\<open>labrpc/\<close>, \<open>labgob/\<close>, \<open>raft/\<close>, \<open>kvraft/\<close>, \<open>shardctrler/\<close>, \<open>shardkv/\<close>).
  \<^item> \<open>Labrpc\<close> models the network, servers and services: who can answer a request, that reliable networks
    deliver, that every request is answered in bounded time, and how dispatch finds a method. \<open>Labgob\<close>
    models the checks on types and values before encoding and decoding; recursion over types has fuel,
    and more fuel than there are types is proved to be enough.
  \<^item> \<open>Raft_Node\<close> models the persister and the peer, with the parts the assignment leaves open doing nothing.
    \<open>Harness\<close> has what all harnesses share, on the locale \<open>switchboard\<close> that \<open>Network.Enable\<close> interprets.
    \<open>Random_Names\<close> models \<open>randstring\<close> with base64 and says when the ends named by it can be made.
  \<^item> \<open>Raft_Config\<close>, \<open>Raft_Lifecycle\<close> and \<open>Raft_Agreement\<close> model \<open>raft/config.go\<close>: after any sequence of starting,
    crashing, connecting and disconnecting, an end reaches exactly the server it should; a restarted
    server starts from what was persisted; the readers of the apply channels keep the logs in
    agreement; \<open>checkOneLeader\<close> and \<open>one\<close> answer correctly. The polling loops have the bounds of the code
    (ten rounds for a leader, thirty waits of doubling length, ten seconds for agreement).
  \<^item> \<open>Shard_Clients\<close> models the servers of the three services and the clients of the shard controller and of
    the sharded store; calls may be lost or answered with errors, and \<open>Get\<close> is shown to return only
    what a responsible group answered, and to return when one does.
  \<^item> \<open>Cluster\<close> has the part that \<open>kvraft/config.go\<close> and \<open>shardctrler/config.go\<close> share. \<open>Cluster_Spec\<close> is its
    abstract specification, who is up and who may send to whom, with a simulation proved once in the
    locales \<open>test_cluster\<close> and \<open>cluster_lifecycle\<close>. \<open>Kv_Config\<close> and \<open>Ctrler_Config\<close> model the two harnesses and
    interpret the locales: after any sequence of operations partitions separate exactly the groups, and
    \<open>make_partition\<close> puts the leader in the minority.
  \<^item> \<open>Cluster_Calls\<close> follows a call from a client's end to a handler: which servers a client is linked to after
    \<open>makeClient\<close>, \<open>ConnectClient\<close> and \<open>DisconnectClient\<close>, what is registered behind a server's name (the locale
    \<open>serving_cluster\<close>, interpreted by both harnesses), and what \<open>Call\<close> returns then. The property at the end of
    this theory puts the controller's harness, client, network and dispatcher together.
  \<^item> \<open>Shard_Config\<close> models \<open>shardkv/config.go\<close>; \<open>Shard_Harness\<close> proves for which group sizes it works, under
    which names servers are registered and announced, and what a shutdown cuts off, over any sequence
    of operations.

  \<^bold>\<open>Lab 1\<close> (\<open>server/\<close>, \<open>proxy_server/\<close>). \<open>Http_Server\<close> models both programs: every connection gets exactly one
  response, which one on every branch, what the proxy relays, and, for the accept loops as a step
  relation satisfying the locale \<open>limiter\<close>, that never more handlers run than the limit.

  \<^bold>\<open>Commands\<close> (\<open>main/diskvd.go\<close> and the programs of the lock, primary/backup and view services). \<open>Commands\<close> models
  them with the services, which are not in the repository, as arguments, and shows that the command
  line of the disk server conveys exactly the valid configurations.

  \<^bold>\<open>Not modelled.\<close> The HTML page of the visualization (\<open>porcupine/visualization.go\<close> from line 111) is a
  constant text with JavaScript. \<open>encoding/gob\<close>, \<open>encoding/json\<close>, \<open>net/rpc\<close>, \<open>net/http\<close> and \<open>plugin\<close> appear through
  arguments. Copies of the same function in several packages (\<open>randstring\<close>, \<open>makeSeed\<close>, \<open>random_handles\<close>, \<open>loadPlugin\<close>, \<open>nparallel\<close>) are
  modelled once. \<open>nrand\<close> is never called. Printing, logging, locks that guard one transition, and goroutine scheduling below
  the granularity of the step relations are left out; real time appears only through the readings and
  durations that are arguments.
\<close>

subsection \<open>Properties across components\<close>


definition query_method :: "Raft list method_info" where
  "query_method = \<lparr>m_Name = ''Query'', m_PkgPath = [], m_NumIn = 3, m_In2IsPtr = True, m_NumOut = 0, m_Func = (\<lambda>st bs. (st, ''c''))\<rparr>"

lemma query_method_registered: "svc_methods (MakeService ''ShardCtrler'' [query_method]) ''Query'' = Some query_method"
  by (simp add: MakeService_def query_method_def)

lemma one_client:
  "\<exists>c0 c. ctrler_make_config [query_method] [] sample_endnames 0 1 False = Inr c0 \<and> ctrler_makeClient (\<lambda>_. ''c'') (\<lambda>_. 0) [0] c0 = Inr (0, c)"
  by (simp add: ctrler_make_config_def ctrler_new_config_def ctrler_StartServer_def fresh_ends_def MakeNetwork_def MakeEnd_def Connect_def
      cluster_load_persister_def sc_StartServer_def AddServer_def ctrler_ConnectAll_eq ConnectAll_def connectUnlocked_def All_def set_ends_def
      endname_at_def sample_endnames_def Enable_def Reliable_def slice_get_def slice_set_def ctrler_makeClient_def
      ctrler_ConnectClientUnlocked_def ConnectClientUnlocked_def Let_def)


end
